(* ===== verification/Fg_Prelude.thy ===== *)
theory Fg_Prelude
  imports Main "HOL-Library.Word"
begin

text \<open>
  Shared vocabulary of the development: names for the machine integers of the C++ sources,
  the collections of facts the component theories extend, and generic lemmas on words,
  lists and maps that several components use.
\<close>

unbundle bit_operations_syntax

section \<open>Machine integers\<close>

type_synonym u8 = "8 word"
type_synonym u16 = "16 word"
type_synonym u32 = "32 word"
type_synonym u64 = "64 word"

text \<open>
  \<open>rt_simps\<close> collects the unfoldings that evaluate a component on concrete inputs,
  \<open>inv_intros\<close> the preservation lemmas of the components' invariants.
\<close>

named_theorems rt_simps
named_theorems inv_intros

section \<open>Words\<close>

lemma uint_max_u64 [simp]: "uint (- 1 :: u64) = 18446744073709551615"
  by (simp add: uint_word_of_int_eq unsigned_minus_1_eq_mask mask_eq_exp_minus_1)

lemma uint_lt_u64 [simp]: "uint (a :: u64) < 18446744073709551616"
  using uint_lt2p [of a] by simp

lemma unat_lt_u64 [simp]: "unat (a :: u64) < 18446744073709551616"
  using unsigned_less [where ?'a = nat, of a] by simp

lemma unat_lt_u32 [simp]: "unat (a :: u32) < 4294967296"
  using unsigned_less [where ?'a = nat, of a] by simp

lemma word_sub_eq_0_iff [simp]: "a - b = 0 \<longleftrightarrow> a = (b :: 'a::len word)"
  by simp

lemma uint_minus_ge:
  fixes a b :: "'a::len word"
  assumes "b \<le> a"
  shows "uint (a - b) = uint a - uint b"
  using assms by (simp add: word_le_def uint_sub_if')

lemma sint_range_u64:
  "- 9223372036854775808 \<le> sint (a :: u64)" "sint (a :: u64) < 9223372036854775808"
  using sint_ge [of a] sint_lt [of a] by simp_all

lemma unat_ucast_u32_u64 [simp]: "unat (ucast (g :: u32) :: u64) = unat g"
proof -
  have "unat g < 4294967296" by simp
  then have "unat g < 18446744073709551616" by linarith
  then show ?thesis by (simp add: unsigned_ucast_eq take_bit_eq_mod)
qed

end
