(* ===== verification/Rgd_Op.thy ===== *)
theory Rgd_Op
  imports Fg_Prelude
begin

text \<open>
  The operator vocabulary of the constraint language (\<open>fuzzer/cpp_core/rgd_op.h\<close>) and the
  branch distance of the gradient search (\<open>flip\<close>, \<open>sat_inc\<close>, \<open>getDistance\<close> of
  \<open>fuzzer/cpp_core/gd.cc\<close>). The distance is shown to be the exact, saturated gap between
  the operands of a comparison, hence zero exactly when the comparison holds.
\<close>

section \<open>Operators\<close>

text \<open>The enumeration \<open>rgd::Kind\<close>; \<open>kind_num\<close> gives the number of each enumerator.\<close>

datatype kind =
    rgd_Bool | rgd_Constant | rgd_Read | rgd_Concat | rgd_Extract
  | rgd_ZExt | rgd_SExt
  | rgd_Add | rgd_Sub | rgd_Mul | rgd_UDiv | rgd_SDiv | rgd_URem | rgd_SRem | rgd_Neg
  | rgd_Not | rgd_And | rgd_Or | rgd_Xor | rgd_Shl | rgd_LShr | rgd_AShr
  | rgd_Equal | rgd_Distinct | rgd_Ult | rgd_Ule | rgd_Ugt | rgd_Uge
  | rgd_Slt | rgd_Sle | rgd_Sgt | rgd_Sge
  | rgd_LOr | rgd_LAnd | rgd_LNot
  | rgd_Ite | rgd_Load | rgd_Memcmp

primrec kind_num :: "kind \<Rightarrow> nat" where
  "kind_num rgd_Bool = 0"
| "kind_num rgd_Constant = 1"
| "kind_num rgd_Read = 2"
| "kind_num rgd_Concat = 3"
| "kind_num rgd_Extract = 4"
| "kind_num rgd_ZExt = 5"
| "kind_num rgd_SExt = 6"
| "kind_num rgd_Add = 7"
| "kind_num rgd_Sub = 8"
| "kind_num rgd_Mul = 9"
| "kind_num rgd_UDiv = 10"
| "kind_num rgd_SDiv = 11"
| "kind_num rgd_URem = 12"
| "kind_num rgd_SRem = 13"
| "kind_num rgd_Neg = 14"
| "kind_num rgd_Not = 15"
| "kind_num rgd_And = 16"
| "kind_num rgd_Or = 17"
| "kind_num rgd_Xor = 18"
| "kind_num rgd_Shl = 19"
| "kind_num rgd_LShr = 20"
| "kind_num rgd_AShr = 21"
| "kind_num rgd_Equal = 22"
| "kind_num rgd_Distinct = 23"
| "kind_num rgd_Ult = 24"
| "kind_num rgd_Ule = 25"
| "kind_num rgd_Ugt = 26"
| "kind_num rgd_Uge = 27"
| "kind_num rgd_Slt = 28"
| "kind_num rgd_Sle = 29"
| "kind_num rgd_Sgt = 30"
| "kind_num rgd_Sge = 31"
| "kind_num rgd_LOr = 32"
| "kind_num rgd_LAnd = 33"
| "kind_num rgd_LNot = 34"
| "kind_num rgd_Ite = 35"
| "kind_num rgd_Load = 36"
| "kind_num rgd_Memcmp = 37"

lemma kind_num_inject [simp]: "kind_num a = kind_num b \<longleftrightarrow> a = b"
  by (cases a) (cases b; simp)+

lemma kind_num_less: "kind_num k < 38"
  by (cases k) simp_all

definition relational :: "kind \<Rightarrow> bool" where
  "relational k \<longleftrightarrow> 22 \<le> kind_num k \<and> kind_num k \<le> 31"

section \<open>Negating a comparison\<close>

text \<open>
  \<open>flip\<close> of \<open>gd.cc\<close>. The switch has no default: for an operator that is no comparison the
  function runs off its end, which is the value \<open>None\<close> here.
\<close>

fun flip :: "kind \<Rightarrow> kind option" where
  "flip rgd_Equal = Some rgd_Distinct"
| "flip rgd_Distinct = Some rgd_Equal"
| "flip rgd_Sge = Some rgd_Slt"
| "flip rgd_Sgt = Some rgd_Sle"
| "flip rgd_Sle = Some rgd_Sgt"
| "flip rgd_Slt = Some rgd_Sge"
| "flip rgd_Uge = Some rgd_Ult"
| "flip rgd_Ugt = Some rgd_Ule"
| "flip rgd_Ule = Some rgd_Ugt"
| "flip rgd_Ult = Some rgd_Uge"
| "flip _ = None"

section \<open>Branch distance\<close>

definition sat_inc :: "u64 \<Rightarrow> u64 \<Rightarrow> u64" where
  "sat_inc base inc = (if base + inc < base then - 1 else base + inc)"

text \<open>\<open>getDistance\<close>; \<open>None\<close> is the failed assertion of its default branch.\<close>

fun getDistance :: "kind \<Rightarrow> u64 \<Rightarrow> u64 \<Rightarrow> u64 option" where
  "getDistance rgd_Equal a b = Some (if b \<le> a then a - b else b - a)"
| "getDistance rgd_Distinct a b = Some (if a = b then 1 else 0)"
| "getDistance rgd_Ult a b = Some (if a < b then 0 else sat_inc (a - b) 1)"
| "getDistance rgd_Ule a b = Some (if a \<le> b then 0 else a - b)"
| "getDistance rgd_Ugt a b = Some (if b < a then 0 else sat_inc (b - a) 1)"
| "getDistance rgd_Uge a b = Some (if b \<le> a then 0 else b - a)"
| "getDistance rgd_Slt a b = Some (if sint a < sint b then 0 else sat_inc (a - b) 1)"
| "getDistance rgd_Sle a b = Some (if sint a \<le> sint b then 0 else a - b)"
| "getDistance rgd_Sgt a b = Some (if sint b < sint a then 0 else sat_inc (b - a) 1)"
| "getDistance rgd_Sge a b = Some (if sint b \<le> sint a then 0 else b - a)"
| "getDistance _ a b = None"

subsection \<open>What a comparison means\<close>

text \<open>
  The specification side: the truth of a comparison on 64-bit operands, and the gap, the
  distance over the integers from the operands to the nearest pair that satisfies it.
\<close>

fun rel_holds :: "kind \<Rightarrow> u64 \<Rightarrow> u64 \<Rightarrow> bool" where
  "rel_holds rgd_Equal a b \<longleftrightarrow> a = b"
| "rel_holds rgd_Distinct a b \<longleftrightarrow> a \<noteq> b"
| "rel_holds rgd_Ult a b \<longleftrightarrow> uint a < uint b"
| "rel_holds rgd_Ule a b \<longleftrightarrow> uint a \<le> uint b"
| "rel_holds rgd_Ugt a b \<longleftrightarrow> uint a > uint b"
| "rel_holds rgd_Uge a b \<longleftrightarrow> uint a \<ge> uint b"
| "rel_holds rgd_Slt a b \<longleftrightarrow> sint a < sint b"
| "rel_holds rgd_Sle a b \<longleftrightarrow> sint a \<le> sint b"
| "rel_holds rgd_Sgt a b \<longleftrightarrow> sint a > sint b"
| "rel_holds rgd_Sge a b \<longleftrightarrow> sint a \<ge> sint b"
| "rel_holds _ a b \<longleftrightarrow> False"

fun rel_gap :: "kind \<Rightarrow> u64 \<Rightarrow> u64 \<Rightarrow> int" where
  "rel_gap rgd_Equal a b = \<bar>uint a - uint b\<bar>"
| "rel_gap rgd_Distinct a b = (if a = b then 1 else 0)"
| "rel_gap rgd_Ult a b = max 0 (uint a - uint b + 1)"
| "rel_gap rgd_Ule a b = max 0 (uint a - uint b)"
| "rel_gap rgd_Ugt a b = max 0 (uint b - uint a + 1)"
| "rel_gap rgd_Uge a b = max 0 (uint b - uint a)"
| "rel_gap rgd_Slt a b = max 0 (sint a - sint b + 1)"
| "rel_gap rgd_Sle a b = max 0 (sint a - sint b)"
| "rel_gap rgd_Sgt a b = max 0 (sint b - sint a + 1)"
| "rel_gap rgd_Sge a b = max 0 (sint b - sint a)"
| "rel_gap _ a b = 0"

subsection \<open>Lemmas\<close>

lemma uint_sat_inc: "uint (sat_inc a b) = min (2 ^ 64 - 1) (uint a + uint b)"
proof -
  have "uint a < 18446744073709551616" "uint b < 18446744073709551616" by simp_all
  then show ?thesis
    by (auto simp: sat_inc_def word_less_def uint_plus_if' min_def)
qed

lemma uint_sub_signed:
  fixes a b :: u64
  assumes "sint b \<le> sint a"
  shows "uint (a - b) = sint a - sint b"
proof -
  have "a - b = word_of_int (sint a - sint b)"
    by simp
  then have "uint (a - b) = (sint a - sint b) mod 2 ^ 64"
    by (simp only: uint_word_of_int) simp
  moreover have "0 \<le> sint a - sint b" "sint a - sint b < 2 ^ 64"
    using assms sint_range_u64 [of a] sint_range_u64 [of b] by simp_all
  ultimately show ?thesis by simp
qed

lemma word_rel_uint:
  fixes a b :: u64
  shows "(a < b) = (uint a < uint b)" "(a \<le> b) = (uint a \<le> uint b)" "(a = b) = (uint a = uint b)"
  by (simp_all add: word_less_def word_le_def word_uint_eq_iff)

lemma uint_sub_unsigned:
  fixes a b :: u64
  assumes "uint b \<le> uint a"
  shows "uint (a - b) = uint a - uint b"
  using assms by (simp add: uint_minus_ge word_le_def)

lemma getDistance_relational: "(\<exists>d. getDistance k a b = Some d) \<longleftrightarrow> relational k"
  by (cases k) (simp_all add: relational_def)

lemma getDistance_gap:
  assumes "getDistance k a b = Some d"
  shows "uint d = min (2 ^ 64 - 1) (rel_gap k a b)"
proof -
  have lt: "uint a < 18446744073709551616" "uint b < 18446744073709551616"
    "0 \<le> uint a" "0 \<le> uint b"
    by simp_all
  note sr = sint_range_u64 [of a] sint_range_u64 [of b]
  have "uint d \<le> 18446744073709551615"
    using uint_lt_u64 [of d] by linarith
  with assms lt sr show ?thesis
    by (cases k)
      (auto simp: uint_sat_inc uint_sub_signed uint_sub_unsigned word_rel_uint min_def max_def
        not_less not_le split: if_splits)
qed

lemma rel_gap_nonneg: "0 \<le> rel_gap k a b"
  by (cases k) simp_all

lemma rel_gap_zero_iff: "relational k \<Longrightarrow> rel_gap k a b = 0 \<longleftrightarrow> rel_holds k a b"
  by (cases k) (auto simp: relational_def word_rel_uint max_def)

lemma getDistance_zero_iff:
  assumes "getDistance k a b = Some d"
  shows "d = 0 \<longleftrightarrow> rel_holds k a b"
proof -
  from assms have r: "relational k" using getDistance_relational by blast
  have "d = 0 \<longleftrightarrow> uint d = 0" by (simp add: word_uint_eq_iff)
  also have "\<dots> \<longleftrightarrow> rel_gap k a b = 0"
    using getDistance_gap [OF assms] rel_gap_nonneg [of k a b] by (auto simp: min_def)
  finally show ?thesis by (simp add: rel_gap_zero_iff [OF r])
qed

lemma flip_relational: "(\<exists>k'. flip k = Some k') \<longleftrightarrow> relational k"
  by (cases k) (simp_all add: relational_def)

lemma flip_negates: "flip k = Some k' \<Longrightarrow> rel_holds k' a b \<longleftrightarrow> \<not> rel_holds k a b"
  by (cases k) auto

lemma flip_flip: "flip k = Some k' \<Longrightarrow> flip k' = Some k"
  by (cases k) auto

section \<open>Properties\<close>

text \<open>
  C16. For each of the ten comparisons \<open>getDistance\<close> returns the gap between the operands and
  the nearest pair that satisfies the comparison, cut off at \<open>2^64 - 1\<close>, for signed and for
  unsigned operands, and the distance is zero exactly when the comparison holds.
\<close>

theorem getDistance_correct:
  assumes "relational k"
  shows "\<exists>d. getDistance k a b = Some d \<and> uint d = min (2 ^ 64 - 1) (rel_gap k a b)
    \<and> (d = 0 \<longleftrightarrow> rel_holds k a b)"
proof -
  from assms obtain d where "getDistance k a b = Some d" using getDistance_relational by blast
  with getDistance_gap [OF this] getDistance_zero_iff [OF this] show ?thesis by blast
qed

theorem getDistance_correct_witness:
  "\<exists>d. getDistance rgd_Slt 3 (- 2) = Some d \<and> uint d = 6"
proof -
  have "relational rgd_Slt" by (simp add: relational_def)
  then show ?thesis using getDistance_correct [of rgd_Slt 3 "- 2"] by auto
qed

text \<open>
  C22. \<open>flip\<close> is defined on exactly the comparisons, is its own inverse, and turns a comparison
  into its negation.
\<close>

theorem flip_complement:
  "(case flip k of None \<Rightarrow> \<not> relational k
    | Some k' \<Rightarrow> relational k \<and> flip k' = Some k \<and> (\<forall>a b. rel_holds k' a b \<longleftrightarrow> \<not> rel_holds k a b))"
proof (cases "flip k")
  case None
  then show ?thesis using flip_relational [of k] by simp
next
  case (Some k')
  then show ?thesis using flip_relational [of k] flip_flip [OF Some] flip_negates [OF Some] by simp
qed

end
