(* ===== verification/Mut_Input.thy ===== *)
theory Mut_Input
  imports Fg_Prelude
begin

text \<open>
  The mutable search input (\<open>fuzzer/cpp_core/input.h\<close>, \<open>input.cc\<close>). The array of values is
  owned by each object and copied by assignment; the array of disable flags is reached through
  a pointer that assignment shares between objects, so the flags live in an explicit heap.
  The pseudo-random generator of libc (\<open>initstate_r\<close>, \<open>random_r\<close>) is a parameter: \<open>'r\<close> is
  its state and \<open>random_r\<close> its step function.
\<close>

section \<open>Heap of disable arrays\<close>

record iheap =
  blocks :: "nat \<Rightarrow> u8 list"
  live :: "nat list"
  next_ptr :: nat

definition malloc_flags :: "iheap \<Rightarrow> nat \<Rightarrow> nat \<times> iheap" where
  "malloc_flags h n =
     (next_ptr h, h\<lparr>blocks := (blocks h)(next_ptr h := replicate n 0),
                    live := next_ptr h # live h, next_ptr := Suc (next_ptr h)\<rparr>)"

text \<open>\<open>free\<close> of a pointer that is not allocated is an error, \<open>None\<close>.\<close>

definition free_flags :: "iheap \<Rightarrow> nat \<Rightarrow> iheap option" where
  "free_flags h p = (if p \<in> set (live h) then Some (h\<lparr>live := removeAll p (live h)\<rparr>) else None)"

definition heap_ok :: "iheap \<Rightarrow> bool" where
  "heap_ok h \<longleftrightarrow> (\<forall>p \<in> set (live h). p < next_ptr h)"

section \<open>The input\<close>

record 'r MutInput =
  mvalue :: "u64 list"
  disables :: nat
  msize :: nat
  r_d :: 'r
  r_val :: "32 word"
  r_idx :: nat

text \<open>
  The constructor. The value array is uninitialised memory, given by the argument \<open>junk\<close>;
  \<open>seed\<close> is the result of \<open>time(NULL)\<close>.
\<close>

definition MutInput_new ::
  "(u32 \<Rightarrow> 'r) \<Rightarrow> ('r \<Rightarrow> 'r \<times> 32 word) \<Rightarrow> iheap \<Rightarrow> u32 \<Rightarrow> u64 list \<Rightarrow> 'r MutInput \<times> iheap" where
  "MutInput_new initstate_r random_r h seed junk =
     (let (p, h') = malloc_flags h (length junk);
          (rd, rv) = random_r (initstate_r seed)
      in (\<lparr>mvalue = junk, disables = p, msize = length junk, r_d = rd, r_val = rv, r_idx = 0\<rparr>, h'))"

text \<open>The destructor frees the flag array (and the value array, which no other object shares).\<close>

definition MutInput_destroy :: "iheap \<Rightarrow> 'r MutInput \<Rightarrow> iheap option" where
  "MutInput_destroy h m = free_flags h (disables m)"

definition mi_update :: "iheap \<Rightarrow> 'r MutInput \<Rightarrow> nat \<Rightarrow> bool \<Rightarrow> u64 \<Rightarrow> 'r MutInput" where
  "mi_update h m index direction delta =
     (if blocks h (disables m) ! index = 0
      then if direction then m\<lparr>mvalue := (mvalue m)[index := mvalue m ! index + delta]\<rparr>
           else m\<lparr>mvalue := (mvalue m)[index := mvalue m ! index - delta]\<rparr>
      else m)"

definition get_rand :: "('r \<Rightarrow> 'r \<times> 32 word) \<Rightarrow> 'r MutInput \<Rightarrow> u8 \<times> 'r MutInput" where
  "get_rand random_r m =
     (let r = ucast (r_val m) :: u8;
          m1 = m\<lparr>r_val := signed_drop_bit 8 (r_val m), r_idx := r_idx m + 1\<rparr>
      in (r, if r_idx m1 = 4
             then (let (rd, rv) = random_r (r_d m1) in m1\<lparr>r_d := rd, r_val := rv, r_idx := 0\<rparr>)
             else m1))"

definition mi_assign :: "(u32 \<times> u8) list \<Rightarrow> 'r MutInput \<Rightarrow> 'r MutInput" where
  "mi_assign input m = m\<lparr>mvalue := map (\<lambda>i. ucast (snd (input ! i))) [0..<msize m]\<rparr>"

definition mi_flip :: "'r MutInput \<Rightarrow> nat \<Rightarrow> nat \<Rightarrow> 'r MutInput" where
  "mi_flip m index bit_index =
     (let v = ucast (mvalue m ! index) :: u8; mask = push_bit bit_index (1 :: u8)
      in m\<lparr>mvalue := (mvalue m)[index := ucast (v XOR mask)]\<rparr>)"

definition mi_set :: "'r MutInput \<Rightarrow> nat \<Rightarrow> u64 \<Rightarrow> 'r MutInput" where
  "mi_set m index v = m\<lparr>mvalue := (mvalue m)[index := v]\<rparr>"

definition mi_get :: "'r MutInput \<Rightarrow> nat \<Rightarrow> u64" where
  "mi_get m i = mvalue m ! i"

definition mi_len :: "'r MutInput \<Rightarrow> u64" where
  "mi_len m = of_nat (msize m)"

definition val_len :: "'r MutInput \<Rightarrow> u64" where
  "val_len m = of_nat (msize m)"

fun randomize_loop ::
  "('r \<Rightarrow> 'r \<times> 32 word) \<Rightarrow> iheap \<Rightarrow> nat list \<Rightarrow> 'r MutInput \<Rightarrow> 'r MutInput" where
  "randomize_loop random_r h [] m = m"
| "randomize_loop random_r h (i # is) m =
     (if blocks h (disables m) ! i = 0
      then (let (r, m') = get_rand random_r m
            in randomize_loop random_r h is (m'\<lparr>mvalue := (mvalue m')[i := ucast r]\<rparr>))
      else randomize_loop random_r h is m)"

definition randomize :: "('r \<Rightarrow> 'r \<times> 32 word) \<Rightarrow> iheap \<Rightarrow> 'r MutInput \<Rightarrow> 'r MutInput" where
  "randomize random_r h m = randomize_loop random_r h [0..<msize m] m"

definition resetDisables :: "iheap \<Rightarrow> 'r MutInput \<Rightarrow> iheap" where
  "resetDisables h m =
     h\<lparr>blocks := (blocks h)(disables m := replicate (msize m) 0 @ drop (msize m) (blocks h (disables m)))\<rparr>"

definition setDisable :: "iheap \<Rightarrow> 'r MutInput \<Rightarrow> nat \<Rightarrow> iheap" where
  "setDisable h m idx = h\<lparr>blocks := (blocks h)(disables m := (blocks h (disables m))[idx := 1])\<rparr>"

text \<open>
  \<open>MutInput::copy\<close>, the body of \<open>operator=\<close>: the whole object is copied byte by byte, the
  destination then gets its own value array back and the values are copied into it. The
  pointer to the flags stays the one of the source.
\<close>

definition mi_copy :: "'r MutInput \<Rightarrow> 'r MutInput \<Rightarrow> 'r MutInput" where
  "mi_copy dst src =
     src\<lparr>mvalue := take (msize src) (mvalue src) @ drop (msize src) (mvalue dst)\<rparr>"

section \<open>Well-formed inputs\<close>

definition mi_wf :: "iheap \<Rightarrow> 'r MutInput \<Rightarrow> bool" where
  "mi_wf h m \<longleftrightarrow> length (mvalue m) = msize m \<and> length (blocks h (disables m)) = msize m
     \<and> disables m \<in> set (live h)"

lemmas mi_simps [rt_simps] =
  mi_update_def mi_assign_def mi_set_def mi_get_def mi_copy_def setDisable_def resetDisables_def

text \<open>What the operations leave alone.\<close>

lemma mi_update_frame [simp]:
  "disables (mi_update h m i b d) = disables m" "msize (mi_update h m i b d) = msize m"
  "length (mvalue (mi_update h m i b d)) = length (mvalue m)"
  by (simp_all add: mi_update_def)

lemma mi_set_frame [simp]:
  "disables (mi_set m i v) = disables m" "msize (mi_set m i v) = msize m"
  "length (mvalue (mi_set m i v)) = length (mvalue m)"
  "mvalue (mi_set m i v) = (mvalue m)[i := v]"
  by (simp_all add: mi_set_def)

lemma get_rand_frame [simp]:
  "mvalue (snd (get_rand rr m)) = mvalue m" "disables (snd (get_rand rr m)) = disables m"
  "msize (snd (get_rand rr m)) = msize m"
  by (simp_all add: get_rand_def Let_def split: prod.split)

lemma randomize_loop_frame [simp]:
  "disables (randomize_loop rr h is m) = disables m" "msize (randomize_loop rr h is m) = msize m"
  "length (mvalue (randomize_loop rr h is m)) = length (mvalue m)"
  by (induction "is" arbitrary: m) (simp_all add: case_prod_beta Let_def)

lemma randomize_frame [simp]:
  "disables (randomize rr h m) = disables m" "msize (randomize rr h m) = msize m"
  "length (mvalue (randomize rr h m)) = length (mvalue m)"
  by (simp_all add: randomize_def)

lemma mi_copy_frame [simp]:
  "disables (mi_copy dst src) = disables src" "msize (mi_copy dst src) = msize src"
  by (simp_all add: mi_copy_def)

lemma mi_copy_value:
  "length (mvalue src) = msize src \<Longrightarrow> length (mvalue dst) = msize src \<Longrightarrow>
   mvalue (mi_copy dst src) = mvalue src"
  by (simp add: mi_copy_def)

text \<open>Setting a byte back after a step in either direction restores the values.\<close>

lemma mi_set_update:
  "mvalue (mi_set (mi_update h m i b d) i (mi_get m i)) = mvalue m"
  by (simp add: mi_update_def mi_get_def)

section \<open>Properties\<close>

lemma randomize_loop_keeps:
  "j \<notin> set is \<or> blocks h (disables m) ! j \<noteq> 0 \<Longrightarrow> mvalue (randomize_loop rr h is m) ! j = mvalue m ! j"
proof (induction "is" arbitrary: m)
  case (Cons i "is")
  then show ?case by (cases "i = j") (auto simp: case_prod_beta Let_def)
qed simp

lemma ucast_u8_less: "(ucast (r :: u8) :: u64) < 256"
proof -
  have "unat (ucast r :: u64) < 256"
    using unsigned_less [where ?'a = nat, of r] by (simp add: unsigned_ucast_eq take_bit_eq_mod)
  then show ?thesis by (simp add: word_less_nat_alt)
qed

lemma randomize_loop_bytes:
  "j < length (mvalue m) \<Longrightarrow> blocks h (disables m) ! j = 0 \<Longrightarrow> j \<in> set is \<or> mvalue m ! j < 256 \<Longrightarrow>
   mvalue (randomize_loop rr h is m) ! j < 256"
proof (induction "is" arbitrary: m)
  case (Cons i "is")
  then show ?case
    by (cases "i = j") (auto simp: case_prod_beta Let_def ucast_u8_less)
qed simp

end
