(* ===== verification/Fp64.thy ===== *)
theory Fp64
  imports Fg_Prelude Complex_Main "HOL-Library.Log_Nat"
begin

text \<open>
  The part of IEEE-754 binary64 arithmetic the gradient search uses. A finite double is
  represented by its exact rational value; \<open>fp_round\<close> rounds to the 53-bit significand,
  ties to even. The values that occur lie between \<open>2\<close> to the \<open>-64\<close> and \<open>2\<close> to the \<open>64\<close>
  (and \<open>0\<close>), far from the subnormal and the overflow range, so no exponent limit is needed.
\<close>

section \<open>Rounding\<close>

text \<open>The exponent \<open>e\<close> of a positive rational: \<open>2\<close> to the \<open>e\<close> \<open>\<le> x <\<close> \<open>2\<close> to the \<open>e + 1\<close>.\<close>

definition fp_exp :: "rat \<Rightarrow> int" where
  "fp_exp x = (let (p, q) = quotient_of x; e = bitlen p - bitlen q
               in if x < 2 powi e then e - 1 else e)"

definition round_half_even :: "rat \<Rightarrow> int" where
  "round_half_even x =
     (let f = \<lfloor>x\<rfloor>; r = x - of_int f
      in if r < 1 / 2 then f else if r > 1 / 2 then f + 1 else if even f then f else f + 1)"

definition fp_round_pos :: "rat \<Rightarrow> rat" where
  "fp_round_pos x = (let u = 2 powi (fp_exp x - 52) in of_int (round_half_even (x / u)) * u)"

definition fp_round :: "rat \<Rightarrow> rat" where
  "fp_round x = (if x = 0 then 0 else if 0 < x then fp_round_pos x else - fp_round_pos (- x))"

definition fp_mul :: "rat \<Rightarrow> rat \<Rightarrow> rat" where
  "fp_mul x y = fp_round (x * y)"

definition fp_div :: "rat \<Rightarrow> rat \<Rightarrow> rat" where
  "fp_div x y = fp_round (x / y)"

section \<open>Conversions\<close>

definition fp_of_u64 :: "u64 \<Rightarrow> rat" where
  "fp_of_u64 v = fp_round (of_nat (unat v))"

definition fp_of_int :: "int \<Rightarrow> rat" where
  "fp_of_int i = fp_round (of_int i)"

text \<open>
  Conversion to \<open>uint64_t\<close> truncates towards zero. Outside the target range C++ leaves the
  result undefined; the model takes the value modulo \<open>2\<close> to the \<open>64\<close>, which is what the
  x86-64 conversion yields for the two values that can occur there, \<open>2\<close> to the \<open>64\<close> and the
  multiples of a negative step.
\<close>

definition u64_of_fp :: "rat \<Rightarrow> u64" where
  "u64_of_fp d = word_of_int (if 0 \<le> d then \<lfloor>d\<rfloor> else \<lceil>d\<rceil>)"

section \<open>Laws\<close>

lemma powi2_less_cancel: "(2 :: rat) powi i < 2 powi j \<Longrightarrow> i < j"
  by (metis not_less one_le_numeral power_int_increasing)

lemma bitlen_bounds_int: "0 < n \<Longrightarrow> 2 powi (bitlen n - 1) \<le> (of_int n :: rat) \<and> of_int n < (2 :: rat) powi bitlen n"
proof -
  assume n: "0 < n"
  have "1 \<le> bitlen n"
    using n bitlen_nonneg [of n] bitlen_eq_zero_iff [of n] by linarith
  then obtain k where k: "bitlen n = int (Suc k)"
    by (metis add.commute of_nat_Suc zle_iff_zadd)
  have "2 ^ k \<le> n" "n < 2 ^ Suc k"
    using bitlen_bounds [OF n] unfolding k by (simp_all only: nat_int) simp_all
  then have "(of_int (2 ^ k) :: rat) \<le> of_int n" "(of_int n :: rat) < of_int (2 ^ Suc k)"
    by (simp_all only: of_int_le_iff of_int_less_iff)
  then show ?thesis
    by (simp add: k power_int_def nat_add_distrib)
qed

lemma fp_exp_bounds:
  assumes "0 < x"
  shows "2 powi fp_exp x \<le> x" "x < 2 powi (fp_exp x + 1)"
proof -
  obtain p q where pq: "quotient_of x = (p, q)" by force
  have q: "0 < q" using pq quotient_of_denom_pos by blast
  have x: "x = of_int p / of_int q" using pq quotient_of_div by blast
  have p: "0 < p" using assms x q by (simp add: zero_less_divide_iff)
  let ?a = "bitlen p" and ?b = "bitlen q"
  have lo: "2 powi (?a - 1) \<le> (of_int p :: rat)" "(of_int p :: rat) < 2 powi ?a"
    using bitlen_bounds_int [OF p] by auto
  have hi: "2 powi (?b - 1) \<le> (of_int q :: rat)" "(of_int q :: rat) < 2 powi ?b"
    using bitlen_bounds_int [OF q] by auto
  have "x \<le> of_int p / 2 powi (?b - 1)"
    unfolding x using hi(1) p by (intro divide_left_mono) (auto simp: q)
  also have "\<dots> < 2 powi ?a / 2 powi (?b - 1)"
    using lo(2) by (simp add: divide_strict_right_mono)
  also have "\<dots> = 2 powi (?a - ?b + 1)"
    by (simp flip: power_int_diff add: algebra_simps)
  finally have up: "x < 2 powi (?a - ?b + 1)" .
  have "2 powi (?a - ?b - 1) = 2 powi (?a - 1) / (2 :: rat) powi ?b"
    by (simp flip: power_int_diff add: algebra_simps)
  also have "\<dots> \<le> of_int p / 2 powi ?b"
    using lo(1) by (simp add: divide_right_mono)
  also have "\<dots> \<le> x"
    unfolding x using hi(2) p by (intro divide_left_mono) (auto simp: q)
  finally have low: "2 powi (?a - ?b - 1) \<le> x" .
  have e: "fp_exp x = (if x < 2 powi (?a - ?b) then ?a - ?b - 1 else ?a - ?b)"
    by (simp add: fp_exp_def pq)
  show "2 powi fp_exp x \<le> x" "x < 2 powi (fp_exp x + 1)"
    using up low by (auto simp: e)
qed

lemma fp_exp_unique:
  assumes "2 powi e \<le> x" "x < 2 powi (e + 1)"
  shows "fp_exp x = e"
proof -
  have x: "0 < x" using assms(1) by (meson less_le_trans zero_less_numeral zero_less_power_int)
  have "(2 :: rat) powi e < 2 powi (fp_exp x + 1)" "(2 :: rat) powi fp_exp x < 2 powi (e + 1)"
    using fp_exp_bounds [OF x] assms by (meson order.strict_trans1)+
  then have "e < fp_exp x + 1" "fp_exp x < e + 1"
    by (simp_all only: powi2_less_cancel)
  then show ?thesis by simp
qed

lemma round_half_even_of_int [simp]: "round_half_even (of_int i) = i"
  by (simp add: round_half_even_def)

lemma round_half_even_mono: "x \<le> y \<Longrightarrow> round_half_even x \<le> round_half_even y"
proof -
  assume xy: "x \<le> y"
  have fl: "\<lfloor>x\<rfloor> \<le> \<lfloor>y\<rfloor>" using xy by (rule floor_mono)
  show ?thesis
  proof (cases "\<lfloor>x\<rfloor> = \<lfloor>y\<rfloor>")
    case True
    then show ?thesis using xy by (auto simp: round_half_even_def Let_def)
  next
    case False
    with fl have "\<lfloor>x\<rfloor> + 1 \<le> \<lfloor>y\<rfloor>" by simp
    moreover have "round_half_even x \<le> \<lfloor>x\<rfloor> + 1" "\<lfloor>y\<rfloor> \<le> round_half_even y"
      by (simp_all add: round_half_even_def Let_def)
    ultimately show ?thesis by linarith
  qed
qed

lemma fp_round_pos_bounds:
  assumes "0 < x"
  shows "2 powi fp_exp x \<le> fp_round_pos x" "fp_round_pos x \<le> 2 powi (fp_exp x + 1)"
proof -
  let ?u = "(2 :: rat) powi (fp_exp x - 52)"
  have u: "0 < ?u" by simp
  have lo: "2 powi fp_exp x = of_int (2 ^ 52) * ?u" and hi: "2 powi (fp_exp x + 1) = of_int (2 ^ 53) * ?u"
    by (simp_all add: power_int_diff power_int_add)
  have "of_int (2 ^ 52) \<le> x / ?u" "x / ?u \<le> of_int (2 ^ 53)"
    using fp_exp_bounds [OF assms] unfolding lo hi by (simp_all add: pos_le_divide_eq pos_divide_le_eq less_imp_le)
  then have "2 ^ 52 \<le> round_half_even (x / ?u)" "round_half_even (x / ?u) \<le> 2 ^ 53"
    using round_half_even_mono round_half_even_of_int by metis+
  then have "(of_int (2 ^ 52) :: rat) \<le> of_int (round_half_even (x / ?u))"
    "(of_int (round_half_even (x / ?u)) :: rat) \<le> of_int (2 ^ 53)"
    by (simp_all only: of_int_le_iff)
  then show "2 powi fp_exp x \<le> fp_round_pos x" "fp_round_pos x \<le> 2 powi (fp_exp x + 1)"
    unfolding lo hi fp_round_pos_def Let_def using u by (simp_all add: mult_right_mono)
qed

lemma fp_round_pos_mono:
  assumes "0 < x" "x \<le> y"
  shows "fp_round_pos x \<le> fp_round_pos y"
proof -
  have y: "0 < y" using assms by simp
  have "(2 :: rat) powi fp_exp x < 2 powi (fp_exp y + 1)"
    using fp_exp_bounds(1) [OF assms(1)] fp_exp_bounds(2) [OF y] assms(2) by (meson le_less_trans)
  then have le: "fp_exp x \<le> fp_exp y" using powi2_less_cancel by fastforce
  show ?thesis
  proof (cases "fp_exp x = fp_exp y")
    case True
    have "round_half_even (x / 2 powi (fp_exp y - 52)) \<le> round_half_even (y / 2 powi (fp_exp y - 52))"
      using assms by (intro round_half_even_mono divide_right_mono) auto
    then show ?thesis
      by (simp add: fp_round_pos_def Let_def True mult_right_mono)
  next
    case False
    have "fp_round_pos x \<le> 2 powi (fp_exp x + 1)" by (rule fp_round_pos_bounds [OF assms(1)])
    also have "\<dots> \<le> 2 powi fp_exp y"
      using le False by (intro power_int_increasing) auto
    also have "\<dots> \<le> fp_round_pos y" by (rule fp_round_pos_bounds [OF y])
    finally show ?thesis .
  qed
qed

lemma fp_round_nonneg: "0 \<le> x \<Longrightarrow> 0 \<le> fp_round x"
proof -
  assume "0 \<le> x"
  moreover have "0 < x \<Longrightarrow> 0 < fp_round_pos x"
    using fp_round_pos_bounds(1) by (meson less_le_trans zero_less_numeral zero_less_power_int)
  ultimately show ?thesis by (auto simp: fp_round_def)
qed

lemma fp_round_mono: "0 \<le> x \<Longrightarrow> x \<le> y \<Longrightarrow> fp_round x \<le> fp_round y"
  using fp_round_nonneg [of y] fp_round_pos_mono [of x y] by (auto simp: fp_round_def split: if_splits)

lemma fp_round_pow2: "fp_round (2 ^ n) = 2 ^ n"
proof -
  have e: "fp_exp (2 ^ n) = int n"
    by (rule fp_exp_unique) (simp_all add: power_int_add)
  have "(2 :: rat) ^ n / 2 powi (int n - 52) = of_int (2 ^ 52)"
    by (simp add: power_int_diff)
  then have "fp_round_pos (2 ^ n) = of_int (2 ^ 52) * 2 powi (int n - 52)"
    unfolding fp_round_pos_def Let_def e by (simp only: round_half_even_of_int)
  also have "\<dots> = 2 ^ n" by (simp add: power_int_diff)
  finally show ?thesis by (simp add: fp_round_def)
qed

lemma fp_round_0 [simp]: "fp_round 0 = 0" and fp_round_1 [simp]: "fp_round 1 = 1"
  using fp_round_pow2 [of 0] by (simp_all add: fp_round_def)

lemma fp_of_u64_bounds: "0 \<le> fp_of_u64 v" "fp_of_u64 v \<le> 2 ^ 64"
proof -
  show "0 \<le> fp_of_u64 v" unfolding fp_of_u64_def by (rule fp_round_nonneg) (rule of_nat_0_le_iff)
  have "(of_nat (unat v) :: rat) \<le> of_nat (2 ^ 64)"
    by (simp only: of_nat_le_iff) (simp add: less_imp_le)
  then have "fp_of_u64 v \<le> fp_round (2 ^ 64)"
    unfolding fp_of_u64_def by (intro fp_round_mono of_nat_0_le_iff) (simp only: of_nat_power of_nat_numeral)
  then show "fp_of_u64 v \<le> 2 ^ 64" by (simp only: fp_round_pow2)
qed

lemma fp_of_u64_mono: "v \<le> w \<Longrightarrow> fp_of_u64 v \<le> fp_of_u64 w"
  unfolding fp_of_u64_def word_le_nat_alt
  by (intro fp_round_mono of_nat_0_le_iff) (simp only: of_nat_le_iff)

lemma fp_of_u64_0 [simp]: "fp_of_u64 0 = 0"
  by (simp add: fp_of_u64_def)

lemma fp_of_u64_pos_iff [simp]: "0 < fp_of_u64 v \<longleftrightarrow> v \<noteq> 0"
proof
  assume "v \<noteq> 0"
  then have "fp_of_u64 1 \<le> fp_of_u64 v" by (intro fp_of_u64_mono) (simp add: word_le_nat_alt unat_gt_0 Suc_le_eq)
  moreover have "fp_of_u64 1 = 1" by (simp add: fp_of_u64_def)
  ultimately show "0 < fp_of_u64 v" by simp
qed auto

lemma fp_mul_le:
  assumes "0 \<le> x" "x \<le> 1" "0 \<le> y" "fp_round y = y"
  shows "0 \<le> fp_mul x y" "fp_mul x y \<le> y"
proof -
  show "0 \<le> fp_mul x y" using assms by (simp add: fp_mul_def fp_round_nonneg)
  have "fp_mul x y \<le> fp_round y"
    unfolding fp_mul_def using assms by (intro fp_round_mono) (simp_all add: mult_left_le_one_le)
  then show "fp_mul x y \<le> y" by (simp add: assms)
qed

end
