(* ===== verification/Grad_Vec.thy ===== *)
theory Grad_Vec
  imports Fp64
begin

text \<open>
  The gradient vector of the search (\<open>fuzzer/cpp_core/grad.h\<close>, \<open>grad.cc\<close>): one unit per
  input byte with the direction, the size and the normalised share of the partial derivative.
\<close>

record GradUnit =
  sign :: bool
  val :: u64
  pct :: rat

type_synonym Grad = "GradUnit list"

text \<open>The constructor value-initialises the vector: every unit is zero.\<close>

definition GradUnit_zero :: GradUnit where
  "GradUnit_zero = \<lparr>sign = False, val = 0, pct = 0\<rparr>"

definition Grad_new :: "nat \<Rightarrow> Grad" where
  "Grad_new n = replicate n GradUnit_zero"

definition set_len :: "nat \<Rightarrow> Grad \<Rightarrow> Grad" where
  "set_len n g = take n g @ replicate (n - length g) GradUnit_zero"

definition max_val :: "Grad \<Rightarrow> u64" where
  "max_val g = foldl (\<lambda>ret u. if ret < val u then val u else ret) 0 g"

definition normalize :: "Grad \<Rightarrow> Grad" where
  "normalize g =
     (let max_grad = fp_of_u64 (max_val g)
      in if 0 < max_grad
         then map (\<lambda>u. u\<lparr>pct := fp_mul 1 (fp_div (fp_of_u64 (val u)) max_grad)\<rparr>) g
         else g)"

text \<open>
  \<open>Grad::clear\<close> iterates with \<open>for (auto gradu : grads)\<close>: each unit is copied, the copy is
  zeroed and dropped. The vector itself is returned as it was.
\<close>

definition Grad_clear :: "Grad \<Rightarrow> Grad" where
  "Grad_clear g = (let copies = map (\<lambda>u. u\<lparr>val := 0, pct := 0\<rparr>) g in g)"

definition Grad_len :: "Grad \<Rightarrow> nat" where
  "Grad_len g = length g"

definition val_sum :: "Grad \<Rightarrow> u64" where
  "val_sum g = foldl (\<lambda>ret u. ret + val u) 0 g"

section \<open>Lemmas\<close>

lemma Grad_clear_id [simp]: "Grad_clear g = g"
  by (simp add: Grad_clear_def)

lemma Grad_len_eq [simp]: "Grad_len g = length g"
  by (simp add: Grad_len_def)

lemma length_normalize [simp]: "length (normalize g) = length g"
  by (simp add: normalize_def Let_def)

lemma map_val_normalize [simp]: "map val (normalize g) = map val g"
  by (simp add: normalize_def Let_def)

lemma foldl_max_val:
  "foldl (\<lambda>ret u. if ret < val u then val u else ret) m g = fold max (map val g) (m :: u64)"
  by (induction g arbitrary: m) (auto simp: max_def not_less)

lemma fold_max_ge:
  fixes m :: "'a::linorder"
  shows "m \<le> fold max xs m" "x \<in> set xs \<Longrightarrow> x \<le> fold max xs m"
    "fold max xs m = m \<or> fold max xs m \<in> set xs"
proof -
  have ge: "m \<le> fold max xs m" for m :: 'a and xs
    by (induction xs arbitrary: m) (auto intro: order_trans [OF max.cobounded2])
  show "m \<le> fold max xs m" by (rule ge)
  show "x \<in> set xs \<Longrightarrow> x \<le> fold max xs m"
  proof (induction xs arbitrary: m)
    case (Cons y ys)
    have "max y m \<le> fold max ys (max y m)" by (rule ge)
    with Cons show ?case by auto
  qed simp
  show "fold max xs m = m \<or> fold max xs m \<in> set xs"
    by (induction xs arbitrary: m) (simp, metis fold_simps(2) list.set_intros max_def)
qed

lemma max_val_upper: "u \<in> set g \<Longrightarrow> val u \<le> max_val g"
  unfolding max_val_def foldl_max_val by (rule fold_max_ge(2)) simp

lemma max_val_attained: "max_val g \<noteq> 0 \<Longrightarrow> \<exists>u \<in> set g. val u = max_val g"
  using fold_max_ge(3) [of "map val g" 0] unfolding max_val_def foldl_max_val by auto

lemma max_val_eq_0_iff: "max_val g = 0 \<longleftrightarrow> (\<forall>u \<in> set g. val u = 0)"
  using max_val_upper max_val_attained by force

lemma normalize_pct:
  assumes "max_val g \<noteq> 0" "u \<in> set (normalize g)"
  shows "0 \<le> pct u" "pct u \<le> 1" "val u = max_val g \<Longrightarrow> pct u = 1"
proof -
  let ?M = "fp_of_u64 (max_val g)"
  have M: "0 < ?M" using assms(1) by simp
  obtain v where v: "v \<in> set g" "u = v\<lparr>pct := fp_mul 1 (fp_div (fp_of_u64 (val v)) ?M)\<rparr>"
    using assms(2) M by (auto simp: normalize_def Let_def)
  have le: "fp_of_u64 (val v) \<le> ?M" by (rule fp_of_u64_mono) (rule max_val_upper [OF v(1)])
  have q: "0 \<le> fp_of_u64 (val v) / ?M" "fp_of_u64 (val v) / ?M \<le> 1"
    using M le fp_of_u64_bounds(1) [of "val v"] by (simp_all add: divide_le_eq)
  then have d: "0 \<le> fp_div (fp_of_u64 (val v)) ?M" "fp_div (fp_of_u64 (val v)) ?M \<le> 1"
    using fp_round_nonneg fp_round_mono [of "fp_of_u64 (val v) / ?M" 1] by (simp_all add: fp_div_def)
  then show "0 \<le> pct u" "pct u \<le> 1"
    using fp_round_nonneg fp_round_mono [of "fp_div (fp_of_u64 (val v)) ?M" 1] v(2)
    by (simp_all add: fp_mul_def)
  show "val u = max_val g \<Longrightarrow> pct u = 1"
    using v(2) M by (simp add: fp_mul_def fp_div_def)
qed

lemma foldl_val_sum: "foldl (\<lambda>ret u. ret + val u) m g = m + (\<Sum>u\<leftarrow>g. val u)"
  by (induction g arbitrary: m) (simp_all add: add.assoc)

lemma val_sum_sum_list: "val_sum g = (\<Sum>u\<leftarrow>g. val u)"
  by (simp add: val_sum_def foldl_val_sum)

section \<open>Properties\<close>

text \<open>
  C25. A gradient that is not zero is normalised to shares between 0 and 1, computed with the
  rounding of double precision; a dimension with the largest derivative gets the share 1, and
  directions and derivatives stay as they were.
\<close>

theorem normalize_shares:
  assumes "max_val g \<noteq> 0"
  shows "map val (normalize g) = map val g \<and> map sign (normalize g) = map sign g
    \<and> (\<forall>u \<in> set (normalize g). 0 \<le> pct u \<and> pct u \<le> 1)
    \<and> (\<exists>u \<in> set (normalize g). val u = max_val g \<and> pct u = 1)"
proof (intro conjI)
  show "map val (normalize g) = map val g" by (rule map_val_normalize)
  show "map sign (normalize g) = map sign g" by (simp add: normalize_def Let_def)
  show "\<forall>u \<in> set (normalize g). 0 \<le> pct u \<and> pct u \<le> 1" using normalize_pct(1,2) [OF assms] by blast
  have "max_val g \<in> set (map val g)" using max_val_attained [OF assms] by force
  then have "max_val g \<in> val ` set (normalize g)" by (metis map_val_normalize set_map)
  then show "\<exists>u \<in> set (normalize g). val u = max_val g \<and> pct u = 1"
    using normalize_pct(3) [OF assms] by auto
qed

theorem normalize_shares_witness:
  "\<exists>u \<in> set (normalize [\<lparr>sign = True, val = 3, pct = 0\<rparr>, \<lparr>sign = False, val = 7, pct = 0\<rparr>]). val u = 7 \<and> pct u = 1"
proof -
  have "max_val [\<lparr>sign = True, val = 3, pct = 0\<rparr>, \<lparr>sign = False, val = 7, pct = 0\<rparr>] = 7"
    by (simp add: max_val_def)
  with normalize_shares [of "[\<lparr>sign = True, val = 3, pct = 0\<rparr>, \<lparr>sign = False, val = 7, pct = 0\<rparr>]"]
  show ?thesis by simp
qed

end
