(* ===== verification/Search_Task.thy ===== *)
theory Search_Task
  imports Rgd_Op Mut_Input Grad_Vec
begin

text \<open>
  The search task (\<open>fuzzer/cpp_core/task.h\<close>): constraints with their compiled function, the
  search context, and the function under test, which aggregates the constraints. Constraints
  are shared between tasks through \<open>std::shared_ptr\<close>, so they live in a store and a task holds
  their addresses. A \<open>std::unordered_map\<close> that the code iterates over is the list of its
  entries in iteration order (distinct keys), one that is only looked up is a map.
\<close>

section \<open>Data\<close>

text \<open>
  A compiled constraint takes the argument array, stores the two operands of the comparison in
  its first two slots and returns the distance; it works in place, so the model returns the
  array.
\<close>

type_synonym test_fn = "u64 list \<Rightarrow> u64 list \<times> u64"

record Cons =
  fn :: test_fn
  comparison :: kind
  local_map :: "(u32 \<times> u32) list"
  input_args :: "(bool \<times> u64) list"
  cinputs :: "u32 \<rightharpoonup> u8"
  cshape :: "u32 \<rightharpoonup> u32"
  const_num :: u32

text \<open>
  The search context. The state and the dimension are small non-negative numbers. The counter
  \<open>att\<close> of evaluations is unbounded here; the \<open>int\<close> of the source would overflow only in a single
  descent of more than \<open>2^31\<close> evaluations, since the driver stops after \<open>MAX_EXEC_TIMES\<close>.
\<close>

record 'r SContext =
  scratch_input :: "'r MutInput"
  min_input :: "'r MutInput"
  grad :: Grad
  distances :: "u64 list"
  orig_distances :: "u64 list"
  next_state :: nat
  step :: "32 word"
  f_last :: u64
  dimensionIdx :: nat
  att :: int
  solved :: bool

type_synonym solution = "u32 \<rightharpoonup> u8"

record 'r FUT =
  constraints :: "nat list"
  inputs :: "(u32 \<times> u8) list"
  shape :: "u32 \<rightharpoonup> u32"
  direction_flipped :: bool
  ctx :: "'r SContext"
  fheap :: iheap
  max_const_num :: u32
  rgd_solutions :: "solution list"
  partial_solutions :: "solution list"
  opti_solution :: solution
  scratch_args :: "u64 list"

text \<open>\<open>operator[]\<close> of a map with integral values: a missing key reads as zero.\<close>

definition um_index :: "('k \<rightharpoonup> 'v::zero) \<Rightarrow> 'k \<Rightarrow> 'v" where
  "um_index m k = (case m k of None \<Rightarrow> 0 | Some v \<Rightarrow> v)"

section \<open>The search context\<close>

text \<open>
  What the constructors take from their environment: the generator of libc, the clock and the
  contents of fresh memory.
\<close>

record 'r alloc_env =
  env_initstate :: "u32 \<Rightarrow> 'r"
  env_random :: "'r \<Rightarrow> 'r \<times> 32 word"
  env_time :: u32
  env_junk :: "nat \<Rightarrow> u64"

definition SContext_new :: "'r alloc_env \<Rightarrow> iheap \<Rightarrow> nat \<Rightarrow> nat \<Rightarrow> 'r SContext \<times> iheap" where
  "SContext_new env h len num_exprs =
     (let junk = map (env_junk env) [0..<len];
          (si, h1) = MutInput_new (env_initstate env) (env_random env) h (env_time env) junk;
          (mi, h2) = MutInput_new (env_initstate env) (env_random env) h1 (env_time env) junk
      in (\<lparr>scratch_input = si, min_input = mi, grad = Grad_new len,
           distances = replicate num_exprs 0, orig_distances = replicate num_exprs 0,
           next_state = 0, step = 1, f_last = - 1, dimensionIdx = 0, att = 0, solved = False\<rparr>, h2))"

definition SContext_destroy :: "iheap \<Rightarrow> 'r SContext \<Rightarrow> iheap option" where
  "SContext_destroy h c =
     (case MutInput_destroy h (min_input c) of None \<Rightarrow> None
      | Some h' \<Rightarrow> MutInput_destroy h' (scratch_input c))"

section \<open>Finalising a task\<close>

text \<open>The locals of \<open>FUT::finalize\<close> while it walks the constraints.\<close>

record fin =
  sym_map :: "u32 \<rightharpoonup> u32"
  fin_inputs :: "(u32 \<times> u8) list"
  fin_shape :: "u32 \<rightharpoonup> u32"

text \<open>
  The inner loop over the \<open>local_map\<close> of a constraint. An argument index outside
  \<open>input_args\<close> is undefined behaviour in the source; the list update drops it.
\<close>

definition fin_gidx :: "Cons \<Rightarrow> u32 \<Rightarrow> fin \<Rightarrow> u32 \<times> fin" where
  "fin_gidx c off s =
     (case sym_map s off of
        None \<Rightarrow>
          (let gidx = of_nat (length (fin_inputs s))
           in (gidx, s\<lparr>sym_map := (sym_map s)(off \<mapsto> gidx),
                       fin_inputs := fin_inputs s @ [(off, um_index (cinputs c) off)],
                       fin_shape := (fin_shape s)(off \<mapsto> um_index (cshape c) off)\<rparr>))
      | Some gidx \<Rightarrow> (gidx, s))"

fun fin_cons :: "Cons \<Rightarrow> (u32 \<times> u32) list \<Rightarrow> fin \<Rightarrow> (bool \<times> u64) list \<Rightarrow> fin \<times> (bool \<times> u64) list" where
  "fin_cons c [] s args = (s, args)"
| "fin_cons c ((off, a) # lm) s args =
     (let (gidx, s') = fin_gidx c off s
      in fin_cons c lm s' (args[unat a := (fst (args ! unat a), ucast gidx)]))"

fun fin_all :: "nat list \<Rightarrow> fin \<Rightarrow> (nat \<Rightarrow> Cons) \<Rightarrow> fin \<times> (nat \<Rightarrow> Cons)" where
  "fin_all [] s store = (s, store)"
| "fin_all (i # is) s store =
     (let c = store i; (s', args) = fin_cons c (local_map c) s (input_args c)
      in fin_all is s' (store(i := c\<lparr>input_args := args\<rparr>)))"

definition finalize ::
  "'r alloc_env \<Rightarrow> (nat \<Rightarrow> Cons) \<Rightarrow> 'r FUT \<Rightarrow> (nat \<Rightarrow> Cons) \<times> 'r FUT" where
  "finalize env store f =
     (let (s, store') = fin_all (constraints f)
             \<lparr>sym_map = Map.empty, fin_inputs = inputs f, fin_shape = shape f\<rparr> store;
          mcn = foldl (\<lambda>m i. if m < const_num (store' i) then const_num (store' i) else m)
                  (max_const_num f) (constraints f);
          n = length (fin_inputs s);
          (c, h) = SContext_new env (fheap f) n (length (constraints f))
      in (store', f\<lparr>inputs := fin_inputs s, shape := fin_shape s, max_const_num := mcn,
                    scratch_args := map (env_junk env) [0..<2 + n + unat mcn],
                    ctx := c, fheap := h\<rparr>))"

text \<open>The constructor \<open>FUT()\<close>; the context pointer is not initialised.\<close>

definition FUT_new :: "'r SContext \<Rightarrow> iheap \<Rightarrow> 'r FUT" where
  "FUT_new c h =
     \<lparr>constraints = [], inputs = [], shape = Map.empty, direction_flipped = False, ctx = c, fheap = h,
      max_const_num = 0, rgd_solutions = [], partial_solutions = [], opti_solution = Map.empty, scratch_args = []\<rparr>"

definition load_hint :: "solution \<Rightarrow> 'r FUT \<Rightarrow> 'r FUT" where
  "load_hint hint f =
     f\<lparr>inputs := map (\<lambda>(off, v). (off, case hint off of None \<Rightarrow> v | Some h \<Rightarrow> h)) (inputs f)\<rparr>"

definition fut_flip :: "'r FUT \<Rightarrow> 'r FUT" where
  "fut_flip f = f\<lparr>direction_flipped := (if direction_flipped f then False else True)\<rparr>"

section \<open>The index map of a task\<close>

text \<open>
  The invariant of \<open>finalize\<close>: the symbol map sends exactly the offsets collected so far to
  their position in the input vector, and no offset is collected twice.
\<close>

definition fin_ok :: "fin \<Rightarrow> bool" where
  "fin_ok s \<longleftrightarrow> distinct (map fst (fin_inputs s))
     \<and> (\<forall>off g. sym_map s off = Some g \<longrightarrow>
          unat g < length (fin_inputs s) \<and> fst (fin_inputs s ! unat g) = off)
     \<and> dom (sym_map s) = set (map fst (fin_inputs s))"

text \<open>An argument array agrees with the task's inputs on a list of local bindings.\<close>

definition args_ok :: "fin \<Rightarrow> (u32 \<times> u32) list \<Rightarrow> (bool \<times> u64) list \<Rightarrow> bool" where
  "args_ok s lm args \<longleftrightarrow>
     (\<forall>(off, a) \<in> set lm. unat (snd (args ! unat a)) < length (fin_inputs s)
        \<and> fst (fin_inputs s ! unat (snd (args ! unat a))) = off)"

definition fin_le :: "fin \<Rightarrow> fin \<Rightarrow> bool" where
  "fin_le s t \<longleftrightarrow> (\<exists>xs. fin_inputs t = fin_inputs s @ xs) \<and> sym_map s \<subseteq>\<^sub>m sym_map t"

lemma fin_le_refl [simp]: "fin_le s s"
  by (simp add: fin_le_def)

lemma fin_le_trans: "fin_le s t \<Longrightarrow> fin_le t u \<Longrightarrow> fin_le s u"
  unfolding fin_le_def using map_le_trans by (metis append.assoc)

lemma args_ok_mono: "args_ok s lm args \<Longrightarrow> fin_le s t \<Longrightarrow> args_ok t lm args"
  by (fastforce simp: args_ok_def fin_le_def nth_append)

lemma distinct_u32_length: "distinct xs \<Longrightarrow> x \<notin> set xs \<Longrightarrow> length xs < 4294967296"
  for xs :: "u32 list"
proof -
  assume "distinct xs" "x \<notin> set xs"
  then have "length xs = card (set xs)" "set xs \<subset> UNIV"
    by (auto simp: distinct_card)
  moreover have "card (UNIV :: u32 set) = 4294967296"
    by (simp add: card_word)
  ultimately show ?thesis
    using psubset_card_mono [of UNIV "set xs"] by simp
qed

lemma fin_gidx_ok:
  assumes "fin_ok s" "fin_gidx c off s = (g, t)"
  shows "fin_ok t \<and> fin_le s t \<and> sym_map t off = Some g"
proof (cases "sym_map s off")
  case (Some g')
  then show ?thesis using assms by (simp add: fin_gidx_def)
next
  case None
  let ?xs = "fin_inputs s"
  have off: "off \<notin> set (map fst ?xs)" using assms(1) None unfolding fin_ok_def by (metis domIff)
  then have "length (map fst ?xs) < 4294967296"
    using assms(1) distinct_u32_length unfolding fin_ok_def by blast
  then have "unat (of_nat (length ?xs) :: u32) = length ?xs"
    by (simp add: unat_of_nat)
  note len = this
  have t: "g = of_nat (length ?xs)" "sym_map t = (sym_map s)(off \<mapsto> g)"
    "fin_inputs t = ?xs @ [(off, um_index (cinputs c) off)]"
    using assms(2) None by (auto simp: fin_gidx_def Let_def)
  have s: "distinct (map fst ?xs)" "dom (sym_map s) = set (map fst ?xs)"
    "\<And>o' g'. sym_map s o' = Some g' \<Longrightarrow> unat g' < length ?xs \<and> fst (?xs ! unat g') = o'"
    using assms(1) by (auto simp: fin_ok_def)
  have "unat g' < length (fin_inputs t) \<and> fst (fin_inputs t ! unat g') = o'"
    if "sym_map t o' = Some g'" for o' g'
  proof (cases "o' = off")
    case True
    with that t len show ?thesis by simp
  next
    case False
    with that t have "sym_map s o' = Some g'" by simp
    from s(3) [OF this] show ?thesis by (simp add: t nth_append)
  qed
  moreover have "distinct (map fst (fin_inputs t))" "dom (sym_map t) = set (map fst (fin_inputs t))"
    using s(1,2) off by (simp_all add: t)
  moreover have "fin_le s t" using None by (auto simp: fin_le_def t map_le_def)
  ultimately show ?thesis using t by (simp add: fin_ok_def)
qed

lemma fin_cons_frame:
  assumes "fin_cons c lm s args = (t, args')"
  shows "length args' = length args \<and> map fst args' = map fst args
     \<and> (\<forall>i. i \<notin> (unat \<circ> snd) ` set lm \<longrightarrow> args' ! i = args ! i)"
  using assms
proof (induction c lm s args arbitrary: t args' rule: fin_cons.induct)
  case (2 c off a lm s args)
  obtain g u where g: "fin_gidx c off s = (g, u)" by force
  let ?a = "args[unat a := (fst (args ! unat a), ucast g)]"
  have IH: "length args' = length ?a \<and> map fst args' = map fst ?a
     \<and> (\<forall>i. i \<notin> (unat \<circ> snd) ` set lm \<longrightarrow> args' ! i = ?a ! i)"
    using "2.IH" [OF g [symmetric] refl] "2.prems" g by simp
  moreover have "map fst ?a = map fst args"
    by (metis fst_conv list_update_beyond list_update_id map_update not_le nth_map)
  ultimately show ?case by auto
qed simp

lemma fin_cons_ok:
  assumes "fin_ok s" "distinct (map snd lm)" "\<forall>(off, a) \<in> set lm. unat a < length args"
    and "fin_cons c lm s args = (t, args')"
  shows "fin_ok t \<and> fin_le s t \<and> args_ok t lm args'"
  using assms
proof (induction c lm s args arbitrary: t args' rule: fin_cons.induct)
  case (1 c s args)
  then show ?case by (simp add: args_ok_def)
next
  case (2 c off a lm s args)
  obtain g u where g: "fin_gidx c off s = (g, u)" by force
  let ?a = "args[unat a := (fst (args ! unat a), ucast g)]"
  have u: "fin_ok u" "fin_le s u" "sym_map u off = Some g"
    using fin_gidx_ok [OF "2.prems"(1) g] by auto
  have rec: "fin_cons c lm u ?a = (t, args')" using "2.prems"(4) g by simp
  have IH: "fin_ok t \<and> fin_le u t \<and> args_ok t lm args'"
    using "2.IH" [OF g [symmetric] refl u(1)] "2.prems" rec by auto
  have "unat a \<notin> (unat \<circ> snd) ` set lm"
    using "2.prems"(2) by (force simp: image_iff word_unat_eq_iff)
  then have "args' ! unat a = ?a ! unat a"
    using fin_cons_frame [OF rec] by blast
  then have "snd (args' ! unat a) = ucast g" using "2.prems"(3) by auto
  moreover have "sym_map t off = Some g"
    using IH u(3) by (auto simp: fin_le_def map_le_def) (metis domI)
  ultimately have "args_ok t [(off, a)] args'"
    using IH by (auto simp: args_ok_def fin_ok_def)
  with IH have "args_ok t ((off, a) # lm) args'" by (auto simp: args_ok_def)
  with IH u(2) fin_le_trans show ?case by blast
qed

definition cons_wf :: "Cons \<Rightarrow> bool" where
  "cons_wf c \<longleftrightarrow> distinct (map snd (local_map c))
     \<and> (\<forall>(off, a) \<in> set (local_map c). unat a < length (input_args c))"

text \<open>The argument array of a constraint before and after: only bound slots change, and no flag does.\<close>

definition args_bound :: "Cons \<Rightarrow> (bool \<times> u64) list \<Rightarrow> bool" where
  "args_bound c args \<longleftrightarrow> length args = length (input_args c) \<and> map fst args = map fst (input_args c)
     \<and> (\<forall>i. i \<notin> (unat \<circ> snd) ` set (local_map c) \<longrightarrow> args ! i = input_args c ! i)"

lemma fin_all_frame:
  assumes "fin_all is s store = (t, store')"
  shows "(j \<notin> set is \<longrightarrow> store' j = store j)
    \<and> (\<exists>args. args_bound (store j) args \<and> store' j = (store j)\<lparr>input_args := args\<rparr>)"
  using assms
proof (induction "is" s store arbitrary: t store' rule: fin_all.induct)
  case (1 s store)
  then have "store' j = (store j)\<lparr>input_args := input_args (store j)\<rparr>" by simp
  with 1 show ?case by (auto simp: args_bound_def)
next
  case (2 i "is" s store)
  obtain s' args where c: "fin_cons (store i) (local_map (store i)) s (input_args (store i)) = (s', args)"
    by force
  let ?st = "store(i := (store i)\<lparr>input_args := args\<rparr>)"
  have rec: "fin_all is s' ?st = (t, store')"
    using "2.prems" c by (simp add: Let_def)
  have IH: "(j \<notin> set is \<longrightarrow> store' j = ?st j)
    \<and> (\<exists>args. args_bound (?st j) args \<and> store' j = (?st j)\<lparr>input_args := args\<rparr>)"
    using "2.IH" [OF refl c [symmetric] refl rec] .
  with fin_cons_frame [OF c] show ?case by (auto simp: args_bound_def split: if_splits)
qed

lemma fin_all_ok:
  assumes "fin_ok s" "\<forall>i \<in> set is. cons_wf (store i)" "distinct is"
    and "fin_all is s store = (t, store')"
  shows "fin_ok t \<and> fin_le s t \<and> (\<forall>i \<in> set is. args_ok t (local_map (store i)) (input_args (store' i)))"
  using assms
proof (induction "is" s store arbitrary: t store' rule: fin_all.induct)
  case (2 i "is" s store)
  obtain s' args where c: "fin_cons (store i) (local_map (store i)) s (input_args (store i)) = (s', args)"
    by force
  let ?st = "store(i := (store i)\<lparr>input_args := args\<rparr>)"
  have rec: "fin_all is s' ?st = (t, store')"
    using "2.prems" c by (simp add: Let_def)
  have s': "fin_ok s'" "fin_le s s'" "args_ok s' (local_map (store i)) args"
    using fin_cons_ok [OF "2.prems"(1) _ _ c] "2.prems"(2) by (auto simp: cons_wf_def)
  have IH: "fin_ok t \<and> fin_le s' t \<and> (\<forall>j \<in> set is. args_ok t (local_map (?st j)) (input_args (store' j)))"
    using "2.IH" [OF refl c [symmetric] refl s'(1) _ _ rec] "2.prems"(2,3) by auto
  have "store' i = ?st i"
    using fin_all_frame [OF rec, of i] "2.prems"(3) by auto
  with IH s'(3) have "args_ok t (local_map (store i)) (input_args (store' i))"
    by (auto intro: args_ok_mono)
  moreover have "args_ok t (local_map (store j)) (input_args (store' j))" if "j \<in> set is" for j
    using IH that "2.prems"(3) by (metis distinct.simps(2) fun_upd_other)
  ultimately show ?case using IH s'(2) fin_le_trans by auto
qed simp

lemma fin_gidx_input_args [simp]: "fin_gidx (c\<lparr>input_args := x\<rparr>) off s = fin_gidx c off s"
  by (simp add: fin_gidx_def split: option.split)

lemma fin_cons_input_args [simp]: "fin_cons (c\<lparr>input_args := x\<rparr>) lm s args = fin_cons c lm s args"
proof (induction lm arbitrary: s args)
  case (Cons a lm)
  then show ?case by (cases a) (simp add: case_prod_beta Let_def)
qed simp

text \<open>Running the inner loop on its own result changes nothing.\<close>

lemma fin_cons_idem:
  assumes "distinct (map snd lm)" "fin_cons c lm s args = (t, args')"
  shows "fin_cons c lm s args' = (t, args')"
  using assms
proof (induction c lm s args arbitrary: t args' rule: fin_cons.induct)
  case (2 c off a lm s args)
  obtain g u where g: "fin_gidx c off s = (g, u)" by force
  let ?a = "args[unat a := (fst (args ! unat a), ucast g)]"
  have rec: "fin_cons c lm u ?a = (t, args')" using "2.prems"(2) g by simp
  have IH: "fin_cons c lm u args' = (t, args')"
    using "2.IH" [OF g [symmetric] refl _ rec] "2.prems"(1) by simp
  have "unat a \<notin> (unat \<circ> snd) ` set lm"
    using "2.prems"(1) by (force simp: image_iff word_unat_eq_iff)
  then have "args' ! unat a = ?a ! unat a" "length args' = length args"
    using fin_cons_frame [OF rec] by auto
  then have "args'[unat a := (fst (args' ! unat a), ucast g)] = args'"
    by (cases "unat a < length args") (auto simp: list_update_same_conv list_update_beyond)
  with g IH show ?case by simp
qed simp

definition fresh_fut :: "'r FUT \<Rightarrow> bool" where
  "fresh_fut f \<longleftrightarrow> inputs f = [] \<and> shape f = Map.empty"

definition fin_init :: fin where
  "fin_init = \<lparr>sym_map = Map.empty, fin_inputs = [], fin_shape = Map.empty\<rparr>"

lemma fin_ok_init [simp]: "fin_ok fin_init"
  by (simp add: fin_ok_def fin_init_def)

lemma finalize_parts:
  assumes "finalize env store f = (store', f')" "fresh_fut f"
  shows "\<exists>s. fin_all (constraints f) fin_init store = (s, store')
    \<and> inputs f' = fin_inputs s \<and> constraints f' = constraints f
    \<and> max_const_num f' = foldl (\<lambda>m i. if m < const_num (store' i) then const_num (store' i) else m)
                  (max_const_num f) (constraints f)
    \<and> length (scratch_args f') = 2 + length (inputs f') + unat (max_const_num f')"
proof -
  obtain s st where s: "fin_all (constraints f) fin_init store = (s, st)" by force
  obtain c h where c: "SContext_new env (fheap f) (length (fin_inputs s)) (length (constraints f)) = (c, h)"
    by force
  show ?thesis
    using assms(1) s c assms(2)
    by (auto simp: finalize_def Let_def fresh_fut_def fin_init_def)
qed

lemma finalize_rest:
  assumes "finalize env store f = (store', f')"
  shows "ctx f' = fst (SContext_new env (fheap f) (length (inputs f')) (length (constraints f)))"
    "fheap f' = snd (SContext_new env (fheap f) (length (inputs f')) (length (constraints f)))"
    "direction_flipped f' = direction_flipped f" "rgd_solutions f' = rgd_solutions f"
    "partial_solutions f' = partial_solutions f"
  using assms by (auto simp: finalize_def Let_def split: prod.splits)

lemma SContext_new_fields:
  "length (mvalue (min_input (fst (SContext_new env h n k)))) = n"
  "length (mvalue (scratch_input (fst (SContext_new env h n k)))) = n"
  "msize (min_input (fst (SContext_new env h n k))) = n" "msize (scratch_input (fst (SContext_new env h n k))) = n"
  "grad (fst (SContext_new env h n k)) = Grad_new n"
  "distances (fst (SContext_new env h n k)) = replicate k 0"
  "orig_distances (fst (SContext_new env h n k)) = replicate k 0"
  "next_state (fst (SContext_new env h n k)) = 0" "f_last (fst (SContext_new env h n k)) = - 1"
  "solved (fst (SContext_new env h n k)) = False" "att (fst (SContext_new env h n k)) = 0"
  by (simp_all add: SContext_new_def MutInput_new_def Let_def split: prod.split)

lemma foldl_max_const:
  fixes m :: "'a::linorder"
  shows "m \<le> foldl (\<lambda>m i. if m < g i then g i else m) m is
    \<and> (\<forall>i \<in> set is. g i \<le> foldl (\<lambda>m i. if m < g i then g i else m) m is)"
proof (induction "is" arbitrary: m)
  case (Cons i "is")
  show ?case using Cons.IH [of "if m < g i then g i else m"] by (auto split: if_splits)
qed simp

lemma args_ok_length:
  assumes "fin_ok s" "args_ok s lm args" "distinct (map fst lm)"
  shows "length lm \<le> length (fin_inputs s)"
proof -
  have "off \<in> set (map fst (fin_inputs s))" if "(off, a) \<in> set lm" for off a
    using assms(2) that by (fastforce simp: args_ok_def)
  then have "set (map fst lm) \<subseteq> set (map fst (fin_inputs s))" by auto
  then have "card (set (map fst lm)) \<le> card (set (map fst (fin_inputs s)))"
    by (rule card_mono [rotated]) simp
  then show ?thesis
    using assms(1,3) by (simp add: distinct_card fin_ok_def del: set_map)
qed

lemma scratch_room:
  assumes "fresh_fut f" "distinct (constraints f)"
    and "\<forall>i \<in> set (constraints f). cons_wf (store i)"
    and "finalize env store f = (store', f')"
    and "i \<in> set (constraints f)" "distinct (map fst (local_map (store i)))"
    and "length (input_args (store i)) = length (local_map (store i)) + unat (const_num (store i))"
  shows "2 + length (input_args (store' i)) \<le> length (scratch_args f')"
proof -
  from finalize_parts [OF assms(4,1)] obtain s where
    s: "fin_all (constraints f) fin_init store = (s, store')" and i: "inputs f' = fin_inputs s"
    and m: "max_const_num f' = foldl (\<lambda>m i. if m < const_num (store' i) then const_num (store' i) else m)
                  (max_const_num f) (constraints f)"
    and l: "length (scratch_args f') = 2 + length (inputs f') + unat (max_const_num f')" by blast
  have ok: "fin_ok s" "args_ok s (local_map (store i)) (input_args (store' i))"
    using fin_all_ok [OF fin_ok_init assms(3,2) s] assms(5) by blast+
  have fr: "length (input_args (store' i)) = length (input_args (store i))" "const_num (store' i) = const_num (store i)"
    using fin_all_frame [OF s, of i] by (auto simp: args_bound_def)
  have "length (local_map (store i)) \<le> length (fin_inputs s)"
    by (rule args_ok_length [OF ok assms(6)])
  moreover have "const_num (store' i) \<le> max_const_num f'"
    using foldl_max_const [of "max_const_num f" "\<lambda>i. const_num (store' i)" "constraints f"] assms(5)
    by (simp add: m)
  then have "unat (const_num (store i)) \<le> unat (max_const_num f')"
    by (simp add: word_le_nat_alt fr)
  ultimately show ?thesis
    using l fr(1) assms(7) by (simp add: i)
qed

text \<open>A task over the first constraint alone finds its arguments bound already.\<close>

lemma finalize_again:
  assumes "fresh_fut f" "constraints f = i # is" "i \<notin> set is" "cons_wf (store i)"
    and "finalize env store f = (store1, f')"
    and "fresh_fut g" "constraints g = [i]" "finalize env' store1 g = (store2, g')"
  shows "store2 = store1"
proof -
  obtain s args where c: "fin_cons (store i) (local_map (store i)) fin_init (input_args (store i)) = (s, args)"
    by force
  let ?st = "store(i := (store i)\<lparr>input_args := args\<rparr>)"
  obtain t where "fin_all is s ?st = (t, store1)"
    using finalize_parts [OF assms(5,1)] assms(2) c by (auto simp: Let_def)
  then have st1: "store1 i = (store i)\<lparr>input_args := args\<rparr>"
    using fin_all_frame assms(3) by fastforce
  have "fin_cons (store i) (local_map (store i)) fin_init args = (s, args)"
    using fin_cons_idem [OF _ c] assms(4) by (simp add: cons_wf_def)
  then show ?thesis
    using finalize_parts [OF assms(8,6)] assms(7) st1 by (auto simp: Let_def)
qed

lemma finalize_bound:
  assumes "fresh_fut f" "distinct (constraints f)"
    and "\<forall>i \<in> set (constraints f). cons_wf (store i)"
    and "finalize env store f = (store', f')"
    and "i \<in> set (constraints f)" "(off, a) \<in> set (local_map (store i))"
  shows "distinct (map fst (inputs f'))
    \<and> (let g = unat (snd (input_args (store' i) ! unat a))
       in g < length (inputs f') \<and> fst (inputs f' ! g) = off)"
proof -
  from finalize_parts [OF assms(4,1)] obtain s where
    s: "fin_all (constraints f) fin_init store = (s, store')" and i: "inputs f' = fin_inputs s" by blast
  have "fin_ok s \<and> (\<forall>i \<in> set (constraints f). args_ok s (local_map (store i)) (input_args (store' i)))"
    using fin_all_ok [OF fin_ok_init assms(3,2) s] by blast
  with assms(5,6) show ?thesis
    by (auto simp: i fin_ok_def args_ok_def Let_def)
qed

section \<open>A sample task\<close>

text \<open>One constraint, \<open>x = 5\<close> for the byte \<open>x\<close> at offset 7, whose value in the seed is 9.\<close>

definition sample_env :: "unit alloc_env" where
  "sample_env = \<lparr>env_initstate = (\<lambda>_. ()), env_random = (\<lambda>_. ((), 0)), env_time = 0, env_junk = (\<lambda>_. 0)\<rparr>"

definition sample_fn :: test_fn where
  "sample_fn args = (args[0 := args ! 2, 1 := args ! 3], 0)"

definition sample_cons :: Cons where
  "sample_cons = \<lparr>fn = sample_fn, comparison = rgd_Equal, local_map = [(7, 0)],
     input_args = [(True, 0), (False, 5)], cinputs = [7 \<mapsto> 9], cshape = [7 \<mapsto> 1], const_num = 1\<rparr>"

definition sample_fut :: "unit FUT" where
  "sample_fut = (FUT_new undefined \<lparr>blocks = (\<lambda>_. []), live = [], next_ptr = 1\<rparr>)\<lparr>constraints := [0]\<rparr>"

lemmas sample_simps =
  sample_fut_def sample_cons_def FUT_new_def fresh_fut_def cons_wf_def

section \<open>Properties\<close>

text \<open>
  C17. After \<open>finalize\<close> no offset occurs twice among the inputs of the task,
  and every symbolic argument of every constraint carries the position of its own offset in
  the input vector.
\<close>

theorem finalize_indices:
  assumes "fresh_fut f" "distinct (constraints f)"
    and "\<forall>i \<in> set (constraints f). cons_wf (store i)"
    and "finalize env store f = (store', f')"
    and "i \<in> set (constraints f)" "(off, a) \<in> set (local_map (store i))"
  shows "distinct (map fst (inputs f'))
    \<and> (let g = unat (snd (input_args (store' i) ! unat a))
       in g < length (inputs f') \<and> fst (inputs f' ! g) = off)"
  by (rule finalize_bound [OF assms])

theorem finalize_indices_witness:
  "let (store, f) = finalize sample_env (\<lambda>_. sample_cons) sample_fut
   in distinct (map fst (inputs f)) \<and>
      (let g = unat (snd (input_args (store 0) ! 0)) in g < length (inputs f) \<and> fst (inputs f ! g) = 7)"
  using finalize_indices [of sample_fut "\<lambda>_. sample_cons" sample_env
      "fst (finalize sample_env (\<lambda>_. sample_cons) sample_fut)"
      "snd (finalize sample_env (\<lambda>_. sample_cons) sample_fut)" 0 7 0]
  by (simp add: sample_simps case_prod_beta Let_def)

text \<open>
  C23. The scratch array \<open>finalize\<close> allocates has room for the two
  operand slots and all arguments of every constraint, provided the metadata of a constraint
  counts its constants correctly.
\<close>

theorem finalize_scratch_fits:
  assumes "fresh_fut f" "distinct (constraints f)"
    and "\<forall>i \<in> set (constraints f). cons_wf (store i)"
    and "finalize env store f = (store', f')"
    and "i \<in> set (constraints f)" "distinct (map fst (local_map (store i)))"
    and "length (input_args (store i)) = length (local_map (store i)) + unat (const_num (store i))"
  shows "2 + length (input_args (store' i)) \<le> length (scratch_args f')"
  by (rule scratch_room [OF assms])

theorem finalize_scratch_fits_witness:
  "let (store, f) = finalize sample_env (\<lambda>_. sample_cons) sample_fut
   in 2 + length (input_args (store 0)) \<le> length (scratch_args f)"
  using finalize_scratch_fits [of sample_fut "\<lambda>_. sample_cons" sample_env
      "fst (finalize sample_env (\<lambda>_. sample_cons) sample_fut)"
      "snd (finalize sample_env (\<lambda>_. sample_cons) sample_fut)" 0]
  by (simp add: sample_simps case_prod_beta Let_def)

text \<open>
  C24. The task for all constraints and the task for the first constraint alone
  share that constraint object. Finalising the second one after the first leaves the store,
  hence every argument index of the first task, as it was.
\<close>

theorem finalize_shared:
  assumes "fresh_fut f" "constraints f = i # is" "i \<notin> set is" "cons_wf (store i)"
    and "finalize env store f = (store1, f')"
    and "fresh_fut g" "constraints g = [i]" "finalize env' store1 g = (store2, g')"
  shows "store2 = store1"
  by (rule finalize_again [OF assms])

theorem finalize_shared_witness:
  "let (store1, f) = finalize sample_env (\<lambda>_. sample_cons) (sample_fut\<lparr>constraints := [0, 1]\<rparr>)
   in fst (finalize sample_env store1 sample_fut) = store1"
  using finalize_shared [of "sample_fut\<lparr>constraints := [0, 1]\<rparr>" 0 "[1]" "\<lambda>_. sample_cons" sample_env
      "fst (finalize sample_env (\<lambda>_. sample_cons) (sample_fut\<lparr>constraints := [0, 1]\<rparr>))"
      "snd (finalize sample_env (\<lambda>_. sample_cons) (sample_fut\<lparr>constraints := [0, 1]\<rparr>))" sample_fut sample_env]
  by (simp add: sample_simps case_prod_beta Let_def) (metis prod.collapse)

end
