(* ===== verification/Gd_Search.thy ===== *)
theory Gd_Search
  imports Search_Task "HOL-Library.Monad_Syntax"
begin

text \<open>
  The gradient-descent search of \<open>fuzzer/cpp_core/gd.cc\<close>: the distance of an input to a
  conjunction of branch constraints, numerical partial derivatives, the six phases of the
  search machine and its driver \<open>gd_search\<close>. An operation that can reach undefined behaviour
  or a failed assertion (a constraint whose operator is no comparison) returns an option.
  The constraint objects are only read during the search, so they are passed as the list \<open>cs\<close>.
\<close>

abbreviation upd_ctx :: "('r SContext \<Rightarrow> 'r SContext) \<Rightarrow> 'r FUT \<Rightarrow> 'r FUT" where
  "upd_ctx g f \<equiv> f\<lparr>ctx := g (ctx f)\<rparr>"

abbreviation upd_min :: "('r MutInput \<Rightarrow> 'r MutInput) \<Rightarrow> 'r FUT \<Rightarrow> 'r FUT" where
  "upd_min g \<equiv> upd_ctx (\<lambda>c. c\<lparr>min_input := g (min_input c)\<rparr>)"

abbreviation upd_scratch :: "('r MutInput \<Rightarrow> 'r MutInput) \<Rightarrow> 'r FUT \<Rightarrow> 'r FUT" where
  "upd_scratch g \<equiv> upd_ctx (\<lambda>c. c\<lparr>scratch_input := g (scratch_input c)\<rparr>)"

section \<open>Results\<close>

text \<open>\<open>std::map::insert\<close>: entries sorted by key, an existing key keeps its value.\<close>

fun map_insert :: "u32 \<Rightarrow> u64 \<Rightarrow> (u32 \<times> u64) list \<Rightarrow> (u32 \<times> u64) list" where
  "map_insert k v [] = [(k, v)]"
| "map_insert k v ((k', v') # xs) =
     (if k < k' then (k, v) # (k', v') # xs
      else if k = k' then (k', v') # xs
      else (k', v') # map_insert k v xs)"

definition ordered_inputs :: "(u32 \<times> u8) list \<Rightarrow> u64 list \<Rightarrow> (u32 \<times> u64) list" where
  "ordered_inputs ins vals =
     foldl (\<lambda>m i. map_insert (fst (ins ! i)) (vals ! i) m) [] [0..<length ins]"

text \<open>
  The value of a field: the sum of its cells, cell \<open>k\<close> shifted left by \<open>8 k\<close> bits. In a field of
  more than eight cells the shift is by 64 bits or more, which C++ leaves undefined; the model
  takes 0 there, and the statements about values are for fields of up to eight cells.
\<close>

definition field_value :: "u64 list \<Rightarrow> u64" where
  "field_value cells = foldl (\<lambda>res k. res + push_bit (8 * k) (cells ! k)) (cells ! 0) [1..<length cells]"

text \<open>Writing the bytes of a field back, least significant first.\<close>

fun put_bytes :: "u32 \<Rightarrow> nat \<Rightarrow> nat \<Rightarrow> u64 \<Rightarrow> solution \<Rightarrow> solution" where
  "put_bytes start j 0 res sol = sol"
| "put_bytes start j (Suc n) res sol =
     put_bytes start (Suc j) n (drop_bit 8 res) (sol(start + of_nat j \<mapsto> ucast (res AND 0xFF)))"

text \<open>
  The loop of \<open>addResults\<close> over the sorted inputs. A field that runs past the last input is
  read out of bounds by the source, which is undefined; the model takes the cells that exist,
  and the statements about values are for fields whose cells all exist.
\<close>

function emit_fields :: "(u32 \<rightharpoonup> u32) \<Rightarrow> (u32 \<times> u64) list \<Rightarrow> solution \<Rightarrow> solution" where
  "emit_fields sh [] sol = sol"
| "emit_fields sh ((start, v) # rest) sol =
     (let len = unat (um_index sh start)
      in if len \<noteq> 0
         then emit_fields sh (drop (len - 1) rest)
                (put_bytes start 0 len (field_value (v # map snd (take (len - 1) rest))) sol)
         else emit_fields sh rest sol)"
  by pat_completeness auto
termination
  by (relation "measure (\<lambda>(sh, xs, sol). length xs)") auto

definition result_of :: "'r FUT \<Rightarrow> u64 list \<Rightarrow> solution" where
  "result_of f vals = emit_fields (shape f) (ordered_inputs (inputs f) vals) Map.empty"

definition addResults :: "'r MutInput \<Rightarrow> 'r FUT \<Rightarrow> 'r FUT" where
  "addResults input f =
     (let sol = result_of f (mvalue input)
      in if length (rgd_solutions f) < 1 then f\<lparr>rgd_solutions := rgd_solutions f @ [sol]\<rparr> else f)"

definition addPartialResults :: "'r MutInput \<Rightarrow> 'r FUT \<Rightarrow> 'r FUT" where
  "addPartialResults input f =
     (let sol = foldl (\<lambda>s i. s(fst (inputs f ! i) \<mapsto> ucast (mvalue input ! i))) Map.empty [0..<length (inputs f)]
      in if length (partial_solutions f) < 50 then f\<lparr>partial_solutions := partial_solutions f @ [sol]\<rparr> else f)"

definition addOptiResults :: "'r MutInput \<Rightarrow> 'r FUT \<Rightarrow> 'r FUT" where
  "addOptiResults input f =
     f\<lparr>opti_solution := foldl (\<lambda>s i. s(fst (inputs f ! i) \<mapsto> ucast (mvalue input ! i)))
                          (opti_solution f) [0..<length (inputs f)]\<rparr>"

section \<open>Distance\<close>

text \<open>Filling the argument slots of a constraint from the input and the recorded constants.\<close>

fun load_args :: "(bool \<times> u64) list \<Rightarrow> nat \<Rightarrow> u64 list \<Rightarrow> u64 list \<Rightarrow> u64 list" where
  "load_args [] arg_idx vals args = args"
| "load_args ((symbolic, x) # as) arg_idx vals args =
     load_args as (Suc arg_idx) vals (args[2 + arg_idx := (if symbolic then vals ! unat x else x)])"

text \<open>The comparison a constraint must meet: all but the first are negated, the first on request.\<close>

definition wanted :: "bool \<Rightarrow> nat \<Rightarrow> Cons \<Rightarrow> kind option" where
  "wanted flipped i c = (if i \<noteq> 0 \<or> flipped then flip (comparison c) else Some (comparison c))"

fun dist_loop ::
  "Cons list \<Rightarrow> nat \<Rightarrow> u64 list \<Rightarrow> bool \<Rightarrow> u64 list \<Rightarrow> u64 list \<Rightarrow> u64 \<Rightarrow> (u64 list \<times> u64 list \<times> u64) option" where
  "dist_loop [] i vals flipped args dists res = Some (args, dists, res)"
| "dist_loop (c # cs) i vals flipped args dists res =
     (let (args', cur) = fn c (load_args (input_args c) 0 vals args)
      in do { k \<leftarrow> wanted flipped i c;
              dis \<leftarrow> getDistance k (args' ! 0) (args' ! 1);
              dist_loop cs (Suc i) vals flipped args' (dists[i := dis])
                (if 0 < dis then sat_inc res dis else res) })"

definition distance :: "Cons list \<Rightarrow> 'r MutInput \<Rightarrow> 'r FUT \<Rightarrow> (u64 \<times> 'r FUT) option" where
  "distance cs input f =
     (case dist_loop cs 0 (mvalue input) (direction_flipped f) (scratch_args f) (distances (ctx f)) 0 of
        None \<Rightarrow> None
      | Some (args, dists, res) \<Rightarrow>
          Some (res, upd_ctx (\<lambda>c. c\<lparr>distances := dists\<rparr>) (f\<lparr>scratch_args := args\<rparr>)))"

section \<open>Gradient\<close>

text \<open>Direction, linearity and size of a partial derivative from the three distances.\<close>

definition derive :: "u64 \<Rightarrow> u64 \<Rightarrow> u64 \<Rightarrow> bool \<times> bool \<times> u64" where
  "derive f0 f_plus f_minus =
     (if f_minus < f0
      then if f_plus < f0
           then if f_minus < f_plus then (False, False, f0 - f_minus) else (True, False, f0 - f_plus)
           else (False, f_minus \<noteq> f0 \<and> f0 - f_minus = f_plus - f0, f0 - f_minus)
      else if f_plus < f0
           then (True, f_minus \<noteq> f0 \<and> f_minus - f0 = f0 - f_plus, f0 - f_plus)
           else (True, False, 0))"

text \<open>
  A step of one in either direction along a dimension of \<open>min_input\<close>: evaluated, recorded when
  it is a solution, and taken back.
\<close>

definition probe ::
  "Cons list \<Rightarrow> nat \<Rightarrow> u64 \<Rightarrow> bool \<Rightarrow> 'r FUT \<Rightarrow> (u64 \<times> u64 list \<times> 'r FUT) option" where
  "probe cs index orig_val dir f =
     (let f1 = upd_min (\<lambda>m. mi_update (fheap f) m index dir 1) f
      in do { (d, f2) \<leftarrow> distance cs (min_input (ctx f1)) f1;
              let f3 = (if d = 0 then addResults (min_input (ctx f2)) f2 else f2);
              Some (d, distances (ctx f2), upd_min (\<lambda>m. mi_set m index orig_val) f3) })"

text \<open>
  \<open>partial_derivative\<close> on the input \<open>min_input\<close>. Its last test, \<open>if (sign)\<close>, reads the pointer
  and not the flag it points to, so the branch on the distances after the step upwards is the
  one that is always taken.
\<close>

definition partial_derivative ::
  "Cons list \<Rightarrow> nat \<Rightarrow> u64 \<Rightarrow> 'r FUT \<Rightarrow> (bool \<times> bool \<times> bool \<times> u64 \<times> 'r FUT) option" where
  "partial_derivative cs index f0 f =
     (let orig_val = mi_get (min_input (ctx f)) index
      in do { (f_plus, plus_distances, f1) \<leftarrow> probe cs index orig_val True f;
              (f_minus, minus_distances, f2) \<leftarrow> probe cs index orig_val False f1;
              let found = (f_plus = 0 \<or> f_minus = 0);
              let (sgn, lin, v) = derive f0 f_plus f_minus;
              if v \<noteq> 0 \<and> list_ex (\<lambda>i. plus_distances ! i \<noteq> 0 \<and> orig_distances (ctx f2) ! i = 0)
                            [0..<length (distances (ctx f2))]
              then Some (found, sgn, lin, 0, f2\<lparr>fheap := setDisable (fheap f2) (min_input (ctx f2)) index\<rparr>)
              else Some (found, sgn, lin, v, f2) })"

fun delta_loop :: "iheap \<Rightarrow> nat \<Rightarrow> u64 \<Rightarrow> GradUnit list \<Rightarrow> 'r MutInput \<Rightarrow> 'r MutInput" where
  "delta_loop h index st [] m = m"
| "delta_loop h index st (u # us) m =
     delta_loop h (Suc index) st us
       (mi_update h m index (sign u) (u64_of_fp (fp_mul (pct u) (fp_of_u64 st))))"

definition compute_delta_all :: "iheap \<Rightarrow> 'r MutInput \<Rightarrow> Grad \<Rightarrow> u64 \<Rightarrow> 'r MutInput" where
  "compute_delta_all h m g st = delta_loop h 0 st g m"

fun gradient_loop :: "Cons list \<Rightarrow> nat list \<Rightarrow> 'r FUT \<Rightarrow> 'r FUT option" where
  "gradient_loop cs [] f = Some f"
| "gradient_loop cs (index # is) f =
     do { (found, sgn, lin, v, f') \<leftarrow> partial_derivative cs index (f_last (ctx f)) f;
          gradient_loop cs is
            (upd_ctx (\<lambda>c. c\<lparr>solved := (if found then True else solved c),
                            grad := (grad c)[index := (grad c ! index)\<lparr>sign := sgn, val := v\<rparr>]\<rparr>) f') }"

definition cal_gradient :: "Cons list \<Rightarrow> 'r FUT \<Rightarrow> 'r FUT option" where
  "cal_gradient cs f =
     do { f1 \<leftarrow> gradient_loop cs [0..<Grad_len (grad (ctx f))] f;
          let f2 = upd_ctx (\<lambda>c. c\<lparr>att := att c + int (Grad_len (grad c))\<rparr>) f1;
          Some (if max_val (grad (ctx f2)) = 0
                then upd_ctx (\<lambda>c. c\<lparr>next_state := 5\<rparr>) f2
                else upd_ctx (\<lambda>c. c\<lparr>next_state := 2, grad := normalize (grad c)\<rparr>) f2) }"

section \<open>The phases of the search\<close>

text \<open>The guarded body of \<open>guess_descend\<close> returns the new value of its local \<open>f_last\<close>.\<close>

definition guess_move :: "Cons list \<Rightarrow> u64 \<Rightarrow> 'r FUT \<Rightarrow> (u64 \<times> 'r FUT) option" where
  "guess_move cs low f =
     (let vsum = val_sum (grad (ctx f))
      in if 0 < vsum
         then do { let f1 = upd_scratch (\<lambda>m. compute_delta_all (fheap f) m (grad (ctx f)) (low div vsum)) f;
                   (f_new, f2) \<leftarrow> distance cs (scratch_input (ctx f1)) f1;
                   let f3 = upd_ctx (\<lambda>c. c\<lparr>att := att c + 1\<rparr>) f2;
                   Some (if low \<le> f_new
                         then (low, upd_scratch (\<lambda>m. mi_copy m (min_input (ctx f3))) f3)
                         else (f_new, upd_ctx (\<lambda>c. c\<lparr>min_input := mi_copy (min_input c) (scratch_input c),
                                                     orig_distances := distances c\<rparr>) f3)) }
         else Some (low, f))"

definition guess_descend :: "Cons list \<Rightarrow> 'r FUT \<Rightarrow> 'r FUT option" where
  "guess_descend cs f =
     do { (low, f2) \<leftarrow> guess_move cs (f_last (ctx f)) (upd_scratch (\<lambda>m. mi_copy m (min_input (ctx f))) f);
          let f3 = upd_ctx (\<lambda>c. c\<lparr>f_last := low, next_state := 3\<rparr>) f2;
          Some (if low = 0
                then addResults (min_input (ctx f3)) (upd_ctx (\<lambda>c. c\<lparr>solved := True\<rparr>) f3)
                else f3) }"

text \<open>
  The loop of \<open>alldimension_descend\<close>; its local \<open>f_last\<close> is the argument \<open>low\<close>. When an input at
  distance zero is found the context keeps the previous \<open>f_last\<close>.
\<close>

function alldim_loop :: "Cons list \<Rightarrow> u64 \<Rightarrow> 'r FUT \<Rightarrow> 'r FUT option" where
  "alldim_loop cs low f =
     (let f1 = upd_scratch (\<lambda>m. compute_delta_all (fheap f) m (grad (ctx f)) (scast (step (ctx f)))) f
      in case distance cs (scratch_input (ctx f1)) f1 of
           None \<Rightarrow> None
         | Some (f_new, f2) \<Rightarrow>
             (let f3 = upd_ctx (\<lambda>c. c\<lparr>att := att c + 1\<rparr>) f2
              in if low \<le> f_new \<and> f_new \<noteq> 0
                 then Some (upd_ctx (\<lambda>c. c\<lparr>next_state := (if Grad_len (grad c) = 1 then 5 else 4),
                                           step := 1, f_last := low\<rparr>) f3)
                 else if f_new = 0
                 then Some (upd_ctx (\<lambda>c. c\<lparr>orig_distances := distances c, next_state := 3, f_last := low,
                                           min_input := mi_copy (min_input c) (scratch_input c)\<rparr>)
                        (addResults (scratch_input (ctx f3)) (upd_ctx (\<lambda>c. c\<lparr>solved := True\<rparr>) f3)))
                 else alldim_loop cs f_new
                        (upd_ctx (\<lambda>c. c\<lparr>min_input := mi_copy (min_input c) (scratch_input c),
                                        orig_distances := distances c, step := step c * 2\<rparr>) f3)))"
  by pat_completeness auto
termination
  by (relation "measure (\<lambda>(cs, low, f). unat low)") (auto simp: word_less_nat_alt not_le)

definition alldimension_descend :: "Cons list \<Rightarrow> 'r FUT \<Rightarrow> 'r FUT option" where
  "alldimension_descend cs f =
     alldim_loop cs (f_last (ctx f)) (upd_scratch (\<lambda>m. mi_copy m (min_input (ctx f))) f)"

text \<open>The inner loop of \<open>onedimension_descend\<close> along one dimension returns the new \<open>f_last\<close>.\<close>

function onedim_while :: "Cons list \<Rightarrow> nat \<Rightarrow> u64 \<Rightarrow> 'r FUT \<Rightarrow> (u64 \<times> 'r FUT) option" where
  "onedim_while cs d low f =
     (let u = grad (ctx f) ! d;
          movement = fp_mul (pct u) (fp_of_int (sint (step (ctx f))));
          f1 = upd_scratch (\<lambda>m. mi_update (fheap f) m d (sign u) (u64_of_fp movement)) f
      in case distance cs (scratch_input (ctx f1)) f1 of
           None \<Rightarrow> None
         | Some (f_new, f2) \<Rightarrow>
             (let f3 = upd_ctx (\<lambda>c. c\<lparr>att := att c + 1\<rparr>) f2
              in if low \<le> f_new \<and> f_new \<noteq> 0
                 then Some (low, upd_ctx (\<lambda>c. c\<lparr>step := 1\<rparr>) f3)
                 else if f_new = 0
                 then Some (f_new, upd_ctx (\<lambda>c. c\<lparr>next_state := 4, dimensionIdx := d, orig_distances := distances c,
                                                  min_input := mi_copy (min_input c) (scratch_input c)\<rparr>)
                        (addResults (scratch_input (ctx f3))
                           (upd_ctx (\<lambda>c. c\<lparr>solved := True, orig_distances := distances c\<rparr>) f3)))
                 else onedim_while cs d f_new
                        (upd_ctx (\<lambda>c. c\<lparr>orig_distances := distances c,
                                        min_input := mi_copy (min_input c) (scratch_input c), step := step c * 2\<rparr>) f3)))"
  by pat_completeness auto
termination
  by (relation "measure (\<lambda>(cs, d, low, f). unat low)") (auto simp: word_less_nat_alt not_le)

fun onedim_for :: "Cons list \<Rightarrow> nat list \<Rightarrow> u64 \<Rightarrow> 'r FUT \<Rightarrow> (u64 \<times> 'r FUT) option" where
  "onedim_for cs [] low f = Some (low, f)"
| "onedim_for cs (d # ds) low f =
     (if pct (grad (ctx f) ! d) < fp_round (1 / 100) then onedim_for cs ds low f
      else do { (low', f') \<leftarrow> onedim_while cs d low f; onedim_for cs ds low' f' })"

definition onedimension_descend :: "Cons list \<Rightarrow> 'r FUT \<Rightarrow> 'r FUT option" where
  "onedimension_descend cs f =
     do { (low, f1) \<leftarrow> onedim_for cs [dimensionIdx (ctx f)..<Grad_len (grad (ctx f))] (f_last (ctx f))
                         (upd_scratch (\<lambda>m. mi_copy m (min_input (ctx f))) f);
          let f2 = upd_ctx (\<lambda>c. c\<lparr>f_last := low\<rparr>) f1;
          Some (if \<not> solved (ctx f2) then upd_ctx (\<lambda>c. c\<lparr>next_state := 1, dimensionIdx := 0\<rparr>) f2 else f2) }"

text \<open>What \<open>repick_start_point\<close> and \<open>load_input\<close> do once the new start is in place.\<close>

definition restart :: "Cons list \<Rightarrow> 'r FUT \<Rightarrow> 'r FUT option" where
  "restart cs f =
     do { (d, f1) \<leftarrow> distance cs (min_input (ctx f)) f;
          let f2 = upd_ctx (\<lambda>c. c\<lparr>f_last := d, orig_distances := distances c, next_state := 1,
                                  grad := Grad_clear (grad c), att := att c + 1\<rparr>) f1;
          Some (if d = 0 then addResults (min_input (ctx f2)) (upd_ctx (\<lambda>c. c\<lparr>solved := True\<rparr>) f2) else f2) }"

definition repick_start_point :: "('r \<Rightarrow> 'r \<times> 32 word) \<Rightarrow> Cons list \<Rightarrow> 'r FUT \<Rightarrow> 'r FUT option" where
  "repick_start_point rnd cs f =
     (let f1 = upd_min (randomize rnd (fheap f)) f
      in restart cs (f1\<lparr>fheap := resetDisables (fheap f1) (min_input (ctx f1))\<rparr>))"

definition load_input :: "Cons list \<Rightarrow> 'r FUT \<Rightarrow> 'r FUT option" where
  "load_input cs f = restart cs (upd_min (mi_assign (inputs f)) f)"

section \<open>The driver\<close>

definition MAX_EXEC_TIMES :: int where
  "MAX_EXEC_TIMES = 2000"

text \<open>One turn of the \<open>switch\<close>; a state without a case leaves everything as it is.\<close>

definition gd_step :: "('r \<Rightarrow> 'r \<times> 32 word) \<Rightarrow> Cons list \<Rightarrow> 'r FUT \<Rightarrow> 'r FUT option" where
  "gd_step rnd cs f =
     (let s = next_state (ctx f)
      in if s = 0 then load_input cs f
         else if s = 1 then cal_gradient cs f
         else if s = 2 then guess_descend cs f
         else if s = 3 then alldimension_descend cs f
         else if s = 4 then onedimension_descend cs f
         else if s = 5 then repick_start_point rnd cs f
         else Some f)"

text \<open>The loop of \<open>gd_search\<close>, which only its own tests end.\<close>

partial_function (option) gd_search ::
  "('r \<Rightarrow> 'r \<times> 32 word) \<Rightarrow> Cons list \<Rightarrow> 'r FUT \<Rightarrow> (bool \<times> 'r FUT) option" where
  "gd_search rnd cs f =
     (case gd_step rnd cs f of
        None \<Rightarrow> None
      | Some f' \<Rightarrow>
          if solved (ctx f') then Some (True, upd_ctx (\<lambda>c. c\<lparr>solved := False, att := 0\<rparr>) f')
          else if MAX_EXEC_TIMES < att (ctx f') then Some (False, upd_ctx (\<lambda>c. c\<lparr>att := 0\<rparr>) f')
          else gd_search rnd cs f')"

declare alldim_loop.simps [simp del] onedim_while.simps [simp del]

end
