(* ===== verification/Gd_Distance.thy ===== *)
theory Gd_Distance
  imports Gd_Search
begin

text \<open>
  What \<open>distance\<close> computes. A compiled constraint is used through a contract: the operands it
  stores depend on its own argument slots only. Under this contract the distance of an input
  is the saturated sum of the gaps of its constraints, and it is zero exactly for the inputs
  that satisfy them.
\<close>

section \<open>The contract of a compiled constraint\<close>

text \<open>Argument slots that hold the recorded constants.\<close>

definition slots_fit :: "(bool \<times> u64) list \<Rightarrow> u64 list \<Rightarrow> bool" where
  "slots_fit ia slots \<longleftrightarrow> length slots = length ia \<and> (\<forall>i < length ia. fst (ia ! i) \<or> slots ! i = snd (ia ! i))"

definition fn_ok :: "(bool \<times> u64) list \<Rightarrow> test_fn \<Rightarrow> bool" where
  "fn_ok ia g \<longleftrightarrow>
     (\<forall>args args'. 2 + length ia \<le> length args \<longrightarrow> 2 + length ia \<le> length args' \<longrightarrow>
        slots_fit ia (take (length ia) (drop 2 args)) \<longrightarrow>
        take (length ia) (drop 2 args) = take (length ia) (drop 2 args') \<longrightarrow>
        length (fst (g args)) = length args \<and>
        fst (g args) ! 0 = fst (g args') ! 0 \<and> fst (g args) ! 1 = fst (g args') ! 1)"

definition arg_vals :: "Cons \<Rightarrow> u64 list \<Rightarrow> u64 list" where
  "arg_vals c vals = map (\<lambda>(b, x). if b then vals ! unat x else x) (input_args c)"

definition operands :: "Cons \<Rightarrow> u64 list \<Rightarrow> u64 \<times> u64" where
  "operands c vals = (let s = fst (fn c (0 # 0 # arg_vals c vals)) in (s ! 0, s ! 1))"

text \<open>A constraint is met when its comparison has the wanted truth value.\<close>

definition meets :: "bool \<Rightarrow> nat \<Rightarrow> Cons \<Rightarrow> u64 list \<Rightarrow> bool" where
  "meets flipped i c vals \<longleftrightarrow>
     (let (a, b) = operands c vals in rel_holds (comparison c) a b \<longleftrightarrow> i = 0 \<and> \<not> flipped)"

definition satisfies :: "bool \<Rightarrow> Cons list \<Rightarrow> u64 list \<Rightarrow> bool" where
  "satisfies flipped cs vals \<longleftrightarrow> (\<forall>i < length cs. meets flipped i (cs ! i) vals)"

definition gap :: "bool \<Rightarrow> nat \<Rightarrow> Cons \<Rightarrow> u64 list \<Rightarrow> int" where
  "gap flipped i c vals =
     (let (a, b) = operands c vals
      in case wanted flipped i c of None \<Rightarrow> 0 | Some k \<Rightarrow> rel_gap k a b)"

text \<open>The constraints of a task and the array they share.\<close>

definition cons_ok :: "nat \<Rightarrow> Cons \<Rightarrow> bool" where
  "cons_ok m c \<longleftrightarrow> relational (comparison c) \<and> fn_ok (input_args c) (fn c) \<and> 2 + length (input_args c) \<le> m"

section \<open>Lemmas\<close>

lemma length_load_args [simp]: "length (load_args as k vals args) = length args"
  by (induction as k vals args rule: load_args.induct) simp_all

lemma nth_load_args:
  assumes "2 + k + length as \<le> length args" "j < length args"
  shows "load_args as k vals args ! j =
    (if 2 + k \<le> j \<and> j < 2 + k + length as
     then (let (b, x) = as ! (j - 2 - k) in if b then vals ! unat x else x) else args ! j)"
  using assms
proof (induction as k vals args rule: load_args.induct)
  case (2 b x as k vals args)
  then show ?case by (auto simp: nth_Cons' nth_list_update Let_def)
qed auto

lemma load_args_slots:
  assumes "2 + length (input_args c) \<le> length args"
  shows "take (length (input_args c)) (drop 2 (load_args (input_args c) 0 vals args)) = arg_vals c vals"
  using assms by (intro nth_equalityI) (auto simp: nth_load_args arg_vals_def)

lemma arg_vals_fit: "slots_fit (input_args c) (arg_vals c vals)"
  by (auto simp: slots_fit_def arg_vals_def case_prod_beta)

lemma operands_load_args:
  fixes vals :: "u64 list"
  assumes "cons_ok (length args) c"
  defines "l \<equiv> load_args (input_args c) 0 vals args"
  shows "operands c vals = (fst (fn c l) ! 0, fst (fn c l) ! 1) \<and> length (fst (fn c l)) = length args"
proof -
  let ?n = "length (input_args c)" and ?v = "0 # 0 # arg_vals c vals"
  from assms(1) have ok: "fn_ok (input_args c) (fn c)" and fits: "2 + ?n \<le> length args"
    by (simp_all add: cons_ok_def)
  have l: "take ?n (drop 2 l) = arg_vals c vals" "length l = length args"
    unfolding l_def using load_args_slots [OF fits] by simp_all
  have v: "take ?n (drop 2 ?v) = arg_vals c vals" "length ?v = 2 + ?n"
    by (simp_all add: arg_vals_def)
  have "length (fst (fn c l)) = length l \<and> fst (fn c l) ! 0 = fst (fn c ?v) ! 0 \<and> fst (fn c l) ! 1 = fst (fn c ?v) ! 1"
    using ok fits l v arg_vals_fit [of c vals] unfolding fn_ok_def by (metis le_refl)
  with l(2) show ?thesis by (simp add: operands_def Let_def)
qed

lemma wanted_relational:
  "relational (comparison c) \<Longrightarrow> \<exists>k. wanted fl i c = Some k \<and> relational k
     \<and> (\<forall>a b. rel_holds k a b \<longleftrightarrow> (rel_holds (comparison c) a b \<longleftrightarrow> i = 0 \<and> \<not> fl))"
  unfolding wanted_def
  by (cases "i \<noteq> 0 \<or> fl") (auto simp: flip_relational [symmetric] dest: flip_negates flip_flip)

lemma sat_inc_0 [simp]: "sat_inc r 0 = r"
  by (simp add: sat_inc_def)

lemma gap_nonneg: "0 \<le> gap fl i c vals"
  by (simp add: gap_def case_prod_beta rel_gap_nonneg split: option.split)

text \<open>One turn of the loop.\<close>

lemma dist_loop_Cons:
  assumes "cons_ok (length args) c"
  obtains args1 d where "length args1 = length args"
    "\<And>cs dists res. dist_loop (c # cs) i vals fl args dists res =
       dist_loop cs (Suc i) vals fl args1 (dists[i := d]) (sat_inc res d)"
    "uint d = min (2 ^ 64 - 1) (gap fl i c vals)" "d = 0 \<longleftrightarrow> meets fl i c vals"
proof -
  obtain args1 cur where g: "fn c (load_args (input_args c) 0 vals args) = (args1, cur)" by fastforce
  have len: "length args1 = length args" and ops: "operands c vals = (args1 ! 0, args1 ! 1)"
    using operands_load_args [OF assms, of vals] g by simp_all
  obtain k where k: "wanted fl i c = Some k" "relational k"
    and kh: "\<forall>a b. rel_holds k a b \<longleftrightarrow> (rel_holds (comparison c) a b \<longleftrightarrow> i = 0 \<and> \<not> fl)"
    using wanted_relational assms unfolding cons_ok_def by blast
  obtain d where d: "getDistance k (args1 ! 0) (args1 ! 1) = Some d"
    using k(2) getDistance_relational by blast
  show thesis
  proof (rule that [OF len])
    show "dist_loop (c # cs) i vals fl args dists res =
       dist_loop cs (Suc i) vals fl args1 (dists[i := d]) (sat_inc res d)" for cs dists res
      using g k(1) d by (simp add: word_gt_0)
    show "uint d = min (2 ^ 64 - 1) (gap fl i c vals)"
      using getDistance_gap [OF d] k by (simp add: gap_def ops)
    show "d = 0 \<longleftrightarrow> meets fl i c vals"
      using getDistance_zero_iff [OF d] kh by (simp add: meets_def ops)
  qed
qed

lemma min_saturate:
  "0 \<le> (a :: int) \<Longrightarrow> 0 \<le> g \<Longrightarrow> 0 \<le> s \<Longrightarrow> min m (min m (a + min m g) + s) = min m (a + (g + s))"
  by (simp add: min_def)

lemma dist_loop_spec:
  assumes "\<forall>c \<in> set cs. cons_ok (length args) c" "length dists = i + length cs"
  shows "\<exists>args' ds res'.
    dist_loop cs i vals fl args dists res = Some (args', take i dists @ ds, res')
    \<and> length args' = length args \<and> length ds = length cs
    \<and> (\<forall>j < length cs. uint (ds ! j) = min (2 ^ 64 - 1) (gap fl (i + j) (cs ! j) vals)
                      \<and> (ds ! j = 0 \<longleftrightarrow> meets fl (i + j) (cs ! j) vals))
    \<and> uint res' = min (2 ^ 64 - 1) (uint res + (\<Sum>j < length cs. gap fl (i + j) (cs ! j) vals))"
  using assms
proof (induction cs arbitrary: i args dists res)
  case Nil
  have "uint res \<le> 18446744073709551615" using uint_lt_u64 [of res] by linarith
  with Nil show ?case by (simp add: min_def)
next
  case (Cons c cs)
  from Cons.prems have "cons_ok (length args) c" by simp
  then obtain args1 d where len: "length args1 = length args"
    and step: "\<And>cs dists res. dist_loop (c # cs) i vals fl args dists res =
       dist_loop cs (Suc i) vals fl args1 (dists[i := d]) (sat_inc res d)"
    and ud: "uint d = min (2 ^ 64 - 1) (gap fl i c vals)" and zd: "d = 0 \<longleftrightarrow> meets fl i c vals"
    by (rule dist_loop_Cons [where fl = fl and vals = vals and i = i]) blast
  from Cons.prems len have "\<forall>c \<in> set cs. cons_ok (length args1) c" "length (dists[i := d]) = Suc i + length cs"
    by simp_all
  from Cons.IH [OF this, of "sat_inc res d"] obtain args' ds res' where
    ih: "dist_loop cs (Suc i) vals fl args1 (dists[i := d]) (sat_inc res d) =
           Some (args', take (Suc i) (dists[i := d]) @ ds, res')"
      "length args' = length args1" "length ds = length cs"
      "\<forall>j < length cs. uint (ds ! j) = min (2 ^ 64 - 1) (gap fl (Suc i + j) (cs ! j) vals)
                      \<and> (ds ! j = 0 \<longleftrightarrow> meets fl (Suc i + j) (cs ! j) vals)"
      "uint res' = min (2 ^ 64 - 1) (uint (sat_inc res d) + (\<Sum>j < length cs. gap fl (Suc i + j) (cs ! j) vals))"
    by blast
  let ?g = "\<lambda>j. gap fl (i + j) ((c # cs) ! j) vals"
  have "0 \<le> (\<Sum>j < length cs. gap fl (Suc i + j) (cs ! j) vals)" by (simp add: gap_nonneg sum_nonneg)
  then have sum: "uint res' = min (2 ^ 64 - 1) (uint res + (\<Sum>j < length (c # cs). ?g j))"
    using ih(5) gap_nonneg [of fl i c vals] uint_ge_0 [of res]
    by (simp add: uint_sat_inc ud sum.lessThan_Suc_shift min_saturate del: sum.lessThan_Suc)
  have dists: "take (Suc i) (dists[i := d]) @ ds = take i dists @ (d # ds)"
    using Cons.prems(2) by (simp add: take_Suc_conv_app_nth)
  have "\<forall>j < length (c # cs). uint ((d # ds) ! j) = min (2 ^ 64 - 1) (?g j)
                      \<and> ((d # ds) ! j = 0 \<longleftrightarrow> meets fl (i + j) ((c # cs) ! j) vals)"
    using ih(4) ud zd by (auto simp: nth_Cons' less_Suc_eq_0_disj)
  with sum dists ih(1-3) len step show ?case
    by (intro exI [of _ args'] exI [of _ "d # ds"] exI [of _ res']) simp
qed

text \<open>The distance of an input as a number, and its meaning.\<close>

definition total_gap :: "bool \<Rightarrow> Cons list \<Rightarrow> u64 list \<Rightarrow> int" where
  "total_gap fl cs vals = min (2 ^ 64 - 1) (\<Sum>j < length cs. gap fl j (cs ! j) vals)"

lemma gap_zero_iff:
  assumes "relational (comparison c)"
  shows "gap fl i c vals = 0 \<longleftrightarrow> meets fl i c vals"
  using wanted_relational [OF assms, of fl i]
  by (auto simp: gap_def meets_def case_prod_beta rel_gap_zero_iff)

lemma total_gap_zero_iff:
  assumes "\<forall>c \<in> set cs. relational (comparison c)"
  shows "total_gap fl cs vals = 0 \<longleftrightarrow> satisfies fl cs vals"
proof -
  let ?S = "\<Sum>j < length cs. gap fl j (cs ! j) vals"
  have "0 \<le> ?S" by (simp add: gap_nonneg sum_nonneg)
  then have "total_gap fl cs vals = 0 \<longleftrightarrow> ?S = 0"
    unfolding total_gap_def by (auto simp: min_def)
  also have "\<dots> \<longleftrightarrow> (\<forall>j < length cs. gap fl j (cs ! j) vals = 0)"
    by (subst sum_nonneg_eq_0_iff) (auto simp: gap_nonneg)
  finally show ?thesis using assms by (simp add: satisfies_def gap_zero_iff)
qed

lemma distance_spec:
  assumes "\<forall>c \<in> set cs. cons_ok (length (scratch_args f)) c" "length (distances (ctx f)) = length cs"
  obtains d args ds where
    "distance cs m f = Some (d, upd_ctx (\<lambda>c. c\<lparr>distances := ds\<rparr>) (f\<lparr>scratch_args := args\<rparr>))"
    "length args = length (scratch_args f)" "length ds = length cs"
    "uint d = total_gap (direction_flipped f) cs (mvalue m)"
    "d = 0 \<longleftrightarrow> satisfies (direction_flipped f) cs (mvalue m)"
    "\<forall>j < length cs. ds ! j = 0 \<longleftrightarrow> meets (direction_flipped f) j (cs ! j) (mvalue m)"
proof -
  have len: "length (distances (ctx f)) = 0 + length cs" using assms(2) by simp
  obtain args ds d where
    dl: "dist_loop cs 0 (mvalue m) (direction_flipped f) (scratch_args f) (distances (ctx f)) 0 = Some (args, ds, d)"
    and l: "length args = length (scratch_args f)" "length ds = length cs"
    and z: "\<forall>j < length cs. ds ! j = 0 \<longleftrightarrow> meets (direction_flipped f) j (cs ! j) (mvalue m)"
    and u: "uint d = total_gap (direction_flipped f) cs (mvalue m)"
    using dist_loop_spec [OF assms(1) len, of "mvalue m" "direction_flipped f" 0]
    by (auto simp: total_gap_def)
  have "d = 0 \<longleftrightarrow> satisfies (direction_flipped f) cs (mvalue m)"
    using total_gap_zero_iff [of cs "direction_flipped f" "mvalue m"] u assms(1)
    by (auto simp: cons_ok_def word_uint_eq_iff)
  moreover have "distance cs m f = Some (d, upd_ctx (\<lambda>c. c\<lparr>distances := ds\<rparr>) (f\<lparr>scratch_args := args\<rparr>))"
    using dl by (simp add: distance_def)
  ultimately show thesis using that l z u by blast
qed

section \<open>Properties\<close>

text \<open>
  C3. When the compiled constraints keep their contract, \<open>distance\<close> always returns, its result
  is the sum of the gaps of all constraints cut off at \<open>2^64 - 1\<close>, and the result is zero
  exactly when the input meets every constraint in the wanted direction.
\<close>

theorem distance_meaning:
  assumes "\<forall>c \<in> set cs. cons_ok (length (scratch_args f)) c" "length (distances (ctx f)) = length cs"
  shows "\<exists>d f'. distance cs m f = Some (d, f')
    \<and> uint d = min (2 ^ 64 - 1) (\<Sum>j < length cs. gap (direction_flipped f) j (cs ! j) (mvalue m))
    \<and> (d = 0 \<longleftrightarrow> satisfies (direction_flipped f) cs (mvalue m))
    \<and> (\<forall>j < length cs. distances (ctx f') ! j = 0 \<longleftrightarrow> meets (direction_flipped f) j (cs ! j) (mvalue m))"
  by (rule distance_spec [OF assms, of m]) (auto simp: total_gap_def)

lemma sample_fn_ok: "length ia = 2 \<Longrightarrow> fn_ok ia sample_fn"
proof -
  assume n: "length ia = 2"
  have t: "take 2 (drop 2 xs) ! 0 = xs ! 2" "take 2 (drop 2 xs) ! 1 = xs ! 3" if "4 \<le> length xs" for xs :: "u64 list"
    using that by simp_all
  have eq: "args ! 2 = args' ! 2 \<and> args ! 3 = args' ! 3"
    if "4 \<le> length args" "4 \<le> length args'" "take 2 (drop 2 args) = take 2 (drop 2 args')" for args args' :: "u64 list"
    using t [OF that(1)] t [OF that(2)] that(3) by metis
  have ops: "fst (sample_fn args) ! 0 = args ! 2 \<and> fst (sample_fn args) ! 1 = args ! 3"
    if "4 \<le> length args" for args
  proof -
    from that have "0 < length args" "1 < length args" by linarith+
    then show ?thesis by (simp add: sample_fn_def)
  qed
  show ?thesis
  proof (unfold fn_ok_def n, intro conjI allI impI)
    show "length (fst (sample_fn args)) = length args" for args by (simp add: sample_fn_def)
  next
    fix args args' :: "u64 list"
    assume l: "2 + 2 \<le> length args" "2 + 2 \<le> length args'" and t: "take 2 (drop 2 args) = take 2 (drop 2 args')"
    from l have l4: "4 \<le> length args" "4 \<le> length args'" by simp_all
    show "fst (sample_fn args) ! 0 = fst (sample_fn args') ! 0" "fst (sample_fn args) ! 1 = fst (sample_fn args') ! 1"
      using eq [OF l4 t] ops [OF l4(1)] ops [OF l4(2)] by metis+
  qed
qed

lemma sample_cons_ok: "4 \<le> n \<Longrightarrow> cons_ok n sample_cons"
  using sample_fn_ok by (simp add: cons_ok_def sample_cons_def relational_def numeral_2_eq_2)

definition sample_state :: "unit FUT" where
  "sample_state = snd (finalize sample_env (\<lambda>_. sample_cons) sample_fut)"

lemma sample_state_sizes:
  "length (scratch_args sample_state) = 4" "length (distances (ctx sample_state)) = 1"
  "direction_flipped sample_state = False"
proof -
  obtain store' where fin: "finalize sample_env (\<lambda>_. sample_cons) sample_fut = (store', sample_state)"
    by (metis sample_state_def prod.collapse)
  show "length (scratch_args sample_state) = 4"
    by (simp add: sample_state_def finalize_def sample_simps fin_gidx_def Let_def case_prod_beta)
  show "length (distances (ctx sample_state)) = 1" "direction_flipped sample_state = False"
    using finalize_rest [OF fin] by (simp_all add: SContext_new_fields sample_fut_def FUT_new_def)
qed

theorem distance_meaning_witness:
  "\<exists>d f'. distance [sample_cons] (min_input (ctx sample_state)) sample_state = Some (d, f')
     \<and> (d = 0 \<longleftrightarrow> satisfies False [sample_cons] (mvalue (min_input (ctx sample_state))))"
  using distance_meaning [of "[sample_cons]" sample_state "min_input (ctx sample_state)"]
  by (auto simp: sample_state_sizes sample_cons_ok)

end
