(* ===== verification/Gd_Sound.thy ===== *)
theory Gd_Sound
  imports Gd_Distance
begin

text \<open>
  Correctness of the search: its invariant, that every phase keeps it, that the search always
  returns, and that what it returns comes from an input which meets every constraint.
\<close>

section \<open>The invariant\<close>

text \<open>The search works on \<open>f\<close>, a later state of the task \<open>g\<close>: same inputs, arrays of the same size, the
partial solutions as they were.\<close>

definition same_task :: "'r FUT \<Rightarrow> 'r FUT \<Rightarrow> bool" where
  "same_task g f \<longleftrightarrow> inputs f = inputs g \<and> shape f = shape g \<and> direction_flipped f = direction_flipped g
     \<and> length (scratch_args f) = length (scratch_args g) \<and> partial_solutions f = partial_solutions g"

definition task_ok :: "Cons list \<Rightarrow> 'r FUT \<Rightarrow> 'r FUT \<Rightarrow> bool" where
  "task_ok cs g f \<longleftrightarrow>
     (\<forall>c \<in> set cs. cons_ok (length (scratch_args g)) c) \<and>
     length (distances (ctx f)) = length cs \<and> length (orig_distances (ctx f)) = length cs \<and>
     msize (min_input (ctx f)) = length (inputs g) \<and> length (mvalue (min_input (ctx f))) = length (inputs g) \<and>
     msize (scratch_input (ctx f)) = length (inputs g) \<and> length (mvalue (scratch_input (ctx f))) = length (inputs g) \<and>
     length (grad (ctx f)) = length (inputs g)"

text \<open>Every solution recorded since \<open>g\<close> is the image of an input that meets the constraints.\<close>

definition sols_ok :: "Cons list \<Rightarrow> 'r FUT \<Rightarrow> 'r FUT \<Rightarrow> bool" where
  "sols_ok cs g f \<longleftrightarrow> (\<forall>s \<in> set (rgd_solutions f). s \<in> set (rgd_solutions g) \<or>
     (\<exists>vals. length vals = length (inputs g) \<and> satisfies (direction_flipped g) cs vals \<and> s = result_of g vals))"

definition gd_base :: "Cons list \<Rightarrow> 'r FUT \<Rightarrow> 'r FUT \<Rightarrow> bool" where
  "gd_base cs g f \<longleftrightarrow> task_ok cs g f \<and> same_task g f \<and> sols_ok cs g f \<and> (solved (ctx f) \<longrightarrow> rgd_solutions f \<noteq> [])"

text \<open>
  \<open>f_last\<close> is zero only if the current best input meets the constraints, and as long as the
  search has not succeeded it is the distance of that input.
\<close>

definition last_ok :: "Cons list \<Rightarrow> 'r FUT \<Rightarrow> bool" where
  "last_ok cs f \<longleftrightarrow>
     (f_last (ctx f) = 0 \<longrightarrow> satisfies (direction_flipped f) cs (mvalue (min_input (ctx f))))"

definition exact :: "Cons list \<Rightarrow> 'r FUT \<Rightarrow> bool" where
  "exact cs f \<longleftrightarrow> (next_state (ctx f) \<noteq> 0 \<longrightarrow> \<not> solved (ctx f) \<longrightarrow>
     uint (f_last (ctx f)) = total_gap (direction_flipped f) cs (mvalue (min_input (ctx f))))"

definition gd_inv :: "Cons list \<Rightarrow> 'r FUT \<Rightarrow> 'r FUT \<Rightarrow> bool" where
  "gd_inv cs g f \<longleftrightarrow> gd_base cs g f \<and> last_ok cs f"

lemmas gd_defs = gd_base_def task_ok_def same_task_def

section \<open>Evaluating and recording\<close>

lemma gd_base_distance:
  assumes "gd_base cs g f"
  obtains d f' where "distance cs m f = Some (d, f')" "gd_base cs g f'"
    "\<exists>args ds. f' = upd_ctx (\<lambda>c. c\<lparr>distances := ds\<rparr>) (f\<lparr>scratch_args := args\<rparr>)"
    "uint d = total_gap (direction_flipped f) cs (mvalue m)"
    "d = 0 \<longleftrightarrow> satisfies (direction_flipped f) cs (mvalue m)"
proof -
  from assms have "\<forall>c \<in> set cs. cons_ok (length (scratch_args f)) c" "length (distances (ctx f)) = length cs"
    by (auto simp: gd_defs)
  then obtain d args ds where
    "distance cs m f = Some (d, upd_ctx (\<lambda>c. c\<lparr>distances := ds\<rparr>) (f\<lparr>scratch_args := args\<rparr>))"
    "length args = length (scratch_args f)" "length ds = length cs"
    "uint d = total_gap (direction_flipped f) cs (mvalue m)"
    "d = 0 \<longleftrightarrow> satisfies (direction_flipped f) cs (mvalue m)"
    by (rule distance_spec)
  moreover from this assms have
    "gd_base cs g (upd_ctx (\<lambda>c. c\<lparr>distances := ds\<rparr>) (f\<lparr>scratch_args := args\<rparr>))"
    by (auto simp: gd_defs sols_ok_def)
  ultimately show thesis using that by blast
qed

lemma addResults_frame [simp]:
  "ctx (addResults m f) = ctx f" "inputs (addResults m f) = inputs f" "shape (addResults m f) = shape f"
  "direction_flipped (addResults m f) = direction_flipped f" "scratch_args (addResults m f) = scratch_args f"
  "fheap (addResults m f) = fheap f" "rgd_solutions (addResults m f) \<noteq> []"
  "partial_solutions (addResults m f) = partial_solutions f"
  by (auto simp: addResults_def Let_def)

lemma result_of_same: "same_task g f \<Longrightarrow> result_of f vals = result_of g vals"
  by (simp add: result_of_def same_task_def)

lemma gd_base_addResults:
  assumes "gd_base cs g f" "satisfies (direction_flipped g) cs (mvalue m)" "length (mvalue m) = length (inputs g)"
  shows "gd_base cs g (addResults m f)"
    "gd_base cs g (addResults m (upd_ctx (\<lambda>c. c\<lparr>solved := True\<rparr>) f))"
proof -
  have r: "result_of f (mvalue m) = result_of g (mvalue m)"
    "result_of (upd_ctx (\<lambda>c. c\<lparr>solved := True\<rparr>) f) (mvalue m) = result_of g (mvalue m)"
    using assms(1) by (simp_all add: gd_base_def result_of_same) (simp add: result_of_def same_task_def)
  with assms have "sols_ok cs g (addResults m f)"
    "sols_ok cs g (addResults m (upd_ctx (\<lambda>c. c\<lparr>solved := True\<rparr>) f))"
    by (auto simp: sols_ok_def addResults_def Let_def gd_base_def)
  with assms(1) show "gd_base cs g (addResults m f)"
    "gd_base cs g (addResults m (upd_ctx (\<lambda>c. c\<lparr>solved := True\<rparr>) f))"
    by (simp_all add: gd_defs)
qed

lemma gd_base_values:
  assumes "gd_base cs g f"
  shows "length (mvalue (min_input (ctx f))) = length (inputs g)" "msize (min_input (ctx f)) = length (inputs g)"
    "length (mvalue (scratch_input (ctx f))) = length (inputs g)" "msize (scratch_input (ctx f)) = length (inputs g)"
    "length (grad (ctx f)) = length (inputs g)" "direction_flipped f = direction_flipped g"
    "inputs f = inputs g"
  using assms by (simp_all add: gd_defs)

lemma delta_loop_frame [simp]:
  "msize (delta_loop h i st us m) = msize m" "length (mvalue (delta_loop h i st us m)) = length (mvalue m)"
  by (induction h i st us m rule: delta_loop.induct) simp_all

lemma compute_delta_all_frame [simp]:
  "msize (compute_delta_all h m g st) = msize m"
  "length (mvalue (compute_delta_all h m g st)) = length (mvalue m)"
  by (simp_all add: compute_delta_all_def)

lemma mi_assign_frame [simp]:
  "msize (mi_assign xs m) = msize m" "length (mvalue (mi_assign xs m)) = msize m"
  by (simp_all add: mi_assign_def)

section \<open>Starting points\<close>

lemma restart_ok:
  assumes "gd_base cs g f"
  obtains f' where "restart cs f = Some f'" "gd_inv cs g f'" "exact cs f'"
    "next_state (ctx f') = 1" "att (ctx f') = att (ctx f) + 1"
proof -
  from assms obtain d f1 args ds where dist: "distance cs (min_input (ctx f)) f = Some (d, f1)" "gd_base cs g f1"
    and f1: "f1 = upd_ctx (\<lambda>c. c\<lparr>distances := ds\<rparr>) (f\<lparr>scratch_args := args\<rparr>)"
    and d: "uint d = total_gap (direction_flipped f) cs (mvalue (min_input (ctx f)))"
      "d = 0 \<longleftrightarrow> satisfies (direction_flipped f) cs (mvalue (min_input (ctx f)))"
    by (rule gd_base_distance [where m = "min_input (ctx f)"]) blast
  define f2 where "f2 = upd_ctx (\<lambda>c. c\<lparr>f_last := d, orig_distances := distances c, next_state := 1,
                                  grad := Grad_clear (grad c), att := att c + 1\<rparr>) f1"
  define f3 where "f3 = (if d = 0 then addResults (min_input (ctx f2)) (upd_ctx (\<lambda>c. c\<lparr>solved := True\<rparr>) f2) else f2)"
  have "restart cs f = Some f3"
    using dist by (simp add: restart_def f2_def f3_def)
  moreover have b2: "gd_base cs g f2"
    using dist(2) by (simp add: f2_def gd_defs sols_ok_def)
  moreover have f2: "min_input (ctx f2) = min_input (ctx f)" "direction_flipped f2 = direction_flipped f"
    by (simp_all add: f2_def f1)
  moreover note gv = gd_base_values [OF assms]
  moreover have "gd_base cs g f3"
    using b2 d(2) gd_base_addResults [OF b2, of "min_input (ctx f)"] by (simp add: f3_def f2 gv)
  moreover have "ctx f3 = (if d = 0 then (ctx f2)\<lparr>solved := True\<rparr> else ctx f2)" "direction_flipped f3 = direction_flipped f"
    by (simp_all add: f3_def f2)
  moreover have "f_last (ctx f2) = d" "next_state (ctx f2) = 1" "att (ctx f2) = att (ctx f) + 1"
    by (simp_all add: f2_def f1)
  ultimately show thesis
    using that [of f3] d by (simp add: gd_inv_def last_ok_def exact_def)
qed

lemma gd_base_upd_min:
  assumes "gd_base cs g f" "msize m = length (inputs g)" "length (mvalue m) = length (inputs g)"
  shows "gd_base cs g (upd_min (\<lambda>_. m) f)"
  using assms by (simp add: gd_defs sols_ok_def)

lemma gd_base_upd_scratch:
  assumes "gd_base cs g f" "msize m = length (inputs g)" "length (mvalue m) = length (inputs g)"
  shows "gd_base cs g (upd_scratch (\<lambda>_. m) f)"
  using assms by (simp add: gd_defs sols_ok_def)

lemma load_input_ok:
  assumes "gd_base cs g f"
  obtains f' where "load_input cs f = Some f'" "gd_inv cs g f'" "exact cs f'"
    "next_state (ctx f') = 1" "att (ctx f') = att (ctx f) + 1"
proof -
  have "gd_base cs g (upd_min (mi_assign (inputs f)) f)"
    using gd_base_upd_min [OF assms] by (simp add: gd_base_values [OF assms])
  from restart_ok [OF this] show thesis using that by (auto simp: load_input_def)
qed

lemma repick_start_point_ok:
  assumes "gd_base cs g f"
  obtains f' where "repick_start_point rnd cs f = Some f'" "gd_inv cs g f'" "exact cs f'"
    "next_state (ctx f') = 1" "att (ctx f') = att (ctx f) + 1"
proof -
  have b: "gd_base cs g (upd_min (randomize rnd (fheap f)) f)"
    using gd_base_upd_min [OF assms] by (simp add: gd_base_values [OF assms])
  have "gd_base cs g (upd_min (randomize rnd (fheap f)) f\<lparr>fheap := h\<rparr>)" for h
    using b by (simp add: gd_defs sols_ok_def)
  from restart_ok [OF this] show thesis
    using that by (auto simp: repick_start_point_def Let_def)
qed

section \<open>The gradient\<close>

text \<open>What a partial derivative leaves alone.\<close>

definition pd_frame :: "'r FUT \<Rightarrow> 'r FUT \<Rightarrow> bool" where
  "pd_frame f f' \<longleftrightarrow>
     mvalue (min_input (ctx f')) = mvalue (min_input (ctx f)) \<and> f_last (ctx f') = f_last (ctx f) \<and>
     next_state (ctx f') = next_state (ctx f) \<and> att (ctx f') = att (ctx f) \<and> solved (ctx f') = solved (ctx f) \<and>
     step (ctx f') = step (ctx f) \<and> orig_distances (ctx f') = orig_distances (ctx f)
     \<and> (rgd_solutions f \<noteq> [] \<longrightarrow> rgd_solutions f' \<noteq> [])"

lemma pd_frame_trans: "pd_frame f f1 \<Longrightarrow> pd_frame f1 f2 \<Longrightarrow> pd_frame f f2"
  by (simp add: pd_frame_def)

lemma probe_ok:
  assumes "gd_base cs g f"
  obtains d ds f' where "probe cs index (mvalue (min_input (ctx f)) ! index) dir f = Some (d, ds, f')"
    "gd_base cs g f'" "pd_frame f f'" "d = 0 \<Longrightarrow> rgd_solutions f' \<noteq> []"
proof -
  note gv = gd_base_values [OF assms]
  define m where "m = mi_update (fheap f) (min_input (ctx f)) index dir 1"
  have m: "msize m = length (inputs g)" "length (mvalue m) = length (inputs g)"
    by (simp_all add: m_def gv)
  obtain d f2 args ds where d: "distance cs m (upd_min (\<lambda>_. m) f) = Some (d, f2)" and b2: "gd_base cs g f2"
    and f2: "f2 = upd_ctx (\<lambda>c. c\<lparr>distances := ds\<rparr>) (upd_min (\<lambda>_. m) f\<lparr>scratch_args := args\<rparr>)"
    and z: "d = 0 \<longleftrightarrow> satisfies (direction_flipped g) cs (mvalue m)"
    by (rule gd_base_distance [OF gd_base_upd_min [OF assms m], where m = m]) (auto simp: gv)
  define f3 where "f3 = (if d = 0 then addResults m f2 else f2)"
  define m' where "m' = mi_set m index (mvalue (min_input (ctx f)) ! index)"
  have b3: "gd_base cs g f3" "ctx f3 = ctx f2" "d = 0 \<Longrightarrow> rgd_solutions f3 \<noteq> []"
    using b2 gd_base_addResults(1) [OF b2 _ m(2)] z by (simp_all add: f3_def)
  have m': "mvalue m' = mvalue (min_input (ctx f))" "msize m' = length (inputs g)"
    using mi_set_update [of "fheap f" "min_input (ctx f)" index dir 1]
    by (simp_all add: m'_def m_def mi_get_def gv)
  have "gd_base cs g (upd_min (\<lambda>_. m') f3)"
    using gd_base_upd_min [OF b3(1) m'(2)] m'(1) gv by simp
  moreover have "pd_frame f (upd_min (\<lambda>_. m') f3)"
    by (simp add: pd_frame_def b3 m' f2) (simp add: f3_def f2)
  moreover have "probe cs index (mvalue (min_input (ctx f)) ! index) dir f = Some (d, ds, upd_min (\<lambda>_. m') f3)"
    using d by (simp add: probe_def Let_def m_def [symmetric] f2 m'_def f3_def)
  ultimately show thesis using that b3(3) by simp
qed

lemma partial_derivative_ok:
  assumes "gd_base cs g f"
  obtains found sgn lin v f' where "partial_derivative cs index f0 f = Some (found, sgn, lin, v, f')"
    "gd_base cs g f'" "pd_frame f f'" "found \<Longrightarrow> rgd_solutions f' \<noteq> []"
proof -
  let ?v = "mvalue (min_input (ctx f)) ! index"
  obtain dp dsp f1 where p: "probe cs index ?v True f = Some (dp, dsp, f1)"
    "gd_base cs g f1" "pd_frame f f1" "dp = 0 \<Longrightarrow> rgd_solutions f1 \<noteq> []"
    using probe_ok [OF assms] by blast
  then have v1: "mvalue (min_input (ctx f1)) ! index = ?v" by (simp add: pd_frame_def)
  obtain dm dsm f2 where m: "probe cs index ?v False f1 = Some (dm, dsm, f2)"
    "gd_base cs g f2" "pd_frame f1 f2" "dm = 0 \<Longrightarrow> rgd_solutions f2 \<noteq> []"
    using probe_ok [OF p(2), of index False] v1 by metis
  obtain sgn lin v where der: "derive f0 dp dm = (sgn, lin, v)" by (metis prod_cases3)
  have sol: "dp = 0 \<or> dm = 0 \<Longrightarrow> rgd_solutions f2 \<noteq> []"
    using p(4) m(3,4) by (auto simp: pd_frame_def)
  have fr: "pd_frame f f2" by (rule pd_frame_trans [OF p(3) m(3)])
  have heap: "gd_base cs g (f2\<lparr>fheap := h\<rparr>)" "pd_frame f (f2\<lparr>fheap := h\<rparr>)" for h
    using m(2) fr by (simp_all add: gd_defs sols_ok_def pd_frame_def)
  show thesis
    using p(1) m(1) der that m(2) fr heap sol
    by (cases "v \<noteq> 0 \<and> list_ex (\<lambda>i. dsp ! i \<noteq> 0 \<and> orig_distances (ctx f2) ! i = 0) [0..<length (distances (ctx f2))]")
      (force simp: partial_derivative_def Let_def mi_get_def)+
qed

lemma gradient_loop_ok:
  assumes "gd_base cs g f"
  shows "\<exists>f'. gradient_loop cs is f = Some f' \<and> gd_base cs g f'
     \<and> mvalue (min_input (ctx f')) = mvalue (min_input (ctx f)) \<and> f_last (ctx f') = f_last (ctx f)
     \<and> next_state (ctx f') = next_state (ctx f) \<and> att (ctx f') = att (ctx f) \<and> (solved (ctx f) \<longrightarrow> solved (ctx f'))"
  using assms
proof (induction "is" arbitrary: f)
  case (Cons i "is")
  obtain found sgn lin v f1 where pd: "partial_derivative cs i (f_last (ctx f)) f = Some (found, sgn, lin, v, f1)"
    "gd_base cs g f1" "pd_frame f f1" "found \<Longrightarrow> rgd_solutions f1 \<noteq> []"
    using partial_derivative_ok [OF Cons.prems] by blast
  let ?f2 = "upd_ctx (\<lambda>c. c\<lparr>solved := (if found then True else solved c),
                            grad := (grad c)[i := (grad c ! i)\<lparr>sign := sgn, val := v\<rparr>]\<rparr>) f1"
  have "gd_base cs g ?f2" using pd(2,4) by (auto simp: gd_defs sols_ok_def)
  from Cons.IH [OF this] pd(1,3) show ?case by (auto simp: pd_frame_def)
qed simp

lemma cal_gradient_ok:
  assumes "gd_inv cs g f"
  obtains f' where "cal_gradient cs f = Some f'" "gd_inv cs g f'" "att (ctx f) \<le> att (ctx f')"
    "next_state (ctx f') \<in> {2, 5}" "f_last (ctx f') = f_last (ctx f)"
    "exact cs f \<Longrightarrow> next_state (ctx f) \<noteq> 0 \<Longrightarrow> exact cs f'"
proof -
  from assms have b: "gd_base cs g f" by (simp add: gd_inv_def)
  obtain f1 where f1: "gradient_loop cs [0..<Grad_len (grad (ctx f))] f = Some f1" "gd_base cs g f1"
    "mvalue (min_input (ctx f1)) = mvalue (min_input (ctx f))" "f_last (ctx f1) = f_last (ctx f)"
    "next_state (ctx f1) = next_state (ctx f)" "att (ctx f1) = att (ctx f)" "solved (ctx f) \<longrightarrow> solved (ctx f1)"
    using gradient_loop_ok [OF b] by blast
  define f2 where "f2 = upd_ctx (\<lambda>c. c\<lparr>att := att c + int (Grad_len (grad c))\<rparr>) f1"
  define f3 where "f3 = (if max_val (grad (ctx f2)) = 0 then upd_ctx (\<lambda>c. c\<lparr>next_state := 5\<rparr>) f2
                         else upd_ctx (\<lambda>c. c\<lparr>next_state := 2, grad := normalize (grad c)\<rparr>) f2)"
  have run: "cal_gradient cs f = Some f3"
    using f1(1) by (simp add: cal_gradient_def f2_def f3_def)
  have b3: "gd_base cs g f3"
    using f1(2) by (auto simp: f3_def f2_def gd_defs sols_ok_def)
  have "direction_flipped f3 = direction_flipped f"
    using gd_base_values(6) [OF b] gd_base_values(6) [OF b3] by simp
  moreover have "mvalue (min_input (ctx f3)) = mvalue (min_input (ctx f))" "f_last (ctx f3) = f_last (ctx f)"
    "solved (ctx f) \<longrightarrow> solved (ctx f3)" "att (ctx f) \<le> att (ctx f3)" "next_state (ctx f3) \<in> {2, 5}"
    using f1(3-7) by (simp_all add: f3_def f2_def)
  ultimately show thesis
    using that [OF run] b3 assms by (auto simp: gd_inv_def last_ok_def exact_def)
qed

section \<open>Descending\<close>

text \<open>Evaluating \<open>scratch_input\<close>, which then becomes the best input or not.\<close>

lemma try_scratch:
  assumes "gd_base cs g f" "msize m = length (inputs g)" "length (mvalue m) = length (inputs g)"
  obtains d f' where "distance cs m (upd_scratch (\<lambda>_. m) f) = Some (d, f')" "gd_base cs g f'"
    "\<exists>args ds. f' = upd_ctx (\<lambda>c. c\<lparr>scratch_input := m, distances := ds\<rparr>) (f\<lparr>scratch_args := args\<rparr>)"
    "uint d = total_gap (direction_flipped g) cs (mvalue m)"
    "d = 0 \<longleftrightarrow> satisfies (direction_flipped g) cs (mvalue m)"
proof (rule gd_base_distance [OF gd_base_upd_scratch [OF assms], where m = m])
  fix d f'
  assume "distance cs m (upd_scratch (\<lambda>_. m) f) = Some (d, f')" "gd_base cs g f'"
    "\<exists>args ds. f' = upd_ctx (\<lambda>c. c\<lparr>distances := ds\<rparr>) (upd_scratch (\<lambda>_. m) f\<lparr>scratch_args := args\<rparr>)"
    "uint d = total_gap (direction_flipped (upd_scratch (\<lambda>_. m) f)) cs (mvalue m)"
    "(d = 0) = satisfies (direction_flipped (upd_scratch (\<lambda>_. m) f)) cs (mvalue m)"
  then show thesis
    using that [of d f'] gd_base_values(6) [OF assms(1)] by auto
qed

lemma gd_base_accept:
  assumes "gd_base cs g f"
  shows "gd_base cs g (upd_ctx (\<lambda>c. c\<lparr>min_input := mi_copy (min_input c) (scratch_input c), orig_distances := distances c\<rparr>) f)"
    "mvalue (mi_copy (min_input (ctx f)) (scratch_input (ctx f))) = mvalue (scratch_input (ctx f))"
    "mvalue (mi_copy (scratch_input (ctx f)) (min_input (ctx f))) = mvalue (min_input (ctx f))"
  using assms by (simp_all add: gd_defs sols_ok_def mi_copy_value)

lemma alldim_loop_ok:
  assumes "gd_base cs g f" "low = 0 \<longrightarrow> satisfies (direction_flipped g) cs (mvalue (min_input (ctx f)))"
  shows "\<exists>f'. alldim_loop cs low f = Some f' \<and> gd_inv cs g f' \<and> att (ctx f) < att (ctx f')
     \<and> next_state (ctx f') \<in> {3, 4, 5} \<and> (next_state (ctx f') = 3 \<longrightarrow> solved (ctx f')) \<and> f_last (ctx f') \<le> low
     \<and> (uint low = total_gap (direction_flipped g) cs (mvalue (min_input (ctx f))) \<longrightarrow> exact cs f')"
  using assms
proof (induction "unat low" arbitrary: low f rule: less_induct)
  case less
  note b = less.prems(1)
  note gv = gd_base_values [OF b]
  define m where "m = compute_delta_all (fheap f) (scratch_input (ctx f)) (grad (ctx f)) (scast (step (ctx f)))"
  have m: "msize m = length (inputs g)" "length (mvalue m) = length (inputs g)"
    by (simp_all add: m_def gv)
  obtain d f2 args ds where dist: "distance cs m (upd_scratch (\<lambda>_. m) f) = Some (d, f2)"
    and b2: "gd_base cs g f2"
    and f2: "f2 = upd_ctx (\<lambda>c. c\<lparr>scratch_input := m, distances := ds\<rparr>) (f\<lparr>scratch_args := args\<rparr>)"
    and d: "uint d = total_gap (direction_flipped g) cs (mvalue m)"
      "d = 0 \<longleftrightarrow> satisfies (direction_flipped g) cs (mvalue m)"
    by (rule try_scratch [OF b m]) blast
  define f3 where "f3 = upd_ctx (\<lambda>c. c\<lparr>att := att c + 1\<rparr>) f2"
  have b3: "gd_base cs g f3" using b2 by (simp add: f3_def gd_defs sols_ok_def)
  have c3: "scratch_input (ctx f3) = m" "min_input (ctx f3) = min_input (ctx f)" "att (ctx f3) = att (ctx f) + 1"
    by (simp_all add: f3_def f2)
  have s2: "scratch_input (ctx f2) = m" by (simp add: f2)
  note acc = gd_base_accept [OF b3]
  consider (stop) "low \<le> d" "d \<noteq> 0" | (found) "d = 0" | (go) "d < low" "d \<noteq> 0" by fastforce
  then show ?case
  proof cases
    case stop
    let ?f4 = "upd_ctx (\<lambda>c. c\<lparr>next_state := (if Grad_len (grad c) = 1 then 5 else 4), step := 1, f_last := low\<rparr>) f3"
    have "alldim_loop cs low f = Some ?f4"
      using dist stop by (simp add: alldim_loop.simps [of cs low f] Let_def m_def [symmetric] f3_def)
    moreover have "gd_base cs g ?f4" using b3 by (simp add: gd_defs sols_ok_def)
    ultimately show ?thesis
      using less.prems(2) gd_base_values [OF b3] by (auto simp: gd_inv_def last_ok_def exact_def c3)
  next
    case found
    let ?f4 = "addResults m (upd_ctx (\<lambda>c. c\<lparr>solved := True\<rparr>) f3)"
    let ?f5 = "upd_ctx (\<lambda>c. c\<lparr>orig_distances := distances c, next_state := 3, f_last := low,
                             min_input := mi_copy (min_input c) (scratch_input c)\<rparr>) ?f4"
    have b4: "gd_base cs g ?f4"
      using gd_base_addResults(2) [OF b3 _ m(2)] d found by simp
    have "alldim_loop cs low f = Some ?f5"
      using dist found
      by (simp add: alldim_loop.simps [of cs low f] Let_def m_def [symmetric] f3_def s2)
    moreover have "gd_base cs g ?f5"
      using gd_base_accept(1) [OF b4] by (simp add: gd_defs sols_ok_def)
    ultimately show ?thesis
      using d found acc gd_base_values [OF b3] by (auto simp: gd_inv_def last_ok_def exact_def c3)
  next
    case go
    let ?f4 = "upd_ctx (\<lambda>c. c\<lparr>min_input := mi_copy (min_input c) (scratch_input c),
                             orig_distances := distances c, step := step c * 2\<rparr>) f3"
    have run: "alldim_loop cs low f = alldim_loop cs d ?f4"
      using dist go(2) not_le [THEN iffD2, OF go(1)]
      by (subst alldim_loop.simps) (simp add: Let_def m_def [symmetric] f3_def s2)
    have "gd_base cs g ?f4" using acc(1) by (simp add: gd_defs sols_ok_def)
    moreover have "unat d < unat low" using go by (simp add: word_less_nat_alt)
    ultimately obtain f' where "alldim_loop cs d ?f4 = Some f'" "gd_inv cs g f'" "att (ctx f3) < att (ctx f')"
      "next_state (ctx f') \<in> {3, 4, 5}" "next_state (ctx f') = 3 \<longrightarrow> solved (ctx f')" "f_last (ctx f') \<le> d"
      "uint d = total_gap (direction_flipped g) cs (mvalue m) \<longrightarrow> exact cs f'"
      using less.hyps [of d ?f4] go acc(2) c3 by auto
    with run d c3 go show ?thesis by auto
  qed
qed

lemma gd_base_copy_scratch:
  assumes "gd_base cs g f"
  shows "gd_base cs g (upd_scratch (\<lambda>m. mi_copy m (min_input (ctx f))) f)"
  using gd_base_upd_scratch [OF assms] gd_base_accept(3) [OF assms] by (simp add: gd_base_values [OF assms])

lemma alldimension_descend_ok:
  assumes "gd_inv cs g f"
  obtains f' where "alldimension_descend cs f = Some f'" "gd_inv cs g f'" "att (ctx f) < att (ctx f')"
    "next_state (ctx f') \<in> {3, 4, 5}" "next_state (ctx f') = 3 \<longrightarrow> solved (ctx f')"
    "f_last (ctx f') \<le> f_last (ctx f)"
    "exact cs f \<Longrightarrow> next_state (ctx f) \<noteq> 0 \<Longrightarrow> \<not> solved (ctx f) \<Longrightarrow> exact cs f'"
proof -
  from assms have b: "gd_base cs g f" by (simp add: gd_inv_def)
  have "f_last (ctx f) = 0 \<longrightarrow> satisfies (direction_flipped g) cs (mvalue (min_input (ctx f)))"
    using assms gd_base_values [OF b] by (simp add: gd_inv_def last_ok_def)
  with alldim_loop_ok [OF gd_base_copy_scratch [OF b], of "f_last (ctx f)"] obtain f' where
    "alldimension_descend cs f = Some f'" "gd_inv cs g f'" "att (ctx f) < att (ctx f')"
    "next_state (ctx f') \<in> {3, 4, 5}" "next_state (ctx f') = 3 \<longrightarrow> solved (ctx f')"
    "f_last (ctx f') \<le> f_last (ctx f)"
    "uint (f_last (ctx f)) = total_gap (direction_flipped g) cs (mvalue (min_input (ctx f))) \<longrightarrow> exact cs f'"
    by (auto simp: alldimension_descend_def)
  then show thesis using that gd_base_values(6) [OF b] by (simp add: exact_def)
qed

text \<open>What a line search hands on: the best input so far, its distance, and the count of evaluations.\<close>

definition descends :: "Cons list \<Rightarrow> 'r FUT \<Rightarrow> u64 \<Rightarrow> 'r FUT \<Rightarrow> u64 \<Rightarrow> 'r FUT \<Rightarrow> bool" where
  "descends cs g low f low' f' \<longleftrightarrow> gd_base cs g f' \<and> low' \<le> low \<and> att (ctx f) \<le> att (ctx f') \<and>
     (low' = 0 \<longrightarrow> satisfies (direction_flipped g) cs (mvalue (min_input (ctx f')))) \<and>
     (uint low = total_gap (direction_flipped g) cs (mvalue (min_input (ctx f))) \<longrightarrow>
      uint low' = total_gap (direction_flipped g) cs (mvalue (min_input (ctx f')))) \<and>
     (solved (ctx f) \<longrightarrow> solved (ctx f'))"

lemma descends_trans:
  "descends cs g low f low1 f1 \<Longrightarrow> descends cs g low1 f1 low2 f2 \<Longrightarrow> descends cs g low f low2 f2"
  by (auto simp: descends_def)

lemma guess_move_ok:
  assumes b: "gd_base cs g f" and l: "low = 0 \<longrightarrow> satisfies (direction_flipped g) cs (mvalue (min_input (ctx f)))"
  obtains low' f' where "guess_move cs low f = Some (low', f')" "descends cs g low f low' f'"
proof (cases "0 < val_sum (grad (ctx f))")
  case False
  show thesis
    by (rule that [of low f]) (use False l b in \<open>simp_all add: guess_move_def descends_def\<close>)
next
  case True
  note gv = gd_base_values [OF b]
  define m where "m = compute_delta_all (fheap f) (scratch_input (ctx f)) (grad (ctx f)) (low div val_sum (grad (ctx f)))"
  have m: "msize m = length (inputs g)" "length (mvalue m) = length (inputs g)" by (simp_all add: m_def gv)
  obtain d f2 args ds where dist: "distance cs m (upd_scratch (\<lambda>_. m) f) = Some (d, f2)" and b2: "gd_base cs g f2"
    and f2: "f2 = upd_ctx (\<lambda>c. c\<lparr>scratch_input := m, distances := ds\<rparr>) (f\<lparr>scratch_args := args\<rparr>)"
    and d: "uint d = total_gap (direction_flipped g) cs (mvalue m)"
      "d = 0 \<longleftrightarrow> satisfies (direction_flipped g) cs (mvalue m)"
    by (rule try_scratch [OF b m]) blast
  define f3 where "f3 = upd_ctx (\<lambda>c. c\<lparr>att := att c + 1\<rparr>) f2"
  have b3: "gd_base cs g f3" using b2 by (simp add: f3_def gd_defs sols_ok_def)
  have f3: "min_input (ctx f3) = min_input (ctx f)" "scratch_input (ctx f3) = m" "att (ctx f3) = att (ctx f) + 1"
    "solved (ctx f3) = solved (ctx f)"
    by (simp_all add: f3_def f2)
  note acc = gd_base_accept [OF b3]
  have run: "guess_move cs low f = Some (if low \<le> d then (low, upd_scratch (\<lambda>m. mi_copy m (min_input (ctx f3))) f3)
      else (d, upd_ctx (\<lambda>c. c\<lparr>min_input := mi_copy (min_input c) (scratch_input c), orig_distances := distances c\<rparr>) f3))"
    using True dist by (simp add: guess_move_def Let_def m_def [symmetric] f3_def)
  show thesis
    using that run l d acc gd_base_copy_scratch [OF b3]
    by (cases "low \<le> d") (auto simp: descends_def f3)
qed

lemma guess_descend_ok:
  assumes "gd_inv cs g f"
  obtains f' where "guess_descend cs f = Some f'" "gd_inv cs g f'" "att (ctx f) \<le> att (ctx f')"
    "next_state (ctx f') = 3" "f_last (ctx f') \<le> f_last (ctx f)"
    "exact cs f \<Longrightarrow> next_state (ctx f) \<noteq> 0 \<Longrightarrow> \<not> solved (ctx f) \<Longrightarrow> exact cs f'"
proof -
  from assms have b: "gd_base cs g f" by (simp add: gd_inv_def)
  let ?f1 = "upd_scratch (\<lambda>m. mi_copy m (min_input (ctx f))) f"
  have "f_last (ctx f) = 0 \<longrightarrow> satisfies (direction_flipped g) cs (mvalue (min_input (ctx ?f1)))"
    using assms gd_base_values [OF b] by (simp add: gd_inv_def last_ok_def)
  then obtain low f2 where move: "guess_move cs (f_last (ctx f)) ?f1 = Some (low, f2)"
    and de: "descends cs g (f_last (ctx f)) ?f1 low f2"
    by (rule guess_move_ok [OF gd_base_copy_scratch [OF b]])
  define f3 where "f3 = upd_ctx (\<lambda>c. c\<lparr>f_last := low, next_state := 3\<rparr>) f2"
  define f4 where "f4 = (if low = 0 then addResults (min_input (ctx f3)) (upd_ctx (\<lambda>c. c\<lparr>solved := True\<rparr>) f3) else f3)"
  have run: "guess_descend cs f = Some f4"
    using move by (simp add: guess_descend_def f3_def f4_def)
  have b3: "gd_base cs g f3" using de by (simp add: f3_def descends_def gd_defs sols_ok_def)
  have s3: "low = 0 \<Longrightarrow> satisfies (direction_flipped g) cs (mvalue (min_input (ctx f3)))"
    using de by (simp add: f3_def descends_def)
  have "gd_base cs g f4"
    using gd_base_addResults(2) [OF b3 s3] gd_base_values [OF b3] b3 by (simp add: f4_def)
  moreover have "ctx f4 = (if low = 0 then (ctx f3)\<lparr>solved := True\<rparr> else ctx f3)" by (simp add: f4_def)
  ultimately show thesis
    using that [OF run] de s3 gd_base_values [OF b] gd_base_values [OF b3]
    by (auto simp: gd_inv_def last_ok_def exact_def f3_def descends_def gd_base_values)
qed

lemma onedim_while_ok:
  assumes "gd_base cs g f" "low = 0 \<longrightarrow> satisfies (direction_flipped g) cs (mvalue (min_input (ctx f)))"
  shows "\<exists>low' f'. onedim_while cs k low f = Some (low', f') \<and> descends cs g low f low' f'"
  using assms
proof (induction "unat low" arbitrary: low f rule: less_induct)
  case less
  note b = less.prems(1)
  note gv = gd_base_values [OF b]
  define m where "m = mi_update (fheap f) (scratch_input (ctx f)) k (sign (grad (ctx f) ! k))
      (u64_of_fp (fp_mul (pct (grad (ctx f) ! k)) (fp_of_int (sint (step (ctx f))))))"
  have m: "msize m = length (inputs g)" "length (mvalue m) = length (inputs g)" by (simp_all add: m_def gv)
  obtain d f2 args ds where dist: "distance cs m (upd_scratch (\<lambda>_. m) f) = Some (d, f2)" and b2: "gd_base cs g f2"
    and f2: "f2 = upd_ctx (\<lambda>c. c\<lparr>scratch_input := m, distances := ds\<rparr>) (f\<lparr>scratch_args := args\<rparr>)"
    and d: "uint d = total_gap (direction_flipped g) cs (mvalue m)"
      "d = 0 \<longleftrightarrow> satisfies (direction_flipped g) cs (mvalue m)"
    by (rule try_scratch [OF b m]) blast
  define f3 where "f3 = upd_ctx (\<lambda>c. c\<lparr>att := att c + 1\<rparr>) f2"
  have b3: "gd_base cs g f3" using b2 by (simp add: f3_def gd_defs sols_ok_def)
  have c3: "scratch_input (ctx f3) = m" "min_input (ctx f3) = min_input (ctx f)" "att (ctx f3) = att (ctx f) + 1"
    "solved (ctx f3) = solved (ctx f)"
    by (simp_all add: f3_def f2)
  have s2: "scratch_input (ctx f2) = m" by (simp add: f2)
  note acc = gd_base_accept [OF b3]
  note unfold = onedim_while.simps [of cs k low f] Let_def m_def [symmetric] f3_def s2
  consider (stop) "low \<le> d" "d \<noteq> 0" | (found) "d = 0" | (go) "d < low" "d \<noteq> 0" by fastforce
  then show ?case
  proof cases
    case stop
    let ?f4 = "upd_ctx (\<lambda>c. c\<lparr>step := 1\<rparr>) f3"
    have "onedim_while cs k low f = Some (low, ?f4)" using dist stop by (simp add: unfold)
    moreover have "gd_base cs g ?f4" using b3 by (simp add: gd_defs sols_ok_def)
    ultimately show ?thesis using less.prems(2) by (auto simp: descends_def c3)
  next
    case found
    let ?f4 = "addResults m (upd_ctx (\<lambda>c. c\<lparr>solved := True, orig_distances := distances c\<rparr>) f3)"
    let ?f5 = "upd_ctx (\<lambda>c. c\<lparr>next_state := 4, dimensionIdx := k, orig_distances := distances c,
                             min_input := mi_copy (min_input c) (scratch_input c)\<rparr>) ?f4"
    have "onedim_while cs k low f = Some (0, ?f5)" using dist found by (simp add: unfold)
    moreover have "gd_base cs g ?f4"
      using gd_base_addResults(2) [of cs g "upd_ctx (\<lambda>c. c\<lparr>orig_distances := distances c\<rparr>) f3", OF _ _ m(2)] b3 d found
      by (simp add: gd_defs sols_ok_def addResults_def Let_def result_of_def)
    then have "gd_base cs g ?f5"
      using gd_base_accept(1) [of cs g ?f4] by (simp add: gd_defs sols_ok_def)
    ultimately show ?thesis using d found acc by (auto simp: descends_def c3)
  next
    case go
    let ?f4 = "upd_ctx (\<lambda>c. c\<lparr>orig_distances := distances c,
                             min_input := mi_copy (min_input c) (scratch_input c), step := step c * 2\<rparr>) f3"
    have run: "onedim_while cs k low f = onedim_while cs k d ?f4"
      using dist go(2) not_le [THEN iffD2, OF go(1)] by (simp add: unfold)
    have "gd_base cs g ?f4" using acc(1) by (simp add: gd_defs sols_ok_def)
    then have "descends cs g low f d ?f4" using go d acc by (auto simp: descends_def c3)
    moreover have "unat d < unat low" using go by (simp add: word_less_nat_alt)
    then obtain low' f' where "onedim_while cs k d ?f4 = Some (low', f')" "descends cs g d ?f4 low' f'"
      using less.hyps [of d ?f4] go(2) \<open>gd_base cs g ?f4\<close> by auto
    ultimately show ?thesis using run descends_trans by metis
  qed
qed

lemma onedim_for_ok:
  assumes "gd_base cs g f" "low = 0 \<longrightarrow> satisfies (direction_flipped g) cs (mvalue (min_input (ctx f)))"
  shows "\<exists>low' f'. onedim_for cs ks low f = Some (low', f') \<and> descends cs g low f low' f'"
  using assms
proof (induction ks arbitrary: low f)
  case Nil
  then show ?case by (simp add: descends_def)
next
  case (Cons k ks)
  show ?case
  proof (cases "pct (grad (ctx f) ! k) < fp_round (1 / 100)")
    case True
    then show ?thesis using Cons by simp
  next
    case False
    obtain low1 f1 where w: "onedim_while cs k low f = Some (low1, f1)" "descends cs g low f low1 f1"
      using onedim_while_ok [OF Cons.prems] by blast
    then obtain low2 f2 where "onedim_for cs ks low1 f1 = Some (low2, f2)" "descends cs g low1 f1 low2 f2"
      using Cons.IH [of f1 low1] by (auto simp: descends_def)
    with w False show ?thesis using descends_trans by fastforce
  qed
qed

lemma onedimension_descend_ok:
  assumes "gd_inv cs g f"
  obtains f' where "onedimension_descend cs f = Some f'" "gd_inv cs g f'" "att (ctx f) \<le> att (ctx f')"
    "solved (ctx f') \<or> next_state (ctx f') = 1" "f_last (ctx f') \<le> f_last (ctx f)"
    "exact cs f \<Longrightarrow> next_state (ctx f) \<noteq> 0 \<Longrightarrow> \<not> solved (ctx f) \<Longrightarrow> exact cs f'"
proof -
  from assms have b: "gd_base cs g f" by (simp add: gd_inv_def)
  let ?f1 = "upd_scratch (\<lambda>m. mi_copy m (min_input (ctx f))) f"
  let ?ks = "[dimensionIdx (ctx f)..<Grad_len (grad (ctx f))]"
  have "f_last (ctx f) = 0 \<longrightarrow> satisfies (direction_flipped g) cs (mvalue (min_input (ctx ?f1)))"
    using assms gd_base_values [OF b] by (simp add: gd_inv_def last_ok_def)
  from onedim_for_ok [OF gd_base_copy_scratch [OF b] this, of ?ks] obtain low f2 where
    move: "onedim_for cs ?ks (f_last (ctx f)) ?f1 = Some (low, f2)" and de: "descends cs g (f_last (ctx f)) ?f1 low f2"
    by blast
  define f3 where "f3 = upd_ctx (\<lambda>c. c\<lparr>f_last := low\<rparr>) f2"
  define f4 where "f4 = (if \<not> solved (ctx f3) then upd_ctx (\<lambda>c. c\<lparr>next_state := 1, dimensionIdx := 0\<rparr>) f3 else f3)"
  have run: "onedimension_descend cs f = Some f4"
    using move by (simp add: onedimension_descend_def f3_def f4_def)
  have b4: "gd_base cs g f4" using de by (auto simp: f4_def f3_def descends_def gd_defs sols_ok_def)
  show thesis
    using that [OF run] b4 de gd_base_values [OF b] gd_base_values [OF b4]
    by (auto simp: gd_inv_def last_ok_def exact_def f4_def f3_def descends_def)
qed

section \<open>The driver\<close>

text \<open>
  Between two evaluations the search passes through at most four states, so the evaluations
  left and the rank of the state bound the number of turns.
\<close>

definition state_rank :: "nat \<Rightarrow> nat" where
  "state_rank s = (if s = 4 then 3 else if s = 1 then 2 else if s = 2 then 1 else 0)"

definition turns_left :: "'r FUT \<Rightarrow> nat" where
  "turns_left f = 4 * nat (MAX_EXEC_TIMES + 1 - att (ctx f)) + state_rank (next_state (ctx f))"

definition searching :: "Cons list \<Rightarrow> 'r FUT \<Rightarrow> 'r FUT \<Rightarrow> bool" where
  "searching cs g f \<longleftrightarrow> gd_inv cs g f \<and> next_state (ctx f) \<le> 5 \<and> \<not> solved (ctx f) \<and> exact cs f"

lemma gd_step_ok:
  assumes "searching cs g f"
  obtains f' where "gd_step rnd cs f = Some f'" "gd_inv cs g f'"
    "\<not> solved (ctx f') \<Longrightarrow> searching cs g f' \<and> next_state (ctx f') \<noteq> 0
       \<and> (att (ctx f') \<le> MAX_EXEC_TIMES \<longrightarrow> turns_left f' < turns_left f)"
proof -
  from assms have i: "gd_inv cs g f" and b: "gd_base cs g f" and e: "exact cs f" "\<not> solved (ctx f)"
    and s: "next_state (ctx f) \<le> 5"
    by (simp_all add: searching_def gd_inv_def)
  have less: "turns_left f' < turns_left f"
    if "att (ctx f') \<le> MAX_EXEC_TIMES" "att (ctx f) < att (ctx f') \<or>
      att (ctx f) \<le> att (ctx f') \<and> state_rank (next_state (ctx f')) < state_rank (next_state (ctx f))" for f' :: "'a FUT"
    using that by (auto simp: turns_left_def state_rank_def)
  note k = searching_def e less gd_step_def state_rank_def
  from s consider "next_state (ctx f) = 0" | "next_state (ctx f) = 1" | "next_state (ctx f) = 2"
    | "next_state (ctx f) = 3" | "next_state (ctx f) = 4" | "next_state (ctx f) = 5" by linarith
  then show thesis
  proof cases
    case 1
    show ?thesis by (rule load_input_ok [OF b]; rule that) (use 1 in \<open>auto simp: k\<close>)
  next
    case 2
    show ?thesis by (rule cal_gradient_ok [OF i]; rule that) (use 2 in \<open>auto simp: k\<close>)
  next
    case 3
    show ?thesis by (rule guess_descend_ok [OF i]; rule that) (use 3 in \<open>auto simp: k\<close>)
  next
    case 4
    show ?thesis by (rule alldimension_descend_ok [OF i]; rule that) (use 4 in \<open>auto simp: k\<close>)
  next
    case 5
    show ?thesis by (rule onedimension_descend_ok [OF i]; rule that) (use 5 in \<open>auto simp: k\<close>)
  next
    case 6
    show ?thesis by (rule repick_start_point_ok [OF b, of rnd]; rule that) (use 6 in \<open>auto simp: k\<close>)
  qed
qed

lemma gd_search_ok:
  assumes "searching cs g f"
  shows "\<exists>r f'. gd_search rnd cs f = Some (r, f') \<and> gd_base cs g f' \<and> att (ctx f') = 0 \<and> \<not> solved (ctx f')
     \<and> (r \<longrightarrow> rgd_solutions f' \<noteq> [])
     \<and> (\<not> r \<longrightarrow> uint (f_last (ctx f')) = total_gap (direction_flipped g) cs (mvalue (min_input (ctx f'))))"
  using assms
proof (induction "turns_left f" arbitrary: f rule: less_induct)
  case less
  obtain f1 where f1: "gd_step rnd cs f = Some f1" "gd_inv cs g f1"
    and nx: "\<not> solved (ctx f1) \<Longrightarrow> searching cs g f1 \<and> next_state (ctx f1) \<noteq> 0
       \<and> (att (ctx f1) \<le> MAX_EXEC_TIMES \<longrightarrow> turns_left f1 < turns_left f)"
    using gd_step_ok [OF less.prems] by metis
  note run = gd_search.simps [of rnd cs f]
  from f1 have b1: "gd_base cs g f1" by (simp add: gd_inv_def)
  consider (found) "solved (ctx f1)" | (stop) "\<not> solved (ctx f1)" "MAX_EXEC_TIMES < att (ctx f1)"
    | (go) "\<not> solved (ctx f1)" "att (ctx f1) \<le> MAX_EXEC_TIMES" by linarith
  then show ?case
  proof cases
    case found
    then show ?thesis using f1(1) b1 run by (auto simp: gd_defs sols_ok_def)
  next
    case stop
    then have "uint (f_last (ctx f1)) = total_gap (direction_flipped g) cs (mvalue (min_input (ctx f1)))"
      using nx gd_base_values [OF b1] by (simp add: searching_def exact_def)
    with stop show ?thesis using f1(1) b1 run by (auto simp: gd_defs sols_ok_def)
  next
    case go
    then have "gd_search rnd cs f = gd_search rnd cs f1" using f1(1) run by simp
    with go nx less.hyps [of f1] show ?thesis by simp
  qed
qed

section \<open>A task that has been finalised\<close>

text \<open>What \<open>finalize\<close> relies on: the metadata that code generation attaches to a constraint.\<close>

definition compiled_ok :: "Cons \<Rightarrow> bool" where
  "compiled_ok c \<longleftrightarrow> cons_wf c \<and> distinct (map fst (local_map c))
     \<and> length (input_args c) = length (local_map c) + unat (const_num c)
     \<and> (\<forall>(off, a) \<in> set (local_map c). fst (input_args c ! unat a))
     \<and> relational (comparison c) \<and> fn_ok (input_args c) (fn c)"

lemma slots_fit_bound:
  assumes "args_bound c args" "\<forall>(off, a) \<in> set (local_map c). fst (input_args c ! unat a)"
  shows "slots_fit args slots = slots_fit (input_args c) slots"
proof -
  have "fst (args ! i) = fst (input_args c ! i)" if "i < length (input_args c)" for i
    using assms(1) that unfolding args_bound_def by (metis nth_map)
  moreover have "fst (input_args c ! i) \<or> args ! i = input_args c ! i" for i
    using assms by (cases "i \<in> (unat \<circ> snd) ` set (local_map c)") (auto simp: args_bound_def)
  ultimately show ?thesis
    using assms(1) unfolding slots_fit_def args_bound_def by metis
qed

lemma fn_ok_bound:
  assumes "args_bound c args" "compiled_ok c"
  shows "fn_ok args (fn c)"
proof -
  have "length args = length (input_args c)" using assms(1) by (simp add: args_bound_def)
  moreover have "slots_fit args slots = slots_fit (input_args c) slots" for slots
    using slots_fit_bound [OF assms(1)] assms(2) by (simp add: compiled_ok_def)
  moreover have "fn_ok (input_args c) (fn c)" using assms(2) by (simp add: compiled_ok_def)
  ultimately show ?thesis unfolding fn_ok_def by simp
qed

lemma finalize_searching:
  assumes "fresh_fut f" "distinct (constraints f)" "\<forall>i \<in> set (constraints f). compiled_ok (store i)"
    and "finalize env store f = (store', f')"
  shows "searching (map store' (constraints f)) f' f'"
proof -
  have fits: "2 + length (input_args (store' i)) \<le> length (scratch_args f')" if "i \<in> set (constraints f)" for i
    using scratch_room [of f store env store' f' i] assms that by (auto simp: compiled_ok_def)
  have fr: "comparison (store' i) = comparison (store i)" "compiled_ok (store i) \<Longrightarrow> fn_ok (input_args (store' i)) (fn (store' i))" for i
  proof -
    from finalize_parts [OF assms(4,1)] obtain s where "fin_all (constraints f) fin_init store = (s, store')" by blast
    from fin_all_frame [OF this, of i] obtain args where
      "args_bound (store i) args" "store' i = (store i)\<lparr>input_args := args\<rparr>" by blast
    with fn_ok_bound show "comparison (store' i) = comparison (store i)"
      "compiled_ok (store i) \<Longrightarrow> fn_ok (input_args (store' i)) (fn (store' i))" by simp_all
  qed
  have "cons_ok (length (scratch_args f')) (store' i)" if "i \<in> set (constraints f)" for i
    using assms(3) fits [OF that] fr [of i] that by (auto simp: cons_ok_def compiled_ok_def)
  then show ?thesis
    by (auto simp: finalize_rest [OF assms(4)] SContext_new_fields Grad_new_def searching_def gd_inv_def gd_defs sols_ok_def last_ok_def exact_def)
qed

lemma gd_search_finalized:
  assumes "fresh_fut f" "rgd_solutions f = []" "distinct (constraints f)"
    and "\<forall>i \<in> set (constraints f). compiled_ok (store i)"
    and "finalize env store f = (store', f')" "cs = map store' (constraints f)"
  shows "\<exists>r f''. gd_search rnd cs f' = Some (r, f'')
    \<and> partial_solutions f'' = partial_solutions f
    \<and> (r \<longrightarrow> rgd_solutions f'' \<noteq> [])
    \<and> (\<forall>s \<in> set (rgd_solutions f''). \<exists>vals. length vals = length (inputs f')
          \<and> satisfies (direction_flipped f') cs vals \<and> s = result_of f' vals)
    \<and> (\<not> r \<longrightarrow> uint (f_last (ctx f'')) = total_gap (direction_flipped f') cs (mvalue (min_input (ctx f''))))"
proof -
  have "searching cs f' f'"
    unfolding assms(6) by (rule finalize_searching [OF assms(1,3,4,5)])
  from gd_search_ok [OF this, of rnd] obtain r f'' where
    "gd_search rnd cs f' = Some (r, f'')" "gd_base cs f' f''" "r \<longrightarrow> rgd_solutions f'' \<noteq> []"
    "\<not> r \<longrightarrow> uint (f_last (ctx f'')) = total_gap (direction_flipped f') cs (mvalue (min_input (ctx f'')))"
    by blast
  moreover have "rgd_solutions f' = []" using finalize_rest(4) [OF assms(5)] assms(2) by simp
  moreover have "partial_solutions f' = partial_solutions f" by (rule finalize_rest(5) [OF assms(5)])
  ultimately show ?thesis by (auto simp: gd_base_def sols_ok_def same_task_def)
qed

section \<open>Properties\<close>

text \<open>
  C2. The search on a finalised task always returns. If it reports success, a solution has been
  recorded, and every recorded solution is the image of an input vector that meets all
  constraints. If it gives up, \<open>f_last\<close> is the distance of \<open>min_input\<close>, the input
  that the current start has descended to.
\<close>

theorem gd_search_correct:
  assumes "fresh_fut f" "rgd_solutions f = []" "distinct (constraints f)"
    and "\<forall>i \<in> set (constraints f). compiled_ok (store i)"
    and "finalize env store f = (store', f')" "cs = map store' (constraints f)"
  shows "\<exists>r f''. gd_search rnd cs f' = Some (r, f'')
    \<and> (r \<longrightarrow> rgd_solutions f'' \<noteq> [])
    \<and> (\<forall>s \<in> set (rgd_solutions f''). \<exists>vals. length vals = length (inputs f')
          \<and> satisfies (direction_flipped f') cs vals \<and> s = result_of f' vals)
    \<and> (\<not> r \<longrightarrow> uint (f_last (ctx f'')) = total_gap (direction_flipped f') cs (mvalue (min_input (ctx f''))))"
  using gd_search_finalized [OF assms] by blast

lemma sample_compiled_ok: "compiled_ok sample_cons"
  using sample_fn_ok [of "[(True, 0), (False, 5)]"] by (simp add: compiled_ok_def cons_wf_def sample_cons_def relational_def numeral_2_eq_2)

theorem gd_search_correct_witness:
  "\<exists>r f''. gd_search (env_random sample_env)
       (map (fst (finalize sample_env (\<lambda>_. sample_cons) sample_fut)) [0]) sample_state = Some (r, f'')"
  using gd_search_correct [of sample_fut "\<lambda>_. sample_cons" sample_env
      "fst (finalize sample_env (\<lambda>_. sample_cons) sample_fut)" sample_state
      "map (fst (finalize sample_env (\<lambda>_. sample_cons) sample_fut)) [0]" "env_random sample_env"]
  by (simp add: sample_compiled_ok sample_state_def) (auto simp: sample_fut_def FUT_new_def fresh_fut_def)

text \<open>
  C18. Between two starting points the search never accepts a worse input: no phase but the two
  that choose a new start increases \<open>f_last\<close>.
\<close>

theorem gd_step_descends:
  assumes "searching cs g f" "next_state (ctx f) \<in> {1, 2, 3, 4}"
  shows "\<exists>f'. gd_step rnd cs f = Some f' \<and> f_last (ctx f') \<le> f_last (ctx f)"
proof -
  from assms(1) have i: "gd_inv cs g f" by (simp add: searching_def)
  from assms(2) consider "next_state (ctx f) = 1" | "next_state (ctx f) = 2"
    | "next_state (ctx f) = 3" | "next_state (ctx f) = 4" by auto
  then show ?thesis
  proof cases
    case 1
    show ?thesis by (rule cal_gradient_ok [OF i]) (use 1 in \<open>auto simp: gd_step_def\<close>)
  next
    case 2
    show ?thesis by (rule guess_descend_ok [OF i]) (use 2 in \<open>auto simp: gd_step_def\<close>)
  next
    case 3
    show ?thesis by (rule alldimension_descend_ok [OF i]) (use 3 in \<open>auto simp: gd_step_def\<close>)
  next
    case 4
    show ?thesis by (rule onedimension_descend_ok [OF i]) (use 4 in \<open>auto simp: gd_step_def\<close>)
  qed
qed

text \<open>The sample task at the input 0, whose distance is 5, about to compute the gradient.\<close>

definition sample_mid :: "unit FUT" where
  "sample_mid = upd_ctx (\<lambda>c. c\<lparr>next_state := 1, f_last := 5\<rparr>) sample_state"

abbreviation sample_list :: "Cons list" where
  "sample_list \<equiv> map (fst (finalize sample_env (\<lambda>_. sample_cons) sample_fut)) [0]"

lemma sample_searching: "searching sample_list sample_state sample_state"
  unfolding sample_state_def
  using finalize_searching [of sample_fut "\<lambda>_. sample_cons" sample_env
      "fst (finalize sample_env (\<lambda>_. sample_cons) sample_fut)" "snd (finalize sample_env (\<lambda>_. sample_cons) sample_fut)"]
  by (simp add: sample_compiled_ok) (simp add: sample_fut_def FUT_new_def fresh_fut_def)

lemma sample_list_eq: "sample_list = [sample_cons]"
  by (simp add: finalize_def case_prod_beta Let_def sample_simps fin_gidx_def)

lemma sample_state_value:
  "mvalue (min_input (ctx sample_state)) = [0]" "length (inputs sample_state) = 1"
  by (simp_all add: sample_state_def finalize_def case_prod_beta Let_def sample_simps fin_gidx_def SContext_new_def
      MutInput_new_def sample_env_def malloc_flags_def)

lemma sample_mid_searching: "searching [sample_cons] sample_state sample_mid"
proof -
  have "total_gap False [sample_cons] [0] = 5"
    by (simp add: total_gap_def gap_def operands_def arg_vals_def wanted_def sample_cons_def sample_fn_def)
  then show ?thesis
    using sample_searching unfolding sample_list_eq
    by (auto simp: searching_def sample_mid_def gd_inv_def last_ok_def exact_def gd_defs sols_ok_def sample_state_value sample_state_sizes)
qed

theorem gd_step_descends_witness:
  "\<exists>f'. gd_step (env_random sample_env) [sample_cons] sample_mid = Some f' \<and> f_last (ctx f') \<le> 5"
  using gd_step_descends [OF sample_mid_searching, of "env_random sample_env"] by (simp add: sample_mid_def)

lemma destroy_shared:
  "disables (scratch_input c) = disables (min_input c) \<Longrightarrow> SContext_destroy h c = None"
  by (auto simp: SContext_destroy_def MutInput_destroy_def free_flags_def)

lemma distance_ctx:
  "distance cs m f = Some (d, f') \<Longrightarrow> \<exists>ds. ctx f' = (ctx f)\<lparr>distances := ds\<rparr>"
  by (auto simp: distance_def split: option.splits prod.splits)

lemma delta_disables [simp]: "disables (compute_delta_all h m g st) = disables m"
proof -
  have "disables (delta_loop h i st us m) = disables m" for i us m
    by (induction h i st us m rule: delta_loop.induct) simp_all
  then show ?thesis by (simp add: compute_delta_all_def)
qed

text \<open>
  C26. Assigning one input to another copies the pointer to its flags. After \<open>guess_descend\<close> both
  inputs of the context hold the same pointer, and destroying the context frees it twice.
\<close>

theorem descent_double_free:
  assumes "guess_descend cs f = Some f'"
  shows "SContext_destroy (fheap f') (ctx f') = None"
proof -
  let ?f1 = "upd_scratch (\<lambda>m. mi_copy m (min_input (ctx f))) f"
  obtain low f2 where move: "guess_move cs (f_last (ctx f)) ?f1 = Some (low, f2)"
    and f': "ctx f' = ctx f2\<lparr>f_last := low, next_state := 3, solved := low = 0 \<or> solved (ctx f2)\<rparr>"
    using assms by (auto simp: guess_descend_def Let_def split: Option.bind_splits if_splits)
  have "disables (scratch_input (ctx f2)) = disables (min_input (ctx f2))"
    using move by (auto simp: guess_move_def Let_def dest!: distance_ctx split: Option.bind_splits if_splits)
  then show ?thesis by (simp add: destroy_shared f')
qed

theorem descent_double_free_witness:
  "\<exists>f'. guess_descend [sample_cons] sample_mid = Some f' \<and> SContext_destroy (fheap f') (ctx f') = None"
proof -
  have "gd_inv [sample_cons] sample_state sample_mid" using sample_mid_searching by (simp add: searching_def)
  then obtain f' where "guess_descend [sample_cons] sample_mid = Some f'" by (rule guess_descend_ok)
  with descent_double_free [OF this] show ?thesis by blast
qed

end
