(* ===== verification/Gd_Result.thy ===== *)
theory Gd_Result
  imports Gd_Search
begin

text \<open>
  What a solution means: \<open>addResults\<close> turns the cells of the search, 64-bit numbers that may
  have left the range of a byte, into bytes of the input so that every field keeps its value.
\<close>

lemma ucast_mask_byte: "(ucast (x AND 0xFF :: u64) :: u8) = ucast x"
proof -
  have "x AND 0xFF = take_bit 8 x" by (simp add: take_bit_eq_mask mask_eq_exp_minus_1)
  then show ?thesis by (simp only:) (rule bit_word_eqI, auto simp: bit_simps)
qed

section \<open>The sorted inputs\<close>

lemma map_insert_keys: "fst ` set (map_insert k v xs) = insert k (fst ` set xs)"
  by (induction k v xs rule: map_insert.induct) auto

lemma map_insert_sorted:
  "sorted_wrt (<) (map fst xs) \<Longrightarrow> sorted_wrt (<) (map fst (map_insert k v xs))"
proof (induction k v xs rule: map_insert.induct)
  case (2 k v k' v' xs)
  have "k' < y" if "y \<in> fst ` set (map_insert k v xs)" "k' < k" for y
    using that 2 by (auto simp: map_insert_keys)
  with 2 show ?case by auto
qed simp

lemma map_of_map_insert:
  "sorted_wrt (<) (map fst xs) \<Longrightarrow>
   map_of (map_insert k v xs) = (if k \<in> fst ` set xs then map_of xs else (map_of xs)(k \<mapsto> v))"
proof (induction k v xs rule: map_insert.induct)
  case (2 k v k' v' xs)
  then have "\<forall>y \<in> set xs. k' < fst y" by simp
  with 2 show ?case by (auto simp: fun_eq_iff)
qed auto

lemma ordered_loop:
  assumes "distinct (map fst ins)" "n \<le> length ins"
  shows "sorted_wrt (<) (map fst (foldl (\<lambda>m i. map_insert (fst (ins ! i)) (vals ! i) m) [] [0..<n]))
    \<and> fst ` set (foldl (\<lambda>m i. map_insert (fst (ins ! i)) (vals ! i) m) [] [0..<n]) = fst ` set (take n ins)
    \<and> (\<forall>i < n. map_of (foldl (\<lambda>m i. map_insert (fst (ins ! i)) (vals ! i) m) [] [0..<n]) (fst (ins ! i)) = Some (vals ! i))"
  using assms(2)
proof (induction n)
  case (Suc n)
  let ?m = "foldl (\<lambda>m i. map_insert (fst (ins ! i)) (vals ! i) m) [] [0..<n]"
  from Suc have ih: "sorted_wrt (<) (map fst ?m)" "fst ` set ?m = fst ` set (take n ins)"
    "\<forall>i < n. map_of ?m (fst (ins ! i)) = Some (vals ! i)" by simp_all
  have new: "fst (ins ! i) \<noteq> fst (ins ! n)" if "i < n" for i
    using assms(1) that Suc.prems nth_eq_iff_index_eq [of "map fst ins" i n] by simp
  then have "fst (ins ! n) \<notin> fst ` set (take n ins)"
    using Suc.prems by (fastforce simp: in_set_conv_nth)
  with ih new Suc.prems show ?case
    by (auto simp: map_insert_sorted map_insert_keys map_of_map_insert take_Suc_conv_app_nth less_Suc_eq)
qed simp

lemma ordered_inputs_spec:
  assumes "distinct (map fst ins)"
  shows "sorted_wrt (<) (map fst (ordered_inputs ins vals))"
    "fst ` set (ordered_inputs ins vals) = fst ` set ins"
    "i < length ins \<Longrightarrow> map_of (ordered_inputs ins vals) (fst (ins ! i)) = Some (vals ! i)"
  using ordered_loop [OF assms le_refl, of vals] by (simp_all add: ordered_inputs_def)

lemma ordered_inputs_distinct:
  "distinct (map fst ins) \<Longrightarrow> distinct (map fst (ordered_inputs ins vals))"
  using ordered_inputs_spec(1) strict_sorted_iff by blast

section \<open>Fields\<close>

text \<open>The fields of a task: first offset and cells, as the shape cuts the sorted inputs.\<close>

function fields :: "(u32 \<rightharpoonup> u32) \<Rightarrow> (u32 \<times> u64) list \<Rightarrow> (u32 \<times> u64 list) list" where
  "fields sh [] = []"
| "fields sh ((start, v) # rest) =
     (let len = unat (um_index sh start)
      in if len \<noteq> 0 then (start, v # map snd (take (len - 1) rest)) # fields sh (drop (len - 1) rest)
         else fields sh rest)"
  by pat_completeness auto
termination
  by (relation "measure (\<lambda>(sh, xs). length xs)") auto

text \<open>A shape fits the inputs when the cells of a field are there and lie at consecutive offsets.\<close>

function aligned :: "(u32 \<rightharpoonup> u32) \<Rightarrow> (u32 \<times> u64) list \<Rightarrow> bool" where
  "aligned sh [] = True"
| "aligned sh ((start, v) # rest) =
     (let len = unat (um_index sh start)
      in if len \<noteq> 0 then len - 1 \<le> length rest
           \<and> map fst (take (len - 1) rest) = map (\<lambda>j. start + of_nat j) [1..<len] \<and> aligned sh (drop (len - 1) rest)
         else aligned sh rest)"
  by pat_completeness auto
termination
  by (relation "measure (\<lambda>(sh, xs). length xs)") auto

lemma put_bytes_other:
  "(\<forall>i < n. k \<noteq> start + of_nat (j + i)) \<Longrightarrow> put_bytes start j n res sol k = sol k"
proof (induction n arbitrary: j res sol)
  case (Suc n)
  have "\<forall>i < n. k \<noteq> start + of_nat (Suc j + i)"
    using Suc.prems by (metis Suc_less_eq add_Suc add_Suc_right)
  moreover have "k \<noteq> start + of_nat j" using Suc.prems by force
  ultimately show ?case using Suc.IH [of "Suc j"] by simp
qed simp

lemma put_bytes_same:
  assumes "distinct (map (\<lambda>i. start + of_nat (j + i)) [0..<n])" "i < n"
  shows "put_bytes start j n res sol (start + of_nat (j + i)) = Some (ucast (drop_bit (8 * i) res))"
  using assms
proof (induction n arbitrary: i j res sol)
  case (Suc n)
  have sh: "map (\<lambda>i. start + of_nat (j + i)) [0..<Suc n] =
      (start + of_nat j) # map (\<lambda>i. start + of_nat (Suc j + i)) [0..<n]"
    by (simp add: map_upt_Suc del: upt_Suc)
  note d = Suc.prems(1) [unfolded sh]
  show ?case
  proof (cases i)
    case 0
    have "\<forall>i < n. start + of_nat j \<noteq> start + of_nat (Suc j + i)" using d by auto
    then show ?thesis
      using put_bytes_other [of n "start + of_nat j" start "Suc j"] 0 by (simp add: ucast_mask_byte)
  next
    case (Suc i')
    then show ?thesis
      using Suc.IH [of "Suc j" i' "drop_bit 8 res"] d Suc.prems(2) by (simp add: ac_simps)
  qed
qed simp

text \<open>The bytes of a field are written at the offsets of its cells.\<close>

lemma field_offsets:
  assumes "len - 1 \<le> length rest" "map fst (take (len - 1) rest) = map (\<lambda>j. start + of_nat j) [1..<len]" "len \<noteq> 0"
  shows "map (\<lambda>i. start + of_nat (0 + i)) [0..<len] = map fst ((start, v) # take (len - 1) rest)"
  using assms by (simp add: upt_conv_Cons)

lemma emit_fields_other:
  "aligned sh xs \<Longrightarrow> k \<notin> fst ` set xs \<Longrightarrow> emit_fields sh xs sol k = sol k"
proof (induction sh xs sol rule: emit_fields.induct)
  case (2 sh start v rest sol)
  let ?len = "unat (um_index sh start)"
  show ?case
  proof (cases "?len = 0")
    case True
    with 2 show ?thesis by (simp add: Let_def)
  next
    case False
    note al = 2(3) [simplified aligned.simps Let_def if_not_P [OF False] if_P [OF False] simp_thms]
    have eq: "map (\<lambda>i. start + of_nat (0 + i)) [0..<?len] = map fst ((start, v) # take (?len - 1) rest)"
      by (rule field_offsets) (use al False in auto)
    have "\<forall>i < ?len. k \<noteq> start + of_nat (0 + i)"
    proof (intro allI impI)
      fix i assume "i < ?len"
      then have "start + of_nat (0 + i) \<in> set (map (\<lambda>i. start + of_nat (0 + i)) [0..<?len])" by simp
      also have "\<dots> \<subseteq> fst ` set ((start, v) # rest)"
        unfolding eq by (auto dest: in_set_takeD)
      finally show "k \<noteq> start + of_nat (0 + i)" using 2(4) by blast
    qed
    moreover have "k \<notin> fst ` set (drop (?len - 1) rest)"
      using 2(4) by (auto dest: in_set_dropD)
    ultimately show ?thesis
      using 2(1) [OF refl False] al False put_bytes_other by (simp add: Let_def)
  qed
qed simp

lemma emit_fields_bytes:
  assumes "aligned sh xs" "distinct (map fst xs)" "(start, cells) \<in> set (fields sh xs)" "j < length cells"
  shows "emit_fields sh xs sol (start + of_nat j) = Some (ucast (drop_bit (8 * j) (field_value cells)))"
  using assms
proof (induction sh xs sol rule: emit_fields.induct)
  case (2 sh s v rest sol)
  let ?len = "unat (um_index sh s)"
  show ?case
  proof (cases "?len = 0")
    case True
    with 2 show ?thesis by (simp add: Let_def)
  next
    case False
    note al = 2(3) [simplified aligned.simps Let_def if_not_P [OF False] if_P [OF False] simp_thms]
    let ?c = "v # map snd (take (?len - 1) rest)"
    have eq: "map (\<lambda>i. s + of_nat (0 + i)) [0..<?len] = map fst ((s, v) # take (?len - 1) rest)"
      by (rule field_offsets) (use al False in auto)
    have split: "map fst ((s, v) # rest) = map fst ((s, v) # take (?len - 1) rest) @ map fst (drop (?len - 1) rest)"
      by (simp flip: map_append)
    have dist: "distinct (map (\<lambda>i. s + of_nat (0 + i)) [0..<?len])" "distinct (map fst (drop (?len - 1) rest))"
      and disj: "set (map (\<lambda>i. s + of_nat (0 + i)) [0..<?len]) \<inter> fst ` set (drop (?len - 1) rest) = {}"
      using 2(4) unfolding eq split distinct_append by auto
    have len: "length ?c = ?len" using al False by simp
    have run: "emit_fields sh ((s, v) # rest) sol =
        emit_fields sh (drop (?len - 1) rest) (put_bytes s 0 ?len (field_value ?c) sol)"
      using False by (simp add: Let_def)
    have "(start, cells) = (s, ?c) \<or> (start, cells) \<in> set (fields sh (drop (?len - 1) rest))"
      using 2(5) False by (auto simp: Let_def)
    then show ?thesis
    proof
      assume h: "(start, cells) = (s, ?c)"
      then have j: "j < ?len" using 2(6) len by auto
      then have "s + of_nat (0 + j) \<in> set (map (\<lambda>i. s + of_nat (0 + i)) [0..<?len])" by simp
      then have "s + of_nat j \<notin> fst ` set (drop (?len - 1) rest)" using disj by auto
      then show ?thesis
        using h run al emit_fields_other put_bytes_same [OF dist(1) j, of "field_value ?c" sol] by simp
    next
      assume "(start, cells) \<in> set (fields sh (drop (?len - 1) rest))"
      then show ?thesis
        using 2(1) [OF refl False] al dist(2) 2(6) run by simp
    qed
  qed
qed simp

lemma fields_cells:
  assumes "aligned sh xs" "(start, cells) \<in> set (fields sh xs)" "j < length cells"
  shows "(start + of_nat j, cells ! j) \<in> set xs"
  using assms
proof (induction sh xs rule: fields.induct)
  case (2 sh s v rest)
  let ?len = "unat (um_index sh s)"
  show ?case
  proof (cases "?len = 0")
    case True
    with 2 show ?thesis by (simp add: Let_def)
  next
    case False
    note al = 2(3) [simplified aligned.simps Let_def if_not_P [OF False] if_P [OF False] simp_thms]
    let ?xs = "(s, v) # take (?len - 1) rest"
    have eq: "map (\<lambda>i. s + of_nat (0 + i)) [0..<?len] = map fst ?xs"
      by (rule field_offsets) (use al False in auto)
    have "(start, cells) = (s, map snd ?xs) \<or> (start, cells) \<in> set (fields sh (drop (?len - 1) rest))"
      using 2(4) False by (auto simp: Let_def)
    then show ?thesis
    proof
      assume h: "(start, cells) = (s, map snd ?xs)"
      then have j: "j < length ?xs" "j < ?len" using 2(5) al False by auto
      have "map fst ?xs ! j = s + of_nat j" unfolding eq [symmetric] using j(2) by simp
      then have "fst (?xs ! j) = s + of_nat j" using j(1) by (simp only: nth_map)
      moreover have "snd (?xs ! j) = cells ! j" using h j(1) by (simp only: prod.inject nth_map)
      moreover have "?xs ! j \<in> set ?xs" using j(1) by (rule nth_mem)
      ultimately have "(s + of_nat j, cells ! j) \<in> set ?xs" by (metis prod.collapse)
      then show ?thesis using h by (auto dest: in_set_takeD)
    next
      assume "(start, cells) \<in> set (fields sh (drop (?len - 1) rest))"
      then show ?thesis
        using 2(1) [OF refl False] al 2(5) by (auto dest: in_set_dropD)
    qed
  qed
qed simp

lemma result_of_field:
  assumes "distinct (map fst (inputs f))" "aligned (shape f) (ordered_inputs (inputs f) vals)"
    and "(start, cells) \<in> set (fields (shape f) (ordered_inputs (inputs f) vals))" "j < length cells"
  shows "result_of f vals (start + of_nat j) = Some (ucast (drop_bit (8 * j) (field_value cells)))
    \<and> (\<exists>i < length (inputs f). fst (inputs f ! i) = start + of_nat j \<and> cells ! j = vals ! i)"
proof
  let ?o = "ordered_inputs (inputs f) vals"
  show "result_of f vals (start + of_nat j) = Some (ucast (drop_bit (8 * j) (field_value cells)))"
    unfolding result_of_def
    by (rule emit_fields_bytes [OF assms(2) ordered_inputs_distinct [OF assms(1)] assms(3,4)])
  have mem: "(start + of_nat j, cells ! j) \<in> set ?o"
    by (rule fields_cells [OF assms(2-4)])
  then have "start + of_nat j \<in> fst ` set (inputs f)"
    using ordered_inputs_spec(2) [OF assms(1), of vals] by force
  then obtain i where i: "i < length (inputs f)" "fst (inputs f ! i) = start + of_nat j"
    by (auto simp: in_set_conv_nth)
  have "map_of ?o (start + of_nat j) = Some (cells ! j)"
    using mem ordered_inputs_distinct [OF assms(1)] by simp
  with i ordered_inputs_spec(3) [OF assms(1) i(1), of vals]
  show "\<exists>i < length (inputs f). fst (inputs f ! i) = start + of_nat j \<and> cells ! j = vals ! i"
    by auto
qed

section \<open>The value of a field\<close>

lemma field_value_sum:
  assumes "cl \<noteq> []"
  shows "field_value cl = of_nat (\<Sum>j < length cl. unat (cl ! j) * 256 ^ j)"
proof -
  have "foldl (\<lambda>res k. res + push_bit (8 * k) (cl ! k)) (cl ! 0) [1..<Suc n] =
      of_nat (\<Sum>j < Suc n. unat (cl ! j) * 256 ^ j)" for n
  proof (induction n)
    case (Suc n)
    have "push_bit (8 * Suc n) (cl ! Suc n) = of_nat (unat (cl ! Suc n) * 256 ^ Suc n)"
      by (simp only: push_bit_eq_mult power_mult) simp
    with Suc show ?case by (simp del: push_bit_eq_mult)
  qed simp
  from this [of "length cl - 1"] assms show ?thesis by (simp add: field_value_def)
qed

lemma byte_of_sum:
  assumes "j < 8"
  shows "(ucast (drop_bit (8 * j) (of_nat v :: u64)) :: u8) = of_nat (v div 256 ^ j)"
proof (rule bit_word_eqI)
  fix n assume n: "n < LENGTH(8)"
  have "(256 :: nat) ^ j = 2 ^ (8 * j)" by (simp add: power_mult)
  then have d: "v div 256 ^ j = drop_bit (8 * j) v" by (simp add: drop_bit_eq_div)
  have "8 * j + n < 64" using n assms by simp
  with n show "bit (ucast (drop_bit (8 * j) (of_nat v :: u64)) :: u8) n = bit (of_nat (v div 256 ^ j) :: u8) n"
    unfolding d by (simp add: bit_simps)
qed

section \<open>Properties\<close>

text \<open>
  C9. The solution that \<open>addResults\<close> records keeps the value of every field. The integer value of a
  field is the sum of its cells, cell \<open>k\<close> weighted with \<open>256^k\<close>, whatever carries the search left
  in the cells; the byte that the solution has for position \<open>j\<close> of the field is byte \<open>j\<close> of this
  integer, and cell \<open>j\<close> is the value of the input with that offset. A field has at most the eight
  bytes of an \<open>uint64_t\<close>; for longer ones the shift in the source is undefined.
\<close>

theorem result_of_bytes:
  assumes "distinct (map fst (inputs f))" "aligned (shape f) (ordered_inputs (inputs f) vals)"
    and "(start, cells) \<in> set (fields (shape f) (ordered_inputs (inputs f) vals))" "j < length cells" "length cells \<le> 8"
  shows "result_of f vals (start + of_nat j) = Some (of_nat ((\<Sum>k < length cells. unat (cells ! k) * 256 ^ k) div 256 ^ j))
    \<and> (\<exists>i < length (inputs f). fst (inputs f ! i) = start + of_nat j \<and> cells ! j = vals ! i)"
proof -
  have "cells \<noteq> []" "j < 8" using assms(4,5) by auto
  then have "(ucast (drop_bit (8 * j) (field_value cells)) :: u8) = of_nat ((\<Sum>k < length cells. unat (cells ! k) * 256 ^ k) div 256 ^ j)"
    unfolding field_value_sum [OF \<open>cells \<noteq> []\<close>] by (intro byte_of_sum)
  with result_of_field [OF assms(1-4)] show ?thesis by simp
qed

text \<open>
  A field of two bytes at offset 3 whose low cell holds 300 and whose high cell holds 1: the
  solution has the bytes of \<open>556 = 0x22C\<close>.
\<close>

definition carry_fut :: "unit FUT" where
  "carry_fut = sample_fut\<lparr>inputs := [(4, 0), (3, 0)], shape := [3 \<mapsto> 2]\<rparr>"

theorem result_of_bytes_witness:
  "result_of carry_fut [1, 300] 3 = Some 0x2C \<and> result_of carry_fut [1, 300] 4 = Some 2"
proof -
  have o: "ordered_inputs (inputs carry_fut) [1, 300] = [(3, 300), (4, 1)]"
    by (simp add: carry_fut_def ordered_inputs_def upt_conv_Cons)
  have sh: "shape carry_fut = [3 \<mapsto> 2]" by (simp add: carry_fut_def)
  have f: "(3, [300, 1]) \<in> set (fields (shape carry_fut) (ordered_inputs (inputs carry_fut) [1, 300]))"
    unfolding o sh by (simp add: um_index_def)
  have a: "aligned (shape carry_fut) (ordered_inputs (inputs carry_fut) [1, 300])"
    unfolding o sh by (simp add: um_index_def upt_conv_Cons)
  have d: "distinct (map fst (inputs carry_fut))" by (simp add: carry_fut_def)
  have v: "(\<Sum>k < length [300, 1 :: u64]. unat ([300, 1 :: u64] ! k) * 256 ^ k) = 556" by (simp add: lessThan_Suc)
  have "result_of carry_fut [1, 300] (3 + of_nat 0) = Some (of_nat (556 div 256 ^ 0))"
    using conjunct1 [OF result_of_bytes [OF d a f, of 0]] unfolding v by simp
  moreover have "result_of carry_fut [1, 300] (3 + of_nat 1) = Some (of_nat (556 div 256 ^ 1))"
    using conjunct1 [OF result_of_bytes [OF d a f, of 1]] unfolding v by simp
  ultimately show ?thesis by simp
qed

end
