(* ===== verification/Taint_Table.thy ===== *)
theory Taint_Table
  imports Fg_Prelude "HOL-Library.Monad_Syntax"
begin

text \<open>
  The union table of the taint runtime (\<open>llvm_mode/dfsan_rt/dfsan\<close>): the bump allocator of
  \<open>taint_allocator.cc\<close>, label descriptors (\<open>dfsan.h\<close>, \<open>union_util.cc\<close>) and the hash table
  of \<open>union_hashtable.cc\<close> that finds a label by its descriptor. The table stores pointers to
  descriptors, so a lookup reads them in the current descriptor array. \<open>Die()\<close> ends the
  process and is the value \<open>None\<close>.
\<close>

section \<open>Allocator\<close>

record allocator =
  begin_addr :: u64
  next_usable_byte :: u64
  end_addr :: u64

definition allocator_init :: "u64 \<Rightarrow> u64 \<Rightarrow> allocator" where
  "allocator_init b e = \<lparr>begin_addr = b, next_usable_byte = b, end_addr = e\<rparr>"

definition allocator_alloc :: "u64 \<Rightarrow> allocator \<Rightarrow> (u64 \<times> allocator) option" where
  "allocator_alloc n a =
     (if begin_addr a = 0 then None
      else (let retval = next_usable_byte a; a' = a\<lparr>next_usable_byte := retval + n\<rparr>
            in if end_addr a \<le> retval + n then None else Some (retval, a')))"

definition allocator_dealloc :: "u64 \<Rightarrow> allocator \<Rightarrow> allocator" where
  "allocator_dealloc addr a = a"

section \<open>Label descriptors\<close>

type_synonym dfsan_label = u32

record dfsan_label_info =
  l1 :: dfsan_label
  l2 :: dfsan_label
  op1 :: u64
  op2 :: u64
  lop :: u16
  lsize :: u16
  lhash :: u32
  tree_size :: u32
  depth :: u32
  lflags :: u8

definition info_zero :: dfsan_label_info where
  "info_zero = \<lparr>l1 = 0, l2 = 0, op1 = 0, op2 = 0, lop = 0, lsize = 0, lhash = 0, tree_size = 0, depth = 0, lflags = 0\<rparr>"

text \<open>\<open>operator==\<close> of \<open>union_util.cc\<close> compares six of the fields.\<close>

definition info_eq :: "dfsan_label_info \<Rightarrow> dfsan_label_info \<Rightarrow> bool" where
  "info_eq lhs rhs \<longleftrightarrow> l1 lhs = l1 rhs \<and> l2 lhs = l2 rhs \<and> lop lhs = lop rhs \<and> lsize lhs = lsize rhs
     \<and> op1 lhs = op1 rhs \<and> op2 lhs = op2 rhs"

type_synonym infos = "dfsan_label \<Rightarrow> dfsan_label_info"

section \<open>The hash table\<close>

text \<open>A bucket is the chain of its entries: the label whose descriptor is the key, and the label stored.\<close>

record union_hashtable =
  bucket :: "u64 \<Rightarrow> (dfsan_label \<times> dfsan_label) list"
  bucket_size :: u64

definition union_hashtable_new :: "u64 \<Rightarrow> allocator \<Rightarrow> (union_hashtable \<times> allocator) option" where
  "union_hashtable_new n a =
     do { (p, a') \<leftarrow> allocator_alloc (n * 8) a;
          Some (\<lparr>bucket = (\<lambda>_. []), bucket_size = n\<rparr>, a') }"

definition ht_hash :: "u64 \<Rightarrow> dfsan_label_info \<Rightarrow> u64" where
  "ht_hash n key =
     (((ucast (l1 key + l2 key) + op1 key + op2 key) XOR push_bit 3 (ucast (lop key))) XOR ucast (lsize key)) AND (n - 1)"

definition ht_insert ::
  "infos \<Rightarrow> dfsan_label \<Rightarrow> dfsan_label \<Rightarrow> union_hashtable \<times> allocator \<Rightarrow> (union_hashtable \<times> allocator) option" where
  "ht_insert I key entry ta =
     (let (t, a) = ta; index = ht_hash (bucket_size t) (I key)
      in do { (p, a') \<leftarrow> allocator_alloc 24 a;
              Some (t\<lparr>bucket := (bucket t)(index := (key, entry) # bucket t index)\<rparr>, a') })"

fun chain_find :: "infos \<Rightarrow> dfsan_label_info \<Rightarrow> (dfsan_label \<times> dfsan_label) list \<Rightarrow> dfsan_label option" where
  "chain_find I key [] = None"
| "chain_find I key ((k, e) # xs) = (if info_eq (I k) key then Some e else chain_find I key xs)"

definition ht_lookup :: "infos \<Rightarrow> union_hashtable \<Rightarrow> dfsan_label_info \<Rightarrow> dfsan_label option" where
  "ht_lookup I t key = chain_find I key (bucket t (ht_hash (bucket_size t) key))"

section \<open>The contract of a label table\<close>

text \<open>
  What a client relies on: a table implements a finite map from descriptors, up to
  \<open>info_eq\<close>, to labels. Entries are found again as long as the descriptors of the keys it
  holds are not changed.
\<close>

locale label_table =
  fixes look :: "infos \<Rightarrow> 't \<Rightarrow> dfsan_label_info \<Rightarrow> dfsan_label option"
    and ins :: "infos \<Rightarrow> dfsan_label \<Rightarrow> dfsan_label \<Rightarrow> 't \<Rightarrow> 't option"
    and keys :: "'t \<Rightarrow> dfsan_label set"
    and inv :: "infos \<Rightarrow> 't \<Rightarrow> bool"
  assumes ins_look: "inv I t \<Longrightarrow> ins I k e t = Some t' \<Longrightarrow>
      look I t' key = (if info_eq (I k) key then Some e else look I t key)"
    and ins_keys: "ins I k e t = Some t' \<Longrightarrow> keys t' = insert k (keys t)"
    and ins_inv: "inv I t \<Longrightarrow> ins I k e t = Some t' \<Longrightarrow> inv I t'"
    and look_frame: "inv I t \<Longrightarrow> (\<And>k. k \<in> keys t \<Longrightarrow> info_eq (I' k) (I k)) \<Longrightarrow> look I' t key = look I t key"
    and inv_frame: "inv I t \<Longrightarrow> (\<And>k. k \<in> keys t \<Longrightarrow> info_eq (I' k) (I k)) \<Longrightarrow> inv I' t"
    and look_key: "inv I t \<Longrightarrow> info_eq key key' \<Longrightarrow> look I t key = look I t key'"
begin

text \<open>What has just been inserted is found, also after other descriptors have been written.\<close>

lemma found_again:
  assumes "inv I t" "ins I k e t = Some t'" "\<And>j. j \<in> insert k (keys t) \<Longrightarrow> info_eq (I' j) (I j)" "info_eq (I k) key"
  shows "look I' t' key = Some e"
proof -
  have "look I' t' key = look I t' key"
    using look_frame [of I t' I' key] ins_inv [OF assms(1,2)] ins_keys [OF assms(2)] assms(3) by blast
  with ins_look [OF assms(1,2), of key] assms(4) show ?thesis by simp
qed

lemma others_kept:
  assumes "inv I t" "ins I k e t = Some t'" "\<And>j. j \<in> insert k (keys t) \<Longrightarrow> info_eq (I' j) (I j)" "\<not> info_eq (I k) key"
  shows "look I' t' key = look I t key"
proof -
  have "look I' t' key = look I t' key"
    using look_frame [of I t' I' key] ins_inv [OF assms(1,2)] ins_keys [OF assms(2)] assms(3) by blast
  with ins_look [OF assms(1,2), of key] assms(4) show ?thesis by simp
qed

end

section \<open>The hash table keeps the contract\<close>

lemma info_eq_refl [simp]: "info_eq i i"
  and info_eq_sym: "info_eq i j \<longleftrightarrow> info_eq j i"
  and info_eq_trans: "info_eq i j \<Longrightarrow> info_eq j k \<Longrightarrow> info_eq i k"
  by (auto simp: info_eq_def)

lemma ht_hash_cong: "info_eq i j \<Longrightarrow> ht_hash n i = ht_hash n j"
  by (simp add: info_eq_def ht_hash_def)

definition ht_keys :: "union_hashtable \<times> allocator \<Rightarrow> dfsan_label set" where
  "ht_keys ta = {k. \<exists>b e. (k, e) \<in> set (bucket (fst ta) b)}"

text \<open>Every entry is in the bucket of its key.\<close>

definition ht_inv :: "infos \<Rightarrow> union_hashtable \<times> allocator \<Rightarrow> bool" where
  "ht_inv I ta \<longleftrightarrow> (\<forall>b k e. (k, e) \<in> set (bucket (fst ta) b) \<longrightarrow> ht_hash (bucket_size (fst ta)) (I k) = b)"

lemma chain_find_cong:
  "\<forall>k \<in> fst ` set xs. info_eq (I' k) key' \<longleftrightarrow> info_eq (I k) key \<Longrightarrow> chain_find I' key' xs = chain_find I key xs"
  by (induction xs) auto

lemma ht_insertD:
  assumes "ht_insert I k e t = Some t'"
  shows "bucket_size (fst t') = bucket_size (fst t)"
    "bucket (fst t') = (bucket (fst t))(ht_hash (bucket_size (fst t)) (I k) :=
        (k, e) # bucket (fst t) (ht_hash (bucket_size (fst t)) (I k)))"
  using assms by (auto simp: ht_insert_def case_prod_beta Let_def split: Option.bind_splits)

lemma ht_insert_keys:
  assumes "ht_insert I k e t = Some t'"
  shows "ht_keys t' = insert k (ht_keys t)"
proof (rule set_eqI)
  fix x
  have "x \<in> ht_keys t'" if "(x, ea) \<in> set (bucket (fst t) b)" for b ea
  proof -
    have "(x, ea) \<in> set (bucket (fst t') b)" using that ht_insertD(2) [OF assms] by auto
    then show ?thesis by (auto simp: ht_keys_def)
  qed
  moreover have "(k, e) \<in> set (bucket (fst t') (ht_hash (bucket_size (fst t)) (I k)))"
    using ht_insertD(2) [OF assms] by simp
  moreover have "x = k \<or> x \<in> ht_keys t" if "(x, ea) \<in> set (bucket (fst t') b)" for b ea
    using that ht_insertD(2) [OF assms] by (auto simp: ht_keys_def split: if_splits)
  ultimately show "x \<in> ht_keys t' \<longleftrightarrow> x \<in> insert k (ht_keys t)"
    by (auto simp: ht_keys_def)
qed

interpretation ht: label_table "\<lambda>I ta. ht_lookup I (fst ta)" ht_insert ht_keys ht_inv
proof unfold_locales
  fix I I' :: infos and t t' :: "union_hashtable \<times> allocator" and k e key key'
  show "ht_keys t' = insert k (ht_keys t)" if "ht_insert I k e t = Some t'"
    by (rule ht_insert_keys [OF that])
  show "ht_inv I t'" if "ht_inv I t" "ht_insert I k e t = Some t'"
    using that(1) ht_insertD [OF that(2)] by (auto simp: ht_inv_def)
  show "ht_lookup I (fst t') key = (if info_eq (I k) key then Some e else ht_lookup I (fst t) key)"
    if "ht_inv I t" "ht_insert I k e t = Some t'"
    using ht_insertD [OF that(2)] by (auto simp: ht_lookup_def ht_hash_cong)
  show "ht_lookup I' (fst t) key = ht_lookup I (fst t) key"
    if "ht_inv I t" "\<And>k. k \<in> ht_keys t \<Longrightarrow> info_eq (I' k) (I k)"
  proof -
    have "info_eq (I' k) key = info_eq (I k) key" if "k \<in> ht_keys t" for k
      using \<open>\<And>k. k \<in> ht_keys t \<Longrightarrow> info_eq (I' k) (I k)\<close> [OF that] info_eq_sym info_eq_trans by metis
    moreover have "fst ` set (bucket (fst t) b) \<subseteq> ht_keys t" for b unfolding ht_keys_def by force
    ultimately show ?thesis unfolding ht_lookup_def by (intro chain_find_cong) blast
  qed
  show "ht_inv I' t" if "ht_inv I t" "\<And>k. k \<in> ht_keys t \<Longrightarrow> info_eq (I' k) (I k)"
    unfolding ht_inv_def
  proof (intro allI impI)
    fix b k e assume m: "(k, e) \<in> set (bucket (fst t) b)"
    then have "info_eq (I' k) (I k)" using that(2) by (auto simp: ht_keys_def)
    then show "ht_hash (bucket_size (fst t)) (I' k) = b"
      using that(1) m unfolding ht_inv_def ht_hash_cong [OF \<open>info_eq (I' k) (I k)\<close>] by blast
  qed
  show "ht_lookup I (fst t) key = ht_lookup I (fst t) key'" if "ht_inv I t" "info_eq key key'"
    unfolding ht_lookup_def ht_hash_cong [OF that(2)]
    using that(2) info_eq_sym info_eq_trans by (intro chain_find_cong) metis
qed

end
