(* ===== verification/Taint_Rt.thy ===== *)
theory Taint_Rt
  imports Taint_Table
begin

text \<open>
  The taint runtime (\<open>llvm_mode/dfsan_rt/dfsan/dfsan.cc\<close>, \<open>dfsan.h\<close>, \<open>dfsan_platform.h\<close>): the
  address mapping, creation and union of labels, loading and storing labels through the
  shadow memory, and the events sent to the solver. The runtime is a record that every
  operation returns updated; \<open>None\<close> stands for \<open>Die()\<close>, a failed assertion or a loop that
  does not end. Messages on stderr and stdout are not modelled.
\<close>

section \<open>Address mapping (x86-64)\<close>

definition kShadowAddr :: u64 where "kShadowAddr = 0x10000"
definition kHashTableAddr :: u64 where "kHashTableAddr = 0x400000000000"
definition kUnionTableAddr :: u64 where "kUnionTableAddr = 0x400100000000"
definition kAppAddr :: u64 where "kAppAddr = 0x700000040000"
definition kAppBaseAddr :: u64 where "kAppBaseAddr = 0x700000000000"
definition kShadowMask :: u64 where "kShadowMask = NOT 0x700000000000"

definition UnusedAddr :: u64 where
  "UnusedAddr = kUnionTableAddr + 0xc00000000"

definition shadow_for :: "u64 \<Rightarrow> u64" where
  "shadow_for ptr = push_bit 2 (ptr AND kShadowMask)"

definition app_for :: "u64 \<Rightarrow> u64" where
  "app_for l = drop_bit 2 l OR kAppBaseAddr"

section \<open>Operators\<close>

text \<open>Opcode numbers: \<open>enum operators\<close> with the numbering of LLVM 6, as \<open>rgd_op.h\<close> records it.\<close>

definition OP_Not :: u16 where "OP_Not = 1"
definition OP_Neg :: u16 where "OP_Neg = 2"
definition OP_Add :: u16 where "OP_Add = 11"
definition OP_Mul :: u16 where "OP_Mul = 15"
definition OP_And :: u16 where "OP_And = 26"
definition OP_Or :: u16 where "OP_Or = 27"
definition OP_Xor :: u16 where "OP_Xor = 28"
definition OP_Trunc :: u16 where "OP_Trunc = 36"
definition OP_ICmp :: u16 where "OP_ICmp = 51"
definition OP_Load :: u16 where "OP_Load = 67"
definition OP_Extract :: u16 where "OP_Extract = 68"
definition OP_Concat :: u16 where "OP_Concat = 69"
definition OP_fmemcmp :: u16 where "OP_fmemcmp = 70"
definition OP_fsize :: u16 where "OP_fsize = 71"

lemmas op_defs = OP_Not_def OP_Neg_def OP_Add_def OP_Mul_def OP_And_def OP_Or_def OP_Xor_def OP_Trunc_def
  OP_ICmp_def OP_Load_def OP_Extract_def OP_Concat_def OP_fmemcmp_def OP_fsize_def

text \<open>The parameter of \<open>is_commutative\<close> is an \<open>unsigned char\<close>: the opcode is cut to its low byte.\<close>

definition is_commutative :: "u16 \<Rightarrow> bool" where
  "is_commutative op =
     (let c = ucast (ucast op :: u8) in c \<in> {OP_Not, OP_And, OP_Or, OP_Xor, OP_Add, OP_Mul, OP_fmemcmp})"

definition CONST_OFFSET :: u32 where "CONST_OFFSET = 1"
definition CONST_LABEL :: u32 where "CONST_LABEL = 0"
definition kInitializingLabel :: u32 where "kInitializingLabel = - 1"
definition B_FLIPPED :: u8 where "B_FLIPPED = 1"

lemmas label_consts = CONST_OFFSET_def CONST_LABEL_def kInitializingLabel_def B_FLIPPED_def

section \<open>State\<close>

record pipe_msg =
  msg_type :: u32
  msg_tid :: u32
  msg_label :: u32
  msg_result :: u64
  msg_addr :: u64
  msg_ctx :: u64
  msg_localcnt :: u32
  msg_bid :: u32
  msg_sctx :: u32
  msg_predicate :: u32
  msg_target_cond :: u64

text \<open>What is written to the pipe: messages, and the raw bytes that follow one of type 2.\<close>

datatype pipe_event = Msg pipe_msg | Raw "u8 list"

record taint_file =
  tf_filename :: string
  tf_fd :: "32 word"
  tf_offset :: u64
  tf_offset_label :: dfsan_label
  tf_size :: u64
  is_stdin :: u8
  is_utmp :: u8

record rt =
  last_label :: dfsan_label
  label_info :: infos
  union_table :: "union_hashtable \<times> allocator"
  shadow_mem :: "u64 \<Rightarrow> dfsan_label"
  app_mem :: "u64 \<Rightarrow> u8"
  pipe :: "pipe_event list"
  branches :: "u32 \<times> u64 \<rightharpoonup> u16"
  tainted :: taint_file
  callstack :: u32
  angora_context :: u32
  rt_tid :: u32
  solver_select :: u32

definition send :: "pipe_event \<Rightarrow> rt \<Rightarrow> rt" where
  "send e s = s\<lparr>pipe := pipe s @ [e]\<rparr>"

section \<open>Labels\<close>

text \<open>\<open>sizeof(dfsan_label_info)\<close> is 48.\<close>

definition dfsan_check_label :: "dfsan_label \<Rightarrow> bool" where
  "dfsan_check_label label =
     (label \<noteq> kInitializingLabel \<and> \<not> UnusedAddr \<le> kUnionTableAddr + 48 * ucast label)"

definition rotl32 :: "u32 \<Rightarrow> nat \<Rightarrow> u32" where
  "rotl32 x r = push_bit r x OR drop_bit (32 - r) x"

definition xxhash :: "u32 \<Rightarrow> u32 \<Rightarrow> u32 \<Rightarrow> u32" where
  "xxhash h1 h2 h3 =
     (let P2 = 2246822519; P3 = 3266489917; P4 = 668265263; P5 = 374761393;
          a = rotl32 (P5 + h1 * P3) 17 * P4;
          b = rotl32 (a + h2 * P3) 17 * P4;
          c = rotl32 (b + h3 * P3) 17 * P4;
          d = (c XOR drop_bit 15 c) * P2;
          e = (d XOR drop_bit 13 d) * P3
      in e XOR drop_bit 16 e)"

definition is_constant_label :: "dfsan_label \<Rightarrow> bool" where
  "is_constant_label label = (label = CONST_LABEL)"

definition is_kind_of_label :: "rt \<Rightarrow> dfsan_label \<Rightarrow> u16 \<Rightarrow> bool" where
  "is_kind_of_label s label k = (lop (label_info s label) = k)"

definition read_bytes :: "(u64 \<Rightarrow> u8) \<Rightarrow> u64 \<Rightarrow> nat \<Rightarrow> u8 list" where
  "read_bytes mem p n = map (\<lambda>i. mem (p + of_nat i)) [0..<n]"

text \<open>The descriptor \<open>__taint_union\<close> looks up: operands in order, no concrete value for a symbolic one.\<close>

definition union_key :: "dfsan_label \<Rightarrow> dfsan_label \<Rightarrow> u16 \<Rightarrow> u16 \<Rightarrow> u64 \<Rightarrow> u64 \<Rightarrow> dfsan_label_info" where
  "union_key a b op n c1 c2 =
     info_zero\<lparr>l1 := a, l2 := b, op1 := (if CONST_OFFSET \<le> a then 0 else c1), op2 := (if CONST_OFFSET \<le> b then 0 else c2),
               lop := op, lsize := n\<rparr>"

text \<open>The descriptor of a new label: hash and depth come from the descriptors of the operands.\<close>

definition fresh_info :: "dfsan_label_info \<Rightarrow> infos \<Rightarrow> dfsan_label_info" where
  "fresh_info key I =
     (let a = l1 key; b = l2 key;
          h1 = (if a \<noteq> 0 then lhash (I a) else 0);
          h2 = (if b \<noteq> 0 then lhash (I b) else 0);
          h3 = push_bit 16 (ucast (lop key)) OR ucast (lsize key);
          left = (if a \<noteq> 0 then depth (I a) else 0);
          right = (if b \<noteq> 0 then depth (I b) else 0)
      in key\<lparr>lhash := xxhash h1 h2 h3, depth := (if right < left then left + 1 else right + 1)\<rparr>)"

text \<open>For a comparison of memory with a concrete left side its bytes are sent along.\<close>

definition send_memcmp :: "dfsan_label_info \<Rightarrow> rt \<Rightarrow> rt" where
  "send_memcmp key s =
     (if lop key = OP_fmemcmp \<and> l1 key = 0 \<and> l2 key \<noteq> 0
      then send (Raw (read_bytes (app_mem s) (op1 key) (unat (lsize key))))
             (send (Msg \<lparr>msg_type = 2, msg_tid = rt_tid s, msg_label = l2 key, msg_result = ucast (lsize key),
                msg_addr = 0, msg_ctx = 0, msg_localcnt = 0, msg_bid = 0, msg_sctx = 0, msg_predicate = 0,
                msg_target_cond = 0\<rparr>) s)
      else s)"

text \<open>The second half of \<open>__taint_union\<close>: a new label for a descriptor that is not in the table.\<close>

definition union_fresh :: "dfsan_label_info \<Rightarrow> rt \<Rightarrow> (dfsan_label \<times> rt) option" where
  "union_fresh key s =
     (let l = last_label s
      in if \<not> (l1 key \<le> l \<and> l2 key \<le> l) then None
         else (let label = l + 1; s1 = s\<lparr>last_label := label\<rparr>
               in if \<not> dfsan_check_label label then None
                  else if \<not> (l1 key < label \<and> l2 key < label) then None
                  else (let info = fresh_info key (label_info s1); s2 = send_memcmp key s1;
                            s3 = s2\<lparr>label_info := (label_info s2)(label := info)\<rparr>
                        in do { t \<leftarrow> ht_insert (label_info s3) label label (union_table s3);
                                Some (label, s3\<lparr>union_table := t\<rparr>) })))"

text \<open>Operands of a commutative operator are put in order.\<close>

definition order_operands ::
  "u16 \<Rightarrow> dfsan_label \<Rightarrow> dfsan_label \<Rightarrow> u64 \<Rightarrow> u64 \<Rightarrow> dfsan_label \<times> dfsan_label \<times> u64 \<times> u64" where
  "order_operands op x y v1 v2 = (if y < x \<and> is_commutative op then (y, x, v2, v1) else (x, y, v1, v2))"

definition taint_union ::
  "dfsan_label \<Rightarrow> dfsan_label \<Rightarrow> u16 \<Rightarrow> u16 \<Rightarrow> u64 \<Rightarrow> u64 \<Rightarrow> rt \<Rightarrow> (dfsan_label \<times> rt) option" where
  "taint_union x y op n v1 v2 s =
     (let (a, b, c1, c2) = order_operands op x y v1 v2
      in if a = 0 \<and> b < CONST_OFFSET \<and> op \<noteq> OP_fsize then Some (0, s)
         else if a = kInitializingLabel \<or> b = kInitializingLabel then Some (kInitializingLabel, s)
         else (let key = union_key a b op n c1 c2
               in case ht_lookup (label_info s) (fst (union_table s)) key of
                    Some label \<Rightarrow> Some (label, s)
                  | None \<Rightarrow> union_fresh key s))"

text \<open>\<open>dfsan_union\<close> takes its size as an \<open>u8\<close>.\<close>

definition dfsan_union ::
  "dfsan_label \<Rightarrow> dfsan_label \<Rightarrow> u16 \<Rightarrow> u8 \<Rightarrow> u64 \<Rightarrow> u64 \<Rightarrow> rt \<Rightarrow> (dfsan_label \<times> rt) option" where
  "dfsan_union a b op n c1 c2 s = taint_union a b op (ucast n) c1 c2 s"

definition dfsan_create_label :: "u64 \<Rightarrow> rt \<Rightarrow> (dfsan_label \<times> rt) option" where
  "dfsan_create_label offset s =
     (let label = last_label s + 1
      in if \<not> dfsan_check_label label then None
         else Some (label, s\<lparr>last_label := label,
                             label_info := (label_info s)(label := info_zero\<lparr>lsize := 8, op1 := offset\<rparr>)\<rparr>))"

section \<open>Loading labels\<close>

text \<open>A pointer to labels is a shadow address; its \<open>i\<close>-th element is four bytes further on.\<close>

definition label_at :: "rt \<Rightarrow> u64 \<Rightarrow> nat \<Rightarrow> dfsan_label" where
  "label_at s ls i = shadow_mem s (ls + 4 * of_nat i)"

text \<open>The test for consecutive input bytes; \<open>None\<close> when it meets an uninitialised label.\<close>

fun shape_loop :: "rt \<Rightarrow> u64 \<Rightarrow> u64 \<Rightarrow> nat list \<Rightarrow> bool option" where
  "shape_loop s ls offset [] = Some True"
| "shape_loop s ls offset (i # is) =
     (if label_at s ls i = kInitializingLabel then None
      else if op1 (label_info s (label_at s ls i)) \<noteq> offset + of_nat i then Some False
      else shape_loop s ls offset is)"

text \<open>The bits covered by leading labels that are consecutive extracts of \<open>parent\<close>.\<close>

fun extract_loop :: "rt \<Rightarrow> u64 \<Rightarrow> dfsan_label \<Rightarrow> u64 \<Rightarrow> nat list \<Rightarrow> u64" where
  "extract_loop s ls parent offset [] = offset"
| "extract_loop s ls parent offset (i # is) =
     (let l = label_at s ls i; info = label_info s l
      in if \<not> is_kind_of_label s l OP_Extract \<or> offset \<noteq> op2 info \<or> parent \<noteq> l1 info then offset
         else extract_loop s ls parent (offset + ucast (lsize info)) is)"

text \<open>The slow path concatenates the labels from byte \<open>i\<close> on; a character is sign-extended.\<close>

partial_function (option) concat_loop ::
  "u64 \<Rightarrow> nat \<Rightarrow> dfsan_label \<Rightarrow> nat \<Rightarrow> rt \<Rightarrow> (dfsan_label \<times> rt) option" where
  "concat_loop ls n label i s =
     (if n \<le> i then Some (label, s)
      else (let nxt = label_at s ls i; next_size = unat (lsize (label_info s nxt))
            in if \<not> is_constant_label nxt
               then if next_size \<le> (n - i) * 8
                    then (let i' = i + next_size div 8
                          in case taint_union label nxt OP_Concat (of_nat (i' * 8)) 0 0 s of
                               None \<Rightarrow> None | Some (label', s') \<Rightarrow> concat_loop ls n label' i' s')
                    else (case taint_union nxt CONST_LABEL OP_Trunc (of_nat ((n - i) * 8)) 0 0 s of
                            None \<Rightarrow> None
                          | Some (trunc, s') \<Rightarrow> taint_union label trunc OP_Concat (of_nat (n * 8)) 0 0 s')
               else (let c = app_mem s (app_for (ls + 4 * of_nat i))
                     in case taint_union label 0 OP_Concat (of_nat (Suc i * 8)) 0 (scast c) s of
                          None \<Rightarrow> None | Some (label', s') \<Rightarrow> concat_loop ls n label' (Suc i) s')))"

definition load_slow :: "u64 \<Rightarrow> nat \<Rightarrow> dfsan_label \<Rightarrow> rt \<Rightarrow> (dfsan_label \<times> rt) option" where
  "load_slow ls n label0 s =
     (let info0 = label_info s label0; parent = l1 info0;
          offset = (if is_kind_of_label s label0 OP_Extract then extract_loop s ls parent 0 [0..<n] else 0)
      in if is_kind_of_label s label0 OP_Extract \<and> ucast (lsize (label_info s parent)) = offset \<and> offset = of_nat (n * 8)
         then Some (parent, s)
         else concat_loop ls n label0 (unat (lsize info0) div 8) s)"

text \<open>
  \<open>__taint_union_load\<close>. With \<open>n = 0\<close> and a tainted first label the test for consecutive
  bytes would run past the end; the callers pass at least one byte and the model stops there.
\<close>

definition taint_union_load :: "u64 \<Rightarrow> nat \<Rightarrow> rt \<Rightarrow> (dfsan_label \<times> rt) option" where
  "taint_union_load ls n s =
     (let label0 = label_at s ls 0; info0 = label_info s label0
      in if label0 = kInitializingLabel then Some (kInitializingLabel, s)
         else if CONST_OFFSET \<le> label0 \<and> lsize info0 = 0 then None
         else if is_constant_label label0 \<and> list_all (\<lambda>i. is_constant_label (label_at s ls i)) [1..<n]
         then Some (CONST_LABEL, s)
         else if n = 0 then None
         else if lop info0 \<noteq> 0 then load_slow ls n label0 s
         else (case shape_loop s ls (op1 info0) [1..<n] of
                 None \<Rightarrow> Some (kInitializingLabel, s)
               | Some True \<Rightarrow>
                   if n = 1 then Some (label0, s)
                   else taint_union label0 (of_nat n) OP_Load (of_nat (n * 8)) 0 0 s
               | Some False \<Rightarrow> load_slow ls n label0 s))"

section \<open>Storing labels\<close>

definition set_label_at :: "u64 \<Rightarrow> nat \<Rightarrow> dfsan_label \<Rightarrow> rt \<Rightarrow> rt" where
  "set_label_at ls i l s = s\<lparr>shadow_mem := (shadow_mem s)(ls + 4 * of_nat i := l)\<rparr>"

fun fill_labels :: "(nat \<Rightarrow> dfsan_label) \<Rightarrow> u64 \<Rightarrow> nat list \<Rightarrow> rt \<Rightarrow> rt" where
  "fill_labels g ls [] s = s"
| "fill_labels g ls (i # is) s = fill_labels g ls is (set_label_at ls i (g i) s)"

fun extract_all :: "dfsan_label \<Rightarrow> u64 \<Rightarrow> nat list \<Rightarrow> rt \<Rightarrow> rt option" where
  "extract_all l ls [] s = Some s"
| "extract_all l ls (i # is) s =
     do { (e, s') \<leftarrow> taint_union l CONST_LABEL OP_Extract 8 0 (of_nat (i * 8)) s;
          extract_all l ls is (set_label_at ls i e s') }"

definition taint_union_store :: "dfsan_label \<Rightarrow> u64 \<Rightarrow> nat \<Rightarrow> rt \<Rightarrow> rt option" where
  "taint_union_store l ls n s =
     (if l = kInitializingLabel then Some (fill_labels (\<lambda>_. l) ls [0..<n] s)
      else if \<not> l \<le> last_label s then None
      else if l = 0 then Some (fill_labels (\<lambda>_. l) ls [0..<n] s)
      else (let info = label_info s l
            in if n = 1 \<and> lsize info = 8 then Some (set_label_at ls 0 l s)
               else if is_kind_of_label s l OP_Load
               then Some (fill_labels (\<lambda>i. l1 info + of_nat i) ls [0..<n] s)
               else extract_all l ls [0..<n] s))"

definition dfsan_store_label :: "dfsan_label \<Rightarrow> u64 \<Rightarrow> nat \<Rightarrow> rt \<Rightarrow> rt option" where
  "dfsan_store_label l addr n s = (if l = 0 then Some s else taint_union_store l (shadow_for addr) n s)"

fun dfsan_set_label :: "dfsan_label \<Rightarrow> u64 \<Rightarrow> nat \<Rightarrow> rt \<Rightarrow> rt" where
  "dfsan_set_label label labelp 0 s = s"
| "dfsan_set_label label labelp (Suc n) s =
     dfsan_set_label label (labelp + 4) n
       (if label = shadow_mem s labelp then s else s\<lparr>shadow_mem := (shadow_mem s)(labelp := label)\<rparr>)"

fun dfsan_add_label :: "dfsan_label \<Rightarrow> u8 \<Rightarrow> u64 \<Rightarrow> nat \<Rightarrow> rt \<Rightarrow> rt option" where
  "dfsan_add_label label op labelp 0 s = Some s"
| "dfsan_add_label label op labelp (Suc n) s =
     do { (l, s') \<leftarrow> taint_union (shadow_mem s labelp) label (ucast op) 1 0 0 s;
          dfsan_add_label label op (labelp + 4) n (s'\<lparr>shadow_mem := (shadow_mem s')(labelp := l)\<rparr>) }"

definition dfsan_read_label :: "u64 \<Rightarrow> nat \<Rightarrow> rt \<Rightarrow> (dfsan_label \<times> rt) option" where
  "dfsan_read_label addr n s = (if n = 0 then Some (0, s) else taint_union_load (shadow_for addr) n s)"

definition dfsan_get_label :: "u64 \<Rightarrow> rt \<Rightarrow> dfsan_label" where
  "dfsan_get_label addr s = shadow_mem s (shadow_for addr)"

text \<open>\<open>dfsan_has_label\<close> follows the left operand of a label, the right one only if there is no left.\<close>

partial_function (option) dfsan_has_label :: "infos \<Rightarrow> dfsan_label \<Rightarrow> dfsan_label \<Rightarrow> bool option" where
  "dfsan_has_label I label elem =
     (if label = elem then Some True
      else if l1 (I label) \<noteq> 0 then dfsan_has_label I (l1 (I label)) elem
      else if l2 (I label) \<noteq> 0 then dfsan_has_label I (l2 (I label)) elem
      else Some False)"

declare concat_loop.simps [code] dfsan_has_label.simps [code]

definition dfsan_get_label_count :: "rt \<Rightarrow> u64" where
  "dfsan_get_label_count s = ucast (last_label s)"

end
