(* ===== verification/Taint_Inv.thy ===== *)
theory Taint_Inv
  imports Taint_Rt
begin

text \<open>
  The invariant of the label space: labels are numbered in the order of creation, operands of
  a label are older than the label, and the union table holds exactly one label per
  descriptor. Every operation of the runtime keeps it and never changes an existing label.
\<close>

section \<open>Bounds\<close>

lemma check_label_bound: "dfsan_check_label l \<longleftrightarrow> unat l < 2 ^ 30"
proof -
  have l: "unat l < 4294967296" by (rule unat_lt_u32)
  have m: "unat (48 * (ucast l :: u64)) = 48 * unat l"
    by (simp add: unat_word_ariths) (rule mod_less, use l in linarith)
  have "unat (kUnionTableAddr + 48 * ucast l) = 70373039144960 + 48 * unat l"
    unfolding kUnionTableAddr_def by (simp add: unat_word_ariths(1) m) (rule mod_less, use l in linarith)
  then have "UnusedAddr \<le> kUnionTableAddr + 48 * ucast l \<longleftrightarrow> 2 ^ 30 \<le> unat l"
    by (simp add: word_le_nat_alt UnusedAddr_def kUnionTableAddr_def)
  moreover have "l = kInitializingLabel \<Longrightarrow> unat l = 4294967295"
    by (simp add: kInitializingLabel_def unsigned_minus_1_eq_mask mask_eq_exp_minus_1)
  ultimately show ?thesis
    unfolding dfsan_check_label_def by (cases "l = kInitializingLabel") auto
qed

lemma next_label:
  assumes "unat l < 2 ^ 30"
  shows "unat (l + 1) = Suc (unat l)" "l < l + 1" "l + 1 \<noteq> (0 :: u32)" "(x :: u32) \<le> l + 1 \<longleftrightarrow> x \<le> l \<or> x = l + 1"
proof -
  show u: "unat (l + 1) = Suc (unat l)" using assms by (simp add: unat_word_ariths)
  then show "l < l + 1" "l + 1 \<noteq> 0" by (auto simp: word_less_nat_alt)
  show "x \<le> l + 1 \<longleftrightarrow> x \<le> l \<or> x = l + 1"
    using u by (auto simp: word_le_nat_alt word_unat_eq_iff)
qed

section \<open>The invariant\<close>

definition lookup_key :: "rt \<Rightarrow> dfsan_label_info \<Rightarrow> dfsan_label option" where
  "lookup_key s key = ht_lookup (label_info s) (fst (union_table s)) key"

definition rt_inv :: "rt \<Rightarrow> bool" where
  "rt_inv s \<longleftrightarrow> unat (last_label s) < 2 ^ 30
     \<and> ht_inv (label_info s) (union_table s)
     \<and> (\<forall>k \<in> ht_keys (union_table s). 0 < k \<and> k \<le> last_label s \<and> lookup_key s (label_info s k) = Some k)
     \<and> (\<forall>key k. lookup_key s key = Some k \<longrightarrow> k \<in> ht_keys (union_table s) \<and> info_eq (label_info s k) key)
     \<and> (\<forall>l. 0 < l \<and> l \<le> last_label s \<longrightarrow> l1 (label_info s l) < l \<and> l2 (label_info s l) < l)"

text \<open>Later states know at least the labels of earlier ones, with the same descriptors.\<close>

definition rt_le :: "rt \<Rightarrow> rt \<Rightarrow> bool" where
  "rt_le s s' \<longleftrightarrow> last_label s \<le> last_label s'
     \<and> (\<forall>l \<le> last_label s. info_eq (label_info s' l) (label_info s l))
     \<and> ht_keys (union_table s) \<subseteq> ht_keys (union_table s')"

lemma rt_le_refl [simp]: "rt_le s s"
  by (simp add: rt_le_def)

lemma rt_le_trans: "rt_le s t \<Longrightarrow> rt_le t u \<Longrightarrow> rt_le s u"
  unfolding rt_le_def by (meson info_eq_trans order_trans subset_trans)

lemma fresh_info_key [simp]:
  "info_eq (fresh_info key I) key" "lflags (fresh_info key I) = lflags key"
  by (simp_all add: fresh_info_def Let_def info_eq_def)

lemma send_memcmp_pipe: "\<exists>p. send_memcmp key s = s\<lparr>pipe := p\<rparr>"
proof -
  have "\<exists>p. s = s\<lparr>pipe := p\<rparr>" by (rule exI [of _ "pipe s"]) simp
  then show ?thesis by (auto simp: send_memcmp_def send_def)
qed

lemma union_freshE:
  assumes "union_fresh key s = Some (l, s')"
  obtains t p where "l = last_label s + 1" "dfsan_check_label l" "l1 key \<le> last_label s" "l2 key \<le> last_label s"
    "ht_insert ((label_info s)(l := fresh_info key (label_info s))) l l (union_table s) = Some t"
    "s' = s\<lparr>last_label := l, label_info := (label_info s)(l := fresh_info key (label_info s)), union_table := t, pipe := p\<rparr>"
proof -
  obtain p where p: "send_memcmp key (s\<lparr>last_label := last_label s + 1\<rparr>) = s\<lparr>last_label := last_label s + 1, pipe := p\<rparr>"
    using send_memcmp_pipe [of key "s\<lparr>last_label := last_label s + 1\<rparr>"] by blast
  show thesis
    using assms that [of _ p]
    by (auto simp: union_fresh_def Let_def p split: if_splits Option.bind_splits)
qed

lemma union_fresh_ok:
  assumes "rt_inv s" "lookup_key s key = None" "union_fresh key s = Some (l, s')"
  shows "rt_inv s' \<and> rt_le s s' \<and> lookup_key s' key = Some l \<and> l = last_label s + 1 \<and> last_label s' = l
    \<and> shadow_mem s' = shadow_mem s \<and> app_mem s' = app_mem s"
proof -
  define info where "info = fresh_info key (label_info s)"
  have info: "info_eq info key" by (simp add: info_def)
  from assms(3) obtain t p where l: "l = last_label s + 1" and chk: "dfsan_check_label l"
    and old: "l1 key \<le> last_label s" "l2 key \<le> last_label s"
    and ins: "ht_insert ((label_info s)(l := info)) l l (union_table s) = Some t"
    and s': "s' = s\<lparr>last_label := l, label_info := (label_info s)(l := info), union_table := t, pipe := p\<rparr>"
    unfolding info_def by (rule union_freshE)
  let ?I = "(label_info s)(l := info)"
  from assms(1) have bnd: "unat (last_label s) < 2 ^ 30" and hi: "ht_inv (label_info s) (union_table s)"
    and ks: "\<And>k. k \<in> ht_keys (union_table s) \<Longrightarrow> 0 < k \<and> k \<le> last_label s \<and> lookup_key s (label_info s k) = Some k"
    and lk: "\<And>key k. lookup_key s key = Some k \<Longrightarrow> k \<in> ht_keys (union_table s) \<and> info_eq (label_info s k) key"
    and ops: "\<And>l. 0 < l \<and> l \<le> last_label s \<Longrightarrow> l1 (label_info s l) < l \<and> l2 (label_info s l) < l"
    unfolding rt_inv_def by blast+
  note nl = next_label [OF bnd, folded l]
  have notin: "l \<notin> ht_keys (union_table s)" using ks nl(2) by force
  then have same: "info_eq (?I k) (label_info s k)" if "k \<in> ht_keys (union_table s)" for k
    using that by auto
  have hi': "ht_inv ?I (union_table s)" by (rule ht.inv_frame [OF hi same])
  have look0: "ht_lookup ?I (fst (union_table s)) k = lookup_key s k" for k
    unfolding lookup_key_def by (rule ht.look_frame [OF hi same])
  have look: "lookup_key s' k = (if info_eq info k then Some l else lookup_key s k)" for k
    using ht.ins_look [OF hi' ins, of k] look0 by (simp add: lookup_key_def s')
  have keys: "ht_keys (union_table s') = insert l (ht_keys (union_table s))"
    using ht.ins_keys [OF ins] by (simp add: s')
  have fresh: "\<not> info_eq info (label_info s k)" if "k \<in> ht_keys (union_table s)" for k
  proof
    assume "info_eq info (label_info s k)"
    then have "info_eq (label_info s k) key" using info info_eq_sym info_eq_trans by metis
    then have "lookup_key s key = lookup_key s (label_info s k)"
      unfolding lookup_key_def using ht.look_key [OF hi] by metis
    then show False using ks [OF that] assms(2) by simp
  qed
  have "rt_inv s'"
    unfolding rt_inv_def keys
  proof (intro conjI ballI allI impI)
    show "unat (last_label s') < 2 ^ 30" using chk check_label_bound by (simp add: s')
    show "ht_inv (label_info s') (union_table s')" using ht.ins_inv [OF hi' ins] by (simp add: s')
    show "0 < k" "k \<le> last_label s'" "lookup_key s' (label_info s' k) = Some k"
      if "k \<in> insert l (ht_keys (union_table s))" for k
      using that ks nl fresh notin by (auto simp: s' look [unfolded s'] word_gt_0)
    show "k \<in> insert l (ht_keys (union_table s))" "info_eq (label_info s' k) key'"
      if "lookup_key s' key' = Some k" for key' k
      using that [unfolded look] lk [of key' k] notin by (auto simp: s' split: if_splits)
    show "l1 (label_info s' x) < x" "l2 (label_info s' x) < x" if "0 < x \<and> x \<le> last_label s'" for x
      using that ops [of x] nl old info by (auto simp: s' info_eq_def)
  qed
  moreover have "rt_le s s'" unfolding rt_le_def keys using nl by (auto simp: s')
  ultimately show ?thesis using look [of key] info l by (simp add: s')
qed

section \<open>Union\<close>

text \<open>The operands after ordering, and the descriptor of a union that is neither constant nor uninitialised.\<close>

definition const_union :: "dfsan_label \<Rightarrow> dfsan_label \<Rightarrow> u16 \<Rightarrow> bool" where
  "const_union x y op \<longleftrightarrow> x = 0 \<and> y = 0 \<and> op \<noteq> OP_fsize"

definition key_of :: "dfsan_label \<Rightarrow> dfsan_label \<Rightarrow> u16 \<Rightarrow> u16 \<Rightarrow> u64 \<Rightarrow> u64 \<Rightarrow> dfsan_label_info" where
  "key_of x y op n v1 v2 = (let (a, b, c1, c2) = order_operands op x y v1 v2 in union_key a b op n c1 c2)"

lemma taint_union_alt:
  "taint_union x y op n v1 v2 s =
     (if const_union x y op then Some (0, s)
      else if x = kInitializingLabel \<or> y = kInitializingLabel then Some (kInitializingLabel, s)
      else case lookup_key s (key_of x y op n v1 v2) of
             Some label \<Rightarrow> Some (label, s) | None \<Rightarrow> union_fresh (key_of x y op n v1 v2) s)"
proof -
  have lt1: "b < CONST_OFFSET \<longleftrightarrow> b = 0" for b by (auto simp: CONST_OFFSET_def word_less_nat_alt word_unat_eq_iff)
  have z: "\<not> b < (0 :: u32)" for b by simp
  show ?thesis
    unfolding taint_union_def order_operands_def key_of_def const_union_def lookup_key_def
    by (auto simp: lt1 z Let_def split: option.split)
qed

lemma taint_union_ok:
  assumes "rt_inv s" "taint_union x y op n v1 v2 s = Some (l, s')"
  shows "rt_inv s' \<and> rt_le s s' \<and> shadow_mem s' = shadow_mem s \<and> app_mem s' = app_mem s
    \<and> (s' = s \<or> last_label s' = last_label s + 1 \<and> l = last_label s')
    \<and> (if const_union x y op then l = 0 \<and> s' = s
       else if x = kInitializingLabel \<or> y = kInitializingLabel then l = kInitializingLabel \<and> s' = s
       else lookup_key s' (key_of x y op n v1 v2) = Some l)"
proof (cases "const_union x y op \<or> x = kInitializingLabel \<or> y = kInitializingLabel")
  case True
  then show ?thesis using assms by (auto simp: taint_union_alt split: if_splits)
next
  case False
  show ?thesis
  proof (cases "lookup_key s (key_of x y op n v1 v2)")
    case None
    then have "union_fresh (key_of x y op n v1 v2) s = Some (l, s')"
      using assms(2) False by (simp add: taint_union_alt)
    from union_fresh_ok [OF assms(1) None this] False show ?thesis by auto
  next
    case (Some a)
    then show ?thesis using assms False by (auto simp: taint_union_alt)
  qed
qed

lemma taint_union_label:
  assumes "rt_inv s" "taint_union x y op n v1 v2 s = Some (l, s')"
    and "\<not> const_union x y op" "x \<noteq> kInitializingLabel" "y \<noteq> kInitializingLabel"
  shows "lookup_key s' (key_of x y op n v1 v2) = Some l"
  using taint_union_ok [OF assms(1,2)] assms(3-5) by simp

text \<open>What a lookup that succeeds says about the label.\<close>

lemma lookup_keyD:
  assumes "rt_inv s" "lookup_key s key = Some l"
  shows "0 < l" "l \<le> last_label s" "l \<noteq> kInitializingLabel" "info_eq (label_info s l) key" "l \<in> ht_keys (union_table s)"
proof -
  show k: "l \<in> ht_keys (union_table s)" and "info_eq (label_info s l) key" using assms by (auto simp: rt_inv_def)
  show "0 < l" and le: "l \<le> last_label s" using assms(1) k by (auto simp: rt_inv_def)
  have "unat l < 2 ^ 30" using assms(1) le by (auto simp: rt_inv_def word_le_nat_alt)
  then show "l \<noteq> kInitializingLabel" by (auto simp: kInitializingLabel_def unsigned_minus_1_eq_mask mask_eq_exp_minus_1)
qed

lemma lookup_key_le:
  assumes "rt_inv s" "rt_inv s'" "rt_le s s'" "lookup_key s key = Some l"
  shows "lookup_key s' key = Some l"
proof -
  note d = lookup_keyD [OF assms(1,4)]
  have e: "info_eq (label_info s' l) (label_info s l)" using assms(3) d(2) by (auto simp: rt_le_def)
  have "lookup_key s' (label_info s' l) = Some l"
    using assms(2,3) d(5) by (auto simp: rt_inv_def rt_le_def)
  moreover have "lookup_key s' key = lookup_key s' (label_info s' l)"
    unfolding lookup_key_def
    using ht.look_key assms(2) info_eq_trans [OF e d(4)] info_eq_sym unfolding rt_inv_def by metis
  ultimately show ?thesis by simp
qed

lemma key_of_comm: "is_commutative op \<Longrightarrow> key_of x y op n v1 v2 = key_of y x op n v2 v1 \<or> x = y"
  by (auto simp: key_of_def order_operands_def)

end
