(* ===== verification/Taint_Mem.thy ===== *)
theory Taint_Mem
  imports Taint_Inv
begin

text \<open>
  Labels in memory: the address mapping, the operations on the shadow memory keep the
  invariant, and what is stored is what is loaded.
\<close>

section \<open>Address mapping\<close>

lemma bit_base: "bit (0x700000000000 :: u64) n \<longleftrightarrow> n \<in> {44, 45, 46}"
proof -
  have "(0x700000000000 :: u64) = push_bit 44 (mask 3)" by (simp add: mask_eq_exp_minus_1)
  then show ?thesis by (simp only: bit_push_bit_iff bit_mask_iff) auto
qed

lemma bit_kAppBaseAddr: "bit kAppBaseAddr n \<longleftrightarrow> n \<in> {44, 45, 46}"
  unfolding kAppBaseAddr_def by (rule bit_base)

lemma bit_kShadowMask: "bit kShadowMask n \<longleftrightarrow> n < 64 \<and> n \<notin> {44, 45, 46}"
  unfolding kShadowMask_def bit_not_iff bit_base by (auto simp: possible_bit_word)

lemma app_bits:
  assumes "kAppBaseAddr \<le> p" "p < 0x800000000000" "44 \<le> n"
  shows "bit p n \<longleftrightarrow> n \<in> {44, 45, 46}"
proof -
  have "0x700000000000 \<le> unat p" "unat p < 0x800000000000"
    using assms by (simp_all add: kAppBaseAddr_def word_le_nat_alt word_less_nat_alt)
  then have "unat p div 2 ^ 44 = 7" by simp
  moreover have "unat (drop_bit 44 p) = drop_bit 44 (unat p)" by (rule unat_drop_bit_eq)
  ultimately have "drop_bit 44 p = (7 :: u64)" by (simp only: word_unat_eq_iff drop_bit_nat_def) simp
  also have "\<dots> = mask 3" by (simp add: mask_eq_exp_minus_1)
  finally have "bit (drop_bit 44 p) (n - 44) \<longleftrightarrow> n - 44 < 3"
    by (simp only: bit_mask_iff) (use bit_imp_le_length [of "drop_bit 44 p"] in auto)
  with assms(3) show ?thesis by (auto simp: bit_drop_bit_eq)
qed

lemma app_for_shadow_for:
  assumes "kAppBaseAddr \<le> p" "p < 0x800000000000"
  shows "app_for (shadow_for p) = p"
proof (rule bit_word_eqI)
  fix n assume "n < LENGTH(64)"
  then show "bit (app_for (shadow_for p)) n = bit p n"
    using app_bits [OF assms, of n]
    by (cases "44 \<le> n") (auto simp: app_for_def shadow_for_def bit_simps bit_kAppBaseAddr bit_kShadowMask)
qed

lemma unat_shadow_for:
  assumes "kAppBaseAddr \<le> p" "p < 0x800000000000"
  shows "unat (shadow_for p) = 4 * (unat p - 0x700000000000)"
proof -
  let ?x = "p AND kShadowMask"
  have "p = ?x OR kAppBaseAddr"
  proof (rule bit_word_eqI)
    fix n assume "n < LENGTH(64)"
    then show "bit p n = bit (?x OR kAppBaseAddr) n"
      using app_bits [OF assms, of n]
      by (cases "44 \<le> n") (auto simp: bit_simps bit_kAppBaseAddr bit_kShadowMask)
  qed
  also have "\<dots> = ?x + kAppBaseAddr"
    by (rule disjunctive_add [symmetric]) (auto simp: bit_simps bit_kAppBaseAddr bit_kShadowMask)
  finally have "?x = p - kAppBaseAddr" by (simp add: eq_diff_eq)
  then have x: "unat ?x = unat p - 0x700000000000"
    using assms(1) by (simp add: unat_sub kAppBaseAddr_def)
  have lt: "unat p < 0x800000000000" using assms(2) by (simp add: word_less_nat_alt)
  have "unat (shadow_for p) = unat (4 * ?x)"
    by (simp add: shadow_for_def push_bit_eq_mult mult.commute)
  also have "\<dots> = 4 * unat ?x"
    by (simp add: unat_word_ariths) (rule mod_less, use lt x in linarith)
  finally show ?thesis using x by simp
qed

lemma shadow_for_bounds:
  assumes "kAppAddr \<le> p" "p < 0x800000000000"
  shows "kShadowAddr \<le> shadow_for p" "shadow_for p < kHashTableAddr" "unat (shadow_for p) mod 4 = 0"
proof -
  have b: "0x700000040000 \<le> unat p" "unat p < 0x800000000000"
    using assms by (simp_all add: kAppAddr_def word_le_nat_alt word_less_nat_alt)
  have "kAppBaseAddr \<le> p" using b by (simp add: kAppBaseAddr_def word_le_nat_alt)
  then have u: "unat (shadow_for p) = 4 * (unat p - 0x700000000000)" using assms(2) by (rule unat_shadow_for)
  show "kShadowAddr \<le> shadow_for p" "shadow_for p < kHashTableAddr" "unat (shadow_for p) mod 4 = 0"
    using b by (simp_all add: kShadowAddr_def kHashTableAddr_def word_le_nat_alt word_less_nat_alt u)
qed

section \<open>The shadow memory\<close>

lemma rt_inv_frame [simp]:
  "rt_inv (s\<lparr>shadow_mem := m\<rparr>) = rt_inv s" "rt_inv (s\<lparr>pipe := p\<rparr>) = rt_inv s"
  "rt_inv (s\<lparr>branches := b\<rparr>) = rt_inv s" "rt_inv (s\<lparr>tainted := t\<rparr>) = rt_inv s"
  by (simp_all add: rt_inv_def lookup_key_def)

lemma set_label_at_frame [simp]:
  "rt_inv (set_label_at ls i l s) = rt_inv s" "last_label (set_label_at ls i l s) = last_label s"
  "label_info (set_label_at ls i l s) = label_info s" "union_table (set_label_at ls i l s) = union_table s"
  "app_mem (set_label_at ls i l s) = app_mem s" "lookup_key (set_label_at ls i l s) k = lookup_key s k"
  "rt_le s (set_label_at ls i l s)"
  by (simp_all add: set_label_at_def lookup_key_def rt_le_def)

lemma slot_inj:
  assumes "i < 2 ^ 30" "j < 2 ^ 30" "(ls :: u64) + 4 * of_nat i = ls + 4 * of_nat j"
  shows "i = j"
proof -
  have u: "unat (4 * of_nat k :: u64) = 4 * k" if "k < 2 ^ 30" for k
    using that by (simp add: unat_word_ariths unat_of_nat)
  from assms(3) have "unat (4 * of_nat i :: u64) = unat (4 * of_nat j :: u64)" by simp
  then show ?thesis using assms(1,2) by (simp only: u)
qed

lemma label_at_set:
  assumes "i < 2 ^ 30" "j < 2 ^ 30"
  shows "label_at (set_label_at ls i l s) ls j = (if j = i then l else label_at s ls j)"
  using slot_inj [OF assms, of ls] by (auto simp: label_at_def set_label_at_def)

lemma fill_labels_frame [simp]:
  "rt_inv (fill_labels g ls is s) = rt_inv s" "last_label (fill_labels g ls is s) = last_label s"
  "label_info (fill_labels g ls is s) = label_info s" "union_table (fill_labels g ls is s) = union_table s"
  "lookup_key (fill_labels g ls is s) k = lookup_key s k" "rt_le s (fill_labels g ls is s)"
  by (induction g ls "is" s rule: fill_labels.induct) (simp_all add: rt_le_def)

lemma label_at_fill:
  assumes "\<forall>i \<in> set is. i < 2 ^ 30" "j < 2 ^ 30"
  shows "label_at (fill_labels g ls is s) ls j = (if j \<in> set is then g j else label_at s ls j)"
  using assms
proof (induction "is" arbitrary: s)
  case (Cons i "is")
  then show ?case by (auto simp: label_at_set)
qed simp

lemma label_at_shadow: "shadow_mem s' = shadow_mem s \<Longrightarrow> label_at s' ls i = label_at s ls i"
  by (simp add: label_at_def)

lemma extract_all_ok:
  assumes "rt_inv s" "extract_all l ls is s = Some s'" "distinct is" "\<forall>i \<in> set is. i < 2 ^ 30" "0 < l" "l \<noteq> kInitializingLabel"
  shows "rt_inv s' \<and> rt_le s s'
    \<and> (\<forall>i \<in> set is. lookup_key s' (union_key l CONST_LABEL OP_Extract 8 0 (of_nat (i * 8))) = Some (label_at s' ls i))
    \<and> (\<forall>j < 2 ^ 30. j \<notin> set is \<longrightarrow> label_at s' ls j = label_at s ls j)"
  using assms
proof (induction "is" arbitrary: s)
  case (Cons i "is")
  from Cons.prems(2) obtain e s1 where u: "taint_union l CONST_LABEL OP_Extract 8 0 (of_nat (i * 8)) s = Some (e, s1)"
    and r: "extract_all l ls is (set_label_at ls i e s1) = Some s'"
    by (auto split: Option.bind_splits)
  note ok = taint_union_ok [OF Cons.prems(1) u]
  have key: "key_of l CONST_LABEL OP_Extract 8 0 (of_nat (i * 8)) = union_key l CONST_LABEL OP_Extract 8 0 (of_nat (i * 8))"
    by (simp add: key_of_def order_operands_def is_commutative_def op_defs)
  have e: "lookup_key s1 (union_key l CONST_LABEL OP_Extract 8 0 (of_nat (i * 8))) = Some e"
    using taint_union_label [OF Cons.prems(1) u] Cons.prems(5,6) unfolding key by (auto simp: const_union_def label_consts)
  let ?s2 = "set_label_at ls i e s1"
  have ih: "rt_inv s' \<and> rt_le ?s2 s'
    \<and> (\<forall>i \<in> set is. lookup_key s' (union_key l CONST_LABEL OP_Extract 8 0 (of_nat (i * 8))) = Some (label_at s' ls i))
    \<and> (\<forall>j < 2 ^ 30. j \<notin> set is \<longrightarrow> label_at s' ls j = label_at ?s2 ls j)"
    by (rule Cons.IH) (use ok r Cons.prems in auto)
  have "label_at s' ls i = e" using ih Cons.prems(3,4) by (auto simp: label_at_set)
  moreover have "rt_le s s'" using rt_le_trans [of s s1 s'] rt_le_trans [of s1 ?s2 s'] ok ih by simp
  moreover have "lookup_key s' (union_key l CONST_LABEL OP_Extract 8 0 (of_nat (i * 8))) = Some e"
    using lookup_key_le [of ?s2 s'] ok ih e by simp
  moreover have "label_at s' ls j = label_at s ls j" if "j < 2 ^ 30" "j \<notin> set (i # is)" for j
    using ih that Cons.prems(4) ok label_at_shadow [of s1 s ls j] by (auto simp: label_at_set)
  ultimately show ?case using ih by auto
qed simp

section \<open>Round trips\<close>

lemma extract_loop_all:
  assumes "\<forall>i. k \<le> i \<and> i < n \<longrightarrow> (let info = label_info s (label_at s ls i)
      in lop info = OP_Extract \<and> op2 info = of_nat (i * 8) \<and> l1 info = parent \<and> lsize info = 8)"
    and "k \<le> n"
  shows "extract_loop s ls parent (of_nat (k * 8)) [k..<n] = of_nat (n * 8)"
  using assms
proof (induction "n - k" arbitrary: k)
  case (Suc d)
  then have kn: "k < n" "[k..<n] = k # [Suc k..<n]" by (simp_all add: upt_conv_Cons)
  have "extract_loop s ls parent (of_nat (Suc k * 8)) [Suc k..<n] = of_nat (n * 8)"
    by (rule Suc.hyps) (use Suc.hyps(2) Suc.prems kn in auto)
  moreover have "(of_nat (k * 8) :: u64) + ucast (8 :: u16) = of_nat (Suc k * 8)" by simp
  moreover have "lop (label_info s (label_at s ls k)) = OP_Extract \<and> op2 (label_info s (label_at s ls k)) = of_nat (k * 8)
      \<and> l1 (label_info s (label_at s ls k)) = parent \<and> lsize (label_info s (label_at s ls k)) = 8"
    using Suc.prems(1) kn(1) by (auto simp: Let_def)
  ultimately show ?case
    unfolding kn(2) by (simp only: extract_loop.simps is_kind_of_label_def Let_def) simp
qed simp

lemma not_init:
  assumes "rt_inv s" "l \<le> last_label s"
  shows "l \<noteq> kInitializingLabel"
proof -
  have "unat l < 2 ^ 30" using assms by (auto simp: rt_inv_def word_le_nat_alt)
  then show ?thesis by (auto simp: kInitializingLabel_def unsigned_minus_1_eq_mask mask_eq_exp_minus_1)
qed

lemma label_pos: "0 < (l :: dfsan_label) \<Longrightarrow> CONST_OFFSET \<le> l \<and> \<not> is_constant_label l"
  by (auto simp: label_consts is_constant_label_def word_le_nat_alt word_less_nat_alt)

lemma concat_loop_done: "n \<le> i \<Longrightarrow> concat_loop ls n l i s = Some (l, s)"
  by (subst concat_loop.simps) simp

lemma load_single:
  assumes "rt_inv s" "label_at s ls 0 = l" "0 < l" "l \<le> last_label s" "lsize (label_info s l) = 8"
    and "lop (label_info s l) \<noteq> OP_Extract"
  shows "taint_union_load ls 1 s = Some (l, s)"
proof -
  have "load_slow ls 1 l s = Some (l, s)"
    using assms(5,6) by (simp add: load_slow_def is_kind_of_label_def Let_def concat_loop_done)
  then show ?thesis
    using assms not_init [OF assms(1,4)] label_pos [OF assms(3)] by (simp add: taint_union_load_def Let_def)
qed

lemma load_extracts:
  assumes "rt_inv s" "0 < n" "n < 2 ^ 13" "lsize (label_info s l) = of_nat (n * 8)" "0 < l"
    and ex: "\<And>i. i < n \<Longrightarrow> lookup_key s (union_key l CONST_LABEL OP_Extract 8 0 (of_nat (i * 8))) = Some (label_at s ls i)"
  shows "taint_union_load ls n s = Some (l, s)"
proof -
  have info: "lop (label_info s (label_at s ls i)) = OP_Extract \<and> op2 (label_info s (label_at s ls i)) = of_nat (i * 8)
      \<and> l1 (label_info s (label_at s ls i)) = l \<and> lsize (label_info s (label_at s ls i)) = 8" if "i < n" for i
    using lookup_keyD(4) [OF assms(1) ex [OF that]] by (simp add: info_eq_def union_key_def label_consts info_zero_def)
  note d0 = lookup_keyD [OF assms(1) ex [OF assms(2)]]
  have "extract_loop s ls l (of_nat (0 * 8)) [0..<n] = of_nat (n * 8)"
    by (rule extract_loop_all) (use info in \<open>auto simp: Let_def\<close>)
  moreover have "unat (of_nat (n * 8) :: u16) = n * 8"
    using assms(3) by (simp only: unat_of_nat) simp
  then have "(ucast (of_nat (n * 8) :: u16) :: u64) = of_nat (n * 8)"
    by (metis of_nat_unat)
  ultimately have "load_slow ls n (label_at s ls 0) s = Some (l, s)"
    using info [OF assms(2)] assms(4) by (simp add: load_slow_def is_kind_of_label_def Let_def)
  then show ?thesis
    using info [OF assms(2)] d0(3) label_pos [OF d0(1)] assms(2)
    by (simp add: taint_union_load_def Let_def OP_Extract_def)
qed

end
