(* ===== verification/Taint_Trace.thy ===== *)
theory Taint_Trace
  imports Taint_Rt
begin

text \<open>
  The instrumentation callbacks of \<open>dfsan.cc\<close> that report branches, array indices and
  offsets to the solver, the bookkeeping of the tainted file and the start of the runtime.
  The return address of a callback is an argument. File system, command line and memory
  mapping of the host are parameters.
\<close>

section \<open>Branches\<close>

definition label_flipped :: "rt \<Rightarrow> dfsan_label \<Rightarrow> bool" where
  "label_flipped s label = (lflags (label_info s label) AND B_FLIPPED \<noteq> 0)"

definition set_flipped :: "dfsan_label \<Rightarrow> rt \<Rightarrow> rt" where
  "set_flipped label s =
     s\<lparr>label_info := (label_info s)(label := (label_info s label)\<lparr>lflags := lflags (label_info s label) OR B_FLIPPED\<rparr>)\<rparr>"

definition solve_cond ::
  "dfsan_label \<Rightarrow> u64 \<Rightarrow> u64 \<Rightarrow> u32 \<Rightarrow> u8 \<Rightarrow> u32 \<Rightarrow> u32 \<Rightarrow> u32 \<Rightarrow> u32 \<Rightarrow> rt \<Rightarrow> rt" where
  "solve_cond label addr cx order r predicate bid sctx target_cond s =
     (if label = 0 \<or> label_flipped s label then s
      else set_flipped label
             (send (Msg \<lparr>msg_type = 0, msg_tid = rt_tid s, msg_label = label, msg_result = ucast r, msg_addr = addr,
                msg_ctx = cx, msg_localcnt = order, msg_bid = bid, msg_sctx = sctx, msg_predicate = predicate,
                msg_target_cond = ucast target_cond\<rparr>) s))"

text \<open>\<open>get_const_result\<close>; an unknown predicate runs off the end of the function.\<close>

definition get_const_result :: "u64 \<Rightarrow> u64 \<Rightarrow> u32 \<Rightarrow> u8 option" where
  "get_const_result c1 c2 predicate =
     (if predicate = 32 then Some (if c1 = c2 then 1 else 0)
      else if predicate = 33 then Some (if c1 \<noteq> c2 then 1 else 0)
      else if predicate = 34 then Some (if c2 < c1 then 1 else 0)
      else if predicate = 35 then Some (if c2 \<le> c1 then 1 else 0)
      else if predicate = 36 then Some (if c1 < c2 then 1 else 0)
      else if predicate = 37 then Some (if c1 \<le> c2 then 1 else 0)
      else if predicate = 38 then Some (if sint c2 < sint c1 then 1 else 0)
      else if predicate = 39 then Some (if sint c2 \<le> sint c1 then 1 else 0)
      else if predicate = 40 then Some (if sint c1 < sint c2 then 1 else 0)
      else if predicate = 41 then Some (if sint c1 \<le> sint c2 then 1 else 0)
      else None)"

definition icmp_op :: "u32 \<Rightarrow> u16" where
  "icmp_op predicate = ucast (push_bit 8 predicate OR ucast OP_ICmp)"

definition taint_trace_cmp ::
  "u64 \<Rightarrow> dfsan_label \<Rightarrow> dfsan_label \<Rightarrow> u32 \<Rightarrow> u32 \<Rightarrow> u64 \<Rightarrow> u64 \<Rightarrow> u32 \<Rightarrow> rt \<Rightarrow> rt option" where
  "taint_trace_cmp addr x y n predicate c1 c2 bid s =
     do { r \<leftarrow> get_const_result c1 c2 predicate;
          (temp, s') \<leftarrow> (if x \<noteq> 0 \<or> y \<noteq> 0 then dfsan_union x y (icmp_op predicate) (ucast n) c1 c2 s else Some (0, s));
          Some (solve_cond temp addr (ucast (callstack s')) 0 r predicate bid (angora_context s') (ucast c2) s') }"

definition taint_trace_cond :: "u64 \<Rightarrow> dfsan_label \<Rightarrow> u8 \<Rightarrow> u32 \<Rightarrow> rt \<Rightarrow> rt" where
  "taint_trace_cond addr label r bid s =
     solve_cond label addr (ucast (callstack s)) 0 (r AND 1) 0 bid (angora_context s) 0 s"

section \<open>Further constraints\<close>

definition add_constraints :: "u64 \<Rightarrow> dfsan_label \<Rightarrow> bool \<Rightarrow> rt \<Rightarrow> rt" where
  "add_constraints addr label is_offset s =
     (if label_flipped s label then s
      else if solver_select s \<noteq> 1
      then set_flipped label
             (send (Msg \<lparr>msg_type = (if is_offset then 3 else 4), msg_tid = rt_tid s, msg_label = label, msg_result = 0,
                msg_addr = addr, msg_ctx = ucast (callstack s), msg_localcnt = 0, msg_bid = 0, msg_sctx = 0,
                msg_predicate = 0, msg_target_cond = 0\<rparr>) s)
      else s)"

definition taint_trace_offset :: "u64 \<Rightarrow> dfsan_label \<Rightarrow> u64 \<Rightarrow> u32 \<Rightarrow> rt \<Rightarrow> rt option" where
  "taint_trace_offset addr offset_label offset n s =
     do { (sc, s') \<leftarrow> dfsan_union offset_label 0 (icmp_op 32) (ucast n) 0 offset s;
          Some (add_constraints addr sc True s') }"

definition taint_trace_size :: "u64 \<Rightarrow> dfsan_label \<Rightarrow> u64 \<Rightarrow> u32 \<Rightarrow> rt \<Rightarrow> rt option" where
  "taint_trace_size addr size_label count n s =
     do { (sc, s') \<leftarrow> dfsan_union size_label 0 (icmp_op 32) (ucast n) 0 count s;
          Some (add_constraints addr sc False s') }"

definition MAX_BRANCH_COUNT :: u16 where "MAX_BRANCH_COUNT = 16"

definition taint_trace_gep :: "u64 \<Rightarrow> dfsan_label \<Rightarrow> u64 \<Rightarrow> rt \<Rightarrow> rt" where
  "taint_trace_gep addr label r s =
     (if label = 0 \<or> label_flipped s label then s
      else (let cxt = (callstack s, addr);
                found = branches s cxt;
                report = (\<lambda>order s'.
                  if solver_select s' \<noteq> 1
                  then set_flipped label
                         (send (Msg \<lparr>msg_type = 1, msg_tid = rt_tid s', msg_label = label, msg_result = r,
                            msg_addr = addr, msg_ctx = ucast (callstack s'), msg_localcnt = order, msg_bid = 0,
                            msg_sctx = 0, msg_predicate = 0, msg_target_cond = 0\<rparr>) s')
                  else s')
            in case found of
                 None \<Rightarrow> report 1 (s\<lparr>branches := (branches s)(cxt \<mapsto> 1)\<rparr>)
               | Some c \<Rightarrow>
                   if c < MAX_BRANCH_COUNT
                   then report (ucast (c + 1)) (s\<lparr>branches := (branches s)(cxt \<mapsto> c + 1)\<rparr>)
                   else s))"

section \<open>The tainted file\<close>

text \<open>
  What the host provides: \<open>realpath\<close> (whether it succeeds and the buffer it leaves), the sizes
  of files and whether they can be mapped.
\<close>

record os_env =
  os_realpath :: "string \<Rightarrow> bool \<times> string"
  os_stat_size :: "string \<Rightarrow> u64"
  os_fstat_stdin :: "u64 option"
  os_can_map :: "string \<Rightarrow> bool"

definition taint_set_file :: "os_env \<Rightarrow> string \<Rightarrow> 32 word \<Rightarrow> rt \<Rightarrow> rt" where
  "taint_set_file os filename fd s =
     (if tf_filename (tainted s) = snd (os_realpath os filename)
      then s\<lparr>tainted := (tainted s)\<lparr>tf_fd := fd\<rparr>\<rparr> else s)"

definition is_taint_file :: "os_env \<Rightarrow> string \<Rightarrow> rt \<Rightarrow> bool \<times> rt" where
  "is_taint_file os filename s =
     (if tf_filename (tainted s) = snd (os_realpath os filename)
      then (True, s\<lparr>tainted := (tainted s)\<lparr>is_utmp := 1\<rparr>\<rparr>)
      else (False, s\<lparr>tainted := (tainted s)\<lparr>is_utmp := 0\<rparr>\<rparr>))"

definition taint_get_file :: "32 word \<Rightarrow> rt \<Rightarrow> u64" where
  "taint_get_file fd s = (if tf_fd (tainted s) = fd then tf_size (tainted s) else 0)"

definition taint_close_file :: "32 word \<Rightarrow> rt \<Rightarrow> rt" where
  "taint_close_file fd s = (if fd = tf_fd (tainted s) then s\<lparr>tainted := (tainted s)\<lparr>tf_fd := - 1\<rparr>\<rparr> else s)"

definition set_utmp_offset :: "u64 \<Rightarrow> rt \<Rightarrow> rt" where
  "set_utmp_offset off s = s\<lparr>tainted := (tainted s)\<lparr>tf_offset := off\<rparr>\<rparr>"

definition get_utmp_offset :: "rt \<Rightarrow> u64" where
  "get_utmp_offset s = tf_offset (tainted s)"

definition taint_set_offset_label :: "dfsan_label \<Rightarrow> rt \<Rightarrow> rt" where
  "taint_set_offset_label label s = s\<lparr>tainted := (tainted s)\<lparr>tf_offset_label := label\<rparr>\<rparr>"

definition taint_get_offset_label :: "rt \<Rightarrow> dfsan_label" where
  "taint_get_offset_label s = tf_offset_label (tainted s)"

text \<open>One label per byte of the file, in the order of the offsets.\<close>

fun create_labels :: "nat \<Rightarrow> nat \<Rightarrow> rt \<Rightarrow> rt option" where
  "create_labels i 0 s = Some s"
| "create_labels i (Suc n) s =
     do { (label, s') \<leftarrow> dfsan_create_label (of_nat i) s;
          if dfsan_check_label label then create_labels (Suc i) n s' else None }"

definition InitializeTaintFile :: "os_env \<Rightarrow> string \<Rightarrow> rt \<Rightarrow> rt option" where
  "InitializeTaintFile os filename s =
     (let finish = (\<lambda>s'. if tf_fd (tainted s') \<noteq> - 1 \<and> is_stdin (tainted s') = 0
                         then create_labels 0 (unat (tf_size (tainted s'))) s' else Some s')
      in if filename = ''stdin''
         then (let s1 = s\<lparr>tainted := (tainted s)\<lparr>tf_fd := 0\<rparr>\<rparr>
               in case os_fstat_stdin os of
                    Some sz \<Rightarrow>
                      if os_can_map os filename
                      then finish (s1\<lparr>tainted := (tainted s1)\<lparr>tf_size := sz, is_stdin := 0\<rparr>\<rparr>) else None
                  | None \<Rightarrow> finish (s1\<lparr>tainted := (tainted s1)\<lparr>tf_size := 1, is_stdin := 1\<rparr>\<rparr>))
         else if filename = '''' then finish (s\<lparr>tainted := (tainted s)\<lparr>tf_fd := - 1\<rparr>\<rparr>)
         else (let (ok, path) = os_realpath os filename;
                   s1 = s\<lparr>tainted := (tainted s)\<lparr>tf_filename := path\<rparr>\<rparr>
               in if \<not> ok then Some s1
                  else if os_can_map os filename
                  then finish (s1\<lparr>tainted := (tainted s1)\<lparr>tf_size := os_stat_size os filename, is_stdin := 0\<rparr>\<rparr>)
                  else None))"

record rt_flags =
  flag_taint_file :: string
  flag_tid :: u32
  flag_solver_select :: u32

definition taint_file_zero :: taint_file where
  "taint_file_zero = \<lparr>tf_filename = '''', tf_fd = 0, tf_offset = 0, tf_offset_label = 0, tf_size = 0, is_stdin = 0, is_utmp = 0\<rparr>"

text \<open>
  The start of the process: \<open>dfsan_init\<close> (from the pre-initialisation array) and then the
  constructor of the union table. Statics and shared memory start out zeroed.
\<close>

definition dfsan_init :: "os_env \<Rightarrow> rt_flags \<Rightarrow> (u64 \<Rightarrow> u8) \<Rightarrow> rt option" where
  "dfsan_init os fl mem =
     (let a = allocator_init kHashTableAddr (kHashTableAddr + 0x100000000);
          s = \<lparr>last_label = 0, label_info = (\<lambda>_. info_zero)(CONST_LABEL := info_zero\<lparr>lsize := 8\<rparr>),
               union_table = (\<lparr>bucket = (\<lambda>_. []), bucket_size = 0\<rparr>, a), shadow_mem = (\<lambda>_. 0), app_mem = mem, pipe = [],
               branches = Map.empty, tainted = taint_file_zero, callstack = 0, angora_context = 0,
               rt_tid = flag_tid fl, solver_select = flag_solver_select fl\<rparr>
      in InitializeTaintFile os (flag_taint_file fl) s)"

definition rt_start :: "os_env \<Rightarrow> rt_flags \<Rightarrow> (u64 \<Rightarrow> u8) \<Rightarrow> rt option" where
  "rt_start os fl mem =
     do { s \<leftarrow> dfsan_init os fl mem;
          t \<leftarrow> union_hashtable_new 0x40000 (snd (union_table s));
          Some (s\<lparr>union_table := t\<rparr>) }"

end
