(* ===== verification/Taint_Props.thy ===== *)
theory Taint_Props
  imports Taint_Mem Taint_Trace
begin

text \<open>
  The runtime as a machine: its operations are the steps, the states reachable from the start
  are those of an instrumented program. The invariant of the label space holds in all of them,
  and no label is reported to the solver twice.
\<close>

section \<open>What an operation on labels leaves alone\<close>

text \<open>Reports are the messages of a branch, an index, an offset or a size.\<close>

fun reports :: "dfsan_label \<Rightarrow> pipe_event \<Rightarrow> bool" where
  "reports l (Msg m) \<longleftrightarrow> msg_label m = l \<and> msg_type m \<noteq> 2"
| "reports l (Raw bs) \<longleftrightarrow> False"

definition report_count :: "dfsan_label \<Rightarrow> rt \<Rightarrow> nat" where
  "report_count l s = length (filter (reports l) (pipe s))"

definition rt_ext :: "rt \<Rightarrow> rt \<Rightarrow> bool" where
  "rt_ext s s' \<longleftrightarrow> rt_inv s' \<and> rt_le s s' \<and> (\<forall>l. report_count l s' = report_count l s)
     \<and> (\<forall>l \<le> last_label s. lflags (label_info s' l) = lflags (label_info s l))"

lemma rt_ext_refl: "rt_inv s \<Longrightarrow> rt_ext s s"
  by (simp add: rt_ext_def)

lemma rt_ext_trans: "rt_ext s t \<Longrightarrow> rt_ext t u \<Longrightarrow> rt_ext s u"
  unfolding rt_ext_def using rt_le_trans [of s t u] by (auto simp: rt_le_def)

lemma rt_ext_inv: "rt_ext s s' \<Longrightarrow> rt_inv s'"
  by (simp add: rt_ext_def)

lemma send_memcmp_reports: "report_count l (send_memcmp key s) = report_count l s"
  by (simp add: send_memcmp_def send_def report_count_def)

lemma union_fresh_ext:
  assumes "rt_inv s" "lookup_key s key = None" "union_fresh key s = Some (l, s')"
  shows "rt_ext s s'"
proof -
  from assms(1) have b: "unat (last_label s) < 2 ^ 30" by (simp add: rt_inv_def)
  have "report_count k s' = report_count k (s\<lparr>last_label := l\<rparr>)" for k
    using assms(3) send_memcmp_reports [of k key "s\<lparr>last_label := last_label s + 1\<rparr>"]
    by (auto simp: union_fresh_def Let_def report_count_def split: if_splits Option.bind_splits)
  moreover have "lflags (label_info s' k) = lflags (label_info s k)" if "k \<le> last_label s" for k
    using assms(3) that next_label(2) [OF b] by (elim union_freshE) auto
  ultimately show ?thesis
    using union_fresh_ok [OF assms] by (auto simp: rt_ext_def report_count_def)
qed

lemma taint_union_ext:
  assumes "rt_inv s" "taint_union x y op n v1 v2 s = Some (l, s')"
  shows "rt_ext s s'"
proof (cases "s' = s")
  case True
  then show ?thesis using assms(1) by (simp add: rt_ext_refl)
next
  case False
  then have "lookup_key s (key_of x y op n v1 v2) = None" "union_fresh (key_of x y op n v1 v2) s = Some (l, s')"
    using assms(2) by (auto simp: taint_union_alt split: if_splits option.splits)
  then show ?thesis by (rule union_fresh_ext [OF assms(1)])
qed

lemma set_label_ext: "rt_inv s \<Longrightarrow> rt_ext s (set_label_at ls i l s)"
  by (simp add: rt_ext_def report_count_def) (simp add: set_label_at_def)

lemma rt_ext_shadow: "rt_inv s \<Longrightarrow> rt_ext s (s\<lparr>shadow_mem := m\<rparr>)"
  by (simp add: rt_ext_def report_count_def rt_le_def)

lemma fill_labels_ext: "rt_inv s \<Longrightarrow> rt_ext s (fill_labels g ls is s)"
proof (induction "is" arbitrary: s)
  case (Cons i "is")
  have "rt_ext s (set_label_at ls i (g i) s)" by (rule set_label_ext [OF Cons.prems])
  moreover have "rt_ext (set_label_at ls i (g i) s) (fill_labels g ls is (set_label_at ls i (g i) s))"
    by (rule Cons.IH) (simp add: Cons.prems)
  ultimately show ?case using rt_ext_trans [of s] by simp
qed (simp add: rt_ext_refl)

lemma extract_all_ext: "rt_inv s \<Longrightarrow> extract_all l ls is s = Some s' \<Longrightarrow> rt_ext s s'"
proof (induction "is" arbitrary: s)
  case (Cons i "is")
  from Cons.prems(2) obtain e s1 where u: "taint_union l CONST_LABEL OP_Extract 8 0 (of_nat (i * 8)) s = Some (e, s1)"
    and r: "extract_all l ls is (set_label_at ls i e s1) = Some s'"
    by (auto split: Option.bind_splits)
  have 1: "rt_ext s s1" by (rule taint_union_ext [OF Cons.prems(1) u])
  have 2: "rt_ext s1 (set_label_at ls i e s1)" by (rule set_label_ext [OF rt_ext_inv [OF 1]])
  have 3: "rt_ext (set_label_at ls i e s1) s'" by (rule Cons.IH [OF rt_ext_inv [OF 2] r])
  show ?case by (rule rt_ext_trans [OF 1 rt_ext_trans [OF 2 3]])
qed (simp add: rt_ext_refl)

lemma taint_union_store_ext:
  assumes "rt_inv s" "taint_union_store l ls n s = Some s'"
  shows "rt_ext s s'"
  using assms extract_all_ext [OF assms(1)] fill_labels_ext [OF assms(1)] set_label_ext [OF assms(1)]
  by (auto simp: taint_union_store_def Let_def split: if_splits)

lemma concat_loop_ext:
  assumes "concat_loop ls n label i s = Some r"
  shows "rt_inv s \<longrightarrow> rt_ext s (snd r)"
proof (rule concat_loop.raw_induct [where P = "\<lambda>ls n label i s r. rt_inv s \<longrightarrow> rt_ext s (snd r)", OF _ assms])
  fix f ls n label i s r
  assume ih: "\<And>ls n label i s r. f ls n label i s = Some r \<Longrightarrow> rt_inv s \<longrightarrow> rt_ext s (snd r)"
    and run: "(if n \<le> i then Some (label, s)
      else (let nxt = label_at s ls i; next_size = unat (lsize (label_info s nxt))
            in if \<not> is_constant_label nxt
               then if next_size \<le> (n - i) * 8
                    then (let i' = i + next_size div 8
                          in case taint_union label nxt OP_Concat (of_nat (i' * 8)) 0 0 s of
                               None \<Rightarrow> None | Some (label', s') \<Rightarrow> f ls n label' i' s')
                    else (case taint_union nxt CONST_LABEL OP_Trunc (of_nat ((n - i) * 8)) 0 0 s of
                            None \<Rightarrow> None
                          | Some (trunc, s') \<Rightarrow> taint_union label trunc OP_Concat (of_nat (n * 8)) 0 0 s')
               else (let c = app_mem s (app_for (ls + 4 * of_nat i))
                     in case taint_union label 0 OP_Concat (of_nat (Suc i * 8)) 0 (scast c) s of
                          None \<Rightarrow> None | Some (label', s') \<Rightarrow> f ls n label' (Suc i) s'))) = Some r"
  have via: "rt_ext s (snd r)" if "rt_inv s" "taint_union x y op k v w s = Some (l, s')" "rt_inv s' \<longrightarrow> rt_ext s' (snd r)"
    for x y op k v w l s'
    using taint_union_ext [OF that(1,2)] that(3) rt_ext_trans rt_ext_inv by blast
  let ?nxt = "label_at s ls i" and ?sz = "unat (lsize (label_info s (label_at s ls i)))"
  show "rt_inv s \<longrightarrow> rt_ext s (snd r)"
  proof
    assume inv: "rt_inv s"
    consider (stop) "n \<le> i" | (byte) "\<not> n \<le> i" "is_constant_label ?nxt"
      | (whole) "\<not> n \<le> i" "\<not> is_constant_label ?nxt" "?sz \<le> (n - i) * 8"
      | (part) "\<not> n \<le> i" "\<not> is_constant_label ?nxt" "\<not> ?sz \<le> (n - i) * 8" by blast
    then show "rt_ext s (snd r)"
    proof cases
      case stop
      then show ?thesis using run inv by (auto simp: rt_ext_refl)
    next
      case byte
      with run obtain l s' where "taint_union label 0 OP_Concat (of_nat (Suc i * 8)) 0 (scast (app_mem s (app_for (ls + 4 * of_nat i)))) s
          = Some (l, s')" "f ls n l (Suc i) s' = Some r"
        by (simp only: Let_def if_False simp_thms) (auto split: option.splits)
      then show ?thesis using via [OF inv] ih by blast
    next
      case whole
      with run obtain l s' where "taint_union label ?nxt OP_Concat (of_nat ((i + ?sz div 8) * 8)) 0 0 s = Some (l, s')"
          "f ls n l (i + ?sz div 8) s' = Some r"
        by (simp only: Let_def if_False if_True simp_thms) (auto split: option.splits)
      then show ?thesis using via [OF inv] ih by blast
    next
      case part
      with run obtain t s' where t: "taint_union ?nxt CONST_LABEL OP_Trunc (of_nat ((n - i) * 8)) 0 0 s = Some (t, s')"
          "taint_union label t OP_Concat (of_nat (n * 8)) 0 0 s' = Some r"
        by (simp only: Let_def if_False if_True simp_thms) (auto split: option.splits)
      have "rt_inv s' \<longrightarrow> rt_ext s' (snd r)" using taint_union_ext [of s' _ _ _ _ _ _ "fst r" "snd r"] t(2) by simp
      then show ?thesis using via [OF inv t(1)] by blast
    qed
  qed
qed

lemma taint_union_load_ext:
  assumes "rt_inv s" "taint_union_load ls n s = Some (l, s')"
  shows "rt_ext s s'"
proof -
  have slow: "rt_ext s s'" if "load_slow ls n l0 s = Some (l, s')" for l0
    using that assms(1) concat_loop_ext [of ls n l0 _ s "(l, s')"]
    by (auto simp: load_slow_def Let_def rt_ext_refl split: if_splits)
  show ?thesis
    using assms slow taint_union_ext [OF assms(1)]
    by (auto simp: taint_union_load_def Let_def rt_ext_refl split: if_splits option.splits bool.splits)
qed

lemma dfsan_create_label_ext:
  assumes "rt_inv s" "dfsan_create_label offset s = Some (l, s')"
  shows "rt_ext s s' \<and> l = last_label s + 1 \<and> last_label s' = l \<and> label_info s' l = info_zero\<lparr>lsize := 8, op1 := offset\<rparr>"
proof -
  let ?i = "info_zero\<lparr>lsize := 8, op1 := offset\<rparr>"
  from assms(2) have chk: "dfsan_check_label (last_label s + 1)" and l: "l = last_label s + 1"
    and s': "s' = s\<lparr>last_label := l, label_info := (label_info s)(l := ?i)\<rparr>"
    by (auto simp: dfsan_create_label_def Let_def split: if_splits)
  from assms(1) have b: "unat (last_label s) < 2 ^ 30" by (simp add: rt_inv_def)
  note nl = next_label [OF b, folded l]
  have keys: "k \<noteq> l" if "k \<in> ht_keys (union_table s)" for k
    using assms(1) that nl(2) by (fastforce simp: rt_inv_def)
  then have same: "info_eq (label_info s' k) (label_info s k)" if "k \<in> ht_keys (union_table s)" for k
    using that by (simp add: s')
  have hi: "ht_inv (label_info s) (union_table s)" using assms(1) by (simp add: rt_inv_def)
  have "ht_lookup (label_info s') (fst (union_table s)) k = lookup_key s k" for k
    unfolding lookup_key_def by (rule ht.look_frame [OF hi same])
  then have look: "lookup_key s' k = lookup_key s k" for k by (simp add: lookup_key_def s')
  have "rt_inv s'"
    unfolding rt_inv_def look
  proof (intro conjI)
    show "unat (last_label s') < 2 ^ 30" using chk check_label_bound l by (simp add: s')
    have "ht_inv (label_info s') (union_table s)" by (rule ht.inv_frame [OF hi same])
    moreover have "union_table s' = union_table s" by (simp add: s')
    ultimately show "ht_inv (label_info s') (union_table s')" by simp
    show "\<forall>k \<in> ht_keys (union_table s'). 0 < k \<and> k \<le> last_label s' \<and> lookup_key s (label_info s' k) = Some k"
      using assms(1) keys nl(4) by (auto simp: s' rt_inv_def)
    show "\<forall>key k. lookup_key s key = Some k \<longrightarrow> k \<in> ht_keys (union_table s') \<and> info_eq (label_info s' k) key"
      using assms(1) keys by (auto simp: s' rt_inv_def)
    show "\<forall>x. 0 < x \<and> x \<le> last_label s' \<longrightarrow> l1 (label_info s' x) < x \<and> l2 (label_info s' x) < x"
      using assms(1) nl(4) by (auto simp: s' rt_inv_def info_zero_def)
  qed
  moreover have "rt_le s s'" "\<forall>k \<le> last_label s. lflags (label_info s' k) = lflags (label_info s k)"
    using nl(2) by (auto simp: rt_le_def s')
  moreover have "report_count k s' = report_count k s" for k by (simp add: s' report_count_def)
  ultimately show ?thesis using l by (simp add: rt_ext_def) (simp add: s')
qed

lemma create_labels_ext:
  assumes "rt_inv s" "create_labels i n s = Some s'"
  shows "rt_ext s s' \<and> unat (last_label s') = unat (last_label s) + n
    \<and> (\<forall>j < n. label_info s' (last_label s + 1 + of_nat j) = info_zero\<lparr>lsize := 8, op1 := of_nat (i + j)\<rparr>)
    \<and> (\<forall>l \<le> last_label s. label_info s' l = label_info s l)"
  using assms
proof (induction n arbitrary: i s)
  case 0
  then show ?case by (simp add: rt_ext_refl)
next
  case (Suc n)
  from Suc.prems(2) obtain l s1 where c: "dfsan_create_label (of_nat i) s = Some (l, s1)"
    and r: "create_labels (Suc i) n s1 = Some s'"
    by (auto split: Option.bind_splits if_splits)
  note ok = dfsan_create_label_ext [OF Suc.prems(1) c]
  from Suc.prems(1) have b: "unat (last_label s) < 2 ^ 30" by (simp add: rt_inv_def)
  note nl = next_label [OF b]
  have ih: "rt_ext s1 s' \<and> unat (last_label s') = unat (last_label s1) + n
    \<and> (\<forall>j < n. label_info s' (last_label s1 + 1 + of_nat j) = info_zero\<lparr>lsize := 8, op1 := of_nat (Suc i + j)\<rparr>)
    \<and> (\<forall>l \<le> last_label s1. label_info s' l = label_info s1 l)"
    by (rule Suc.IH [OF _ r]) (use ok rt_ext_inv in blast)
  have "label_info s' (last_label s + 1 + of_nat j) = info_zero\<lparr>lsize := 8, op1 := of_nat (i + j)\<rparr>" if "j < Suc n" for j
  proof (cases j)
    case 0
    then show ?thesis using ih ok by auto
  next
    case (Suc k)
    then have "label_info s' (last_label s1 + 1 + of_nat k) = info_zero\<lparr>lsize := 8, op1 := of_nat (Suc i + k)\<rparr>"
      using ih that by simp
    then show ?thesis using Suc ok by (simp add: add.assoc [symmetric])
  qed
  moreover have "\<forall>l \<le> last_label s. label_info s' l = label_info s l"
    using ih ok nl c by (auto simp: dfsan_create_label_def Let_def split: if_splits)
  moreover have "rt_ext s s'" using ok ih rt_ext_trans by blast
  ultimately show ?case using ih ok nl(1) by simp
qed

section \<open>The runtime as a machine\<close>

text \<open>Branch callbacks get labels the runtime has handed out.\<close>

inductive rt_step :: "os_env \<Rightarrow> rt \<Rightarrow> rt \<Rightarrow> bool" for os where
  union: "taint_union x y op n v w s = Some (l, s') \<Longrightarrow> rt_step os s s'"
| load: "taint_union_load ls n s = Some (l, s') \<Longrightarrow> rt_step os s s'"
| store: "taint_union_store l ls n s = Some s' \<Longrightarrow> rt_step os s s'"
| set_label: "rt_step os s (dfsan_set_label l p n s)"
| add_label: "dfsan_add_label l opc p n s = Some s' \<Longrightarrow> rt_step os s s'"
| create: "dfsan_create_label off s = Some (l, s') \<Longrightarrow> rt_step os s s'"
| cmp: "x \<le> last_label s \<Longrightarrow> y \<le> last_label s \<Longrightarrow> taint_trace_cmp addr x y n pr c1 c2 bid s = Some s' \<Longrightarrow> rt_step os s s'"
| cond: "l \<le> last_label s \<Longrightarrow> rt_step os s (taint_trace_cond addr l r bid s)"
| gep: "l \<le> last_label s \<Longrightarrow> rt_step os s (taint_trace_gep addr l v s)"
| offset: "l \<le> last_label s \<Longrightarrow> taint_trace_offset addr l v n s = Some s' \<Longrightarrow> rt_step os s s'"
| fsize: "l \<le> last_label s \<Longrightarrow> taint_trace_size addr l v n s = Some s' \<Longrightarrow> rt_step os s s'"
| set_file: "rt_step os s (taint_set_file os f fd s)"
| ask_file: "rt_step os s (snd (is_taint_file os f s))"
| close_file: "rt_step os s (taint_close_file fd s)"
| utmp: "rt_step os s (set_utmp_offset off s)"
| offset_label: "rt_step os s (taint_set_offset_label l s)"
| mem_write: "rt_step os s (s\<lparr>app_mem := m\<rparr>)"
| set_context: "rt_step os s (s\<lparr>callstack := cs, angora_context := cx\<rparr>)"

inductive rt_reach :: "os_env \<Rightarrow> rt_flags \<Rightarrow> rt \<Rightarrow> bool" for os fl where
  start: "rt_start os fl mem = Some s \<Longrightarrow> rt_reach os fl s"
| step: "rt_reach os fl s \<Longrightarrow> rt_step os s s' \<Longrightarrow> rt_reach os fl s'"

text \<open>A label that has been reported is allocated and marked.\<close>

definition reported_ok :: "rt \<Rightarrow> bool" where
  "reported_ok s \<longleftrightarrow> (\<forall>l. report_count l s \<le> 1 \<and> (report_count l s = 1 \<longrightarrow> l \<le> last_label s \<and> label_flipped s l))"

definition rt_good :: "rt \<Rightarrow> bool" where
  "rt_good s \<longleftrightarrow> rt_inv s \<and> reported_ok s"

lemma rt_ext_good: "rt_good s \<Longrightarrow> rt_ext s s' \<Longrightarrow> rt_good s'"
  by (auto simp: rt_good_def rt_ext_def reported_ok_def label_flipped_def rt_le_def)

lemma set_flipped_inv: "rt_inv s \<Longrightarrow> rt_inv (set_flipped l s)"
proof -
  assume inv: "rt_inv s"
  have same: "info_eq (label_info (set_flipped l s) k) (label_info s k)" for k
    by (simp add: set_flipped_def info_eq_def)
  have t: "union_table (set_flipped l s) = union_table s" "last_label (set_flipped l s) = last_label s"
    by (simp_all add: set_flipped_def)
  have hi: "ht_inv (label_info s) (union_table s)" using inv by (simp add: rt_inv_def)
  have look: "lookup_key (set_flipped l s) k = lookup_key s k" for k
    unfolding lookup_key_def t by (rule ht.look_frame [OF hi same])
  have key: "lookup_key s (label_info (set_flipped l s) k) = lookup_key s (label_info s k)" for k
    unfolding lookup_key_def by (rule ht.look_key [OF hi same])
  show "rt_inv (set_flipped l s)"
    unfolding rt_inv_def look t
  proof (intro conjI)
    show "unat (last_label s) < 2 ^ 30" using inv by (simp add: rt_inv_def)
    show "ht_inv (label_info (set_flipped l s)) (union_table s)" by (rule ht.inv_frame [OF hi same])
    show "\<forall>k \<in> ht_keys (union_table s). 0 < k \<and> k \<le> last_label s \<and> lookup_key s (label_info (set_flipped l s) k) = Some k"
      using inv unfolding rt_inv_def key by blast
    show "\<forall>kk k. lookup_key s kk = Some k \<longrightarrow> k \<in> ht_keys (union_table s) \<and> info_eq (label_info (set_flipped l s) k) kk"
      using inv same info_eq_trans unfolding rt_inv_def by blast
    show "\<forall>x. 0 < x \<and> x \<le> last_label s \<longrightarrow> l1 (label_info (set_flipped l s) x) < x \<and> l2 (label_info (set_flipped l s) x) < x"
      using inv same unfolding rt_inv_def info_eq_def by metis
  qed
qed

text \<open>Reporting a label that has not been reported.\<close>

lemma report_good:
  assumes "rt_good s" "l \<le> last_label s" "\<not> label_flipped s l" "msg_label m = l"
  shows "rt_good (set_flipped l (send (Msg m) s))"
proof -
  have "rt_inv (send (Msg m) s)" using assms(1) by (simp add: rt_good_def send_def)
  then have "rt_inv (set_flipped l (send (Msg m) s))" by (rule set_flipped_inv)
  moreover have "report_count l s = 0"
    using assms(1,3) by (auto simp: rt_good_def reported_ok_def le_Suc_eq)
  moreover have fl: "(x OR B_FLIPPED) AND B_FLIPPED \<noteq> 0" for x :: u8
    by (simp add: B_FLIPPED_def bit.conj_disj_distrib2)
  ultimately show ?thesis
    using assms(1,2,4)
    by (auto simp: rt_good_def reported_ok_def report_count_def set_flipped_def send_def label_flipped_def)
qed

lemma taint_union_le:
  assumes "rt_inv s" "taint_union x y op n v1 v2 s = Some (l, s')" "x \<le> last_label s" "y \<le> last_label s"
  shows "l \<le> last_label s'"
proof -
  have ni: "x \<noteq> kInitializingLabel" "y \<noteq> kInitializingLabel" using not_init assms by auto
  note ok = taint_union_ok [OF assms(1,2)]
  show ?thesis
  proof (cases "const_union x y op")
    case True
    then show ?thesis using ok by simp
  next
    case False
    then show ?thesis using lookup_keyD(2) [OF _ taint_union_label [OF assms(1,2) False ni]] ok by blast
  qed
qed

lemma solve_cond_good:
  assumes "rt_good s" "l \<le> last_label s"
  shows "rt_good (solve_cond l addr cx order r pr bid sctx tc s)"
  using report_good [OF assms] assms(1) by (simp add: solve_cond_def)

lemma add_constraints_good:
  assumes "rt_good s" "l \<le> last_label s"
  shows "rt_good (add_constraints addr l b s)"
  using report_good [OF assms] assms(1) by (simp add: add_constraints_def)

lemma rt_good_frame [simp]:
  "rt_good (s\<lparr>branches := b\<rparr>) = rt_good s" "rt_good (s\<lparr>tainted := t\<rparr>) = rt_good s"
  "rt_good (s\<lparr>app_mem := m\<rparr>) = rt_good s" "rt_good (s\<lparr>callstack := c, angora_context := cx\<rparr>) = rt_good s"
  by (simp_all add: rt_good_def reported_ok_def report_count_def label_flipped_def rt_inv_def lookup_key_def)

lemma taint_trace_gep_good:
  assumes "rt_good s" "l \<le> last_label s"
  shows "rt_good (taint_trace_gep addr l v s)"
proof -
  have "rt_good (set_flipped l (send (Msg m) (s\<lparr>branches := b\<rparr>)))" if "\<not> label_flipped s l" "msg_label m = l" for b m
    by (rule report_good) (use assms that in \<open>simp_all add: label_flipped_def\<close>)
  then show ?thesis using assms(1) by (auto simp: taint_trace_gep_def Let_def split: option.split)
qed

lemma dfsan_set_label_ext: "rt_inv s \<Longrightarrow> rt_ext s (dfsan_set_label l p n s)"
proof (induction l p n s rule: dfsan_set_label.induct)
  case (2 l p n s)
  let ?s = "if l = shadow_mem s p then s else s\<lparr>shadow_mem := (shadow_mem s)(p := l)\<rparr>"
  have "rt_ext s ?s" using 2(2) rt_ext_refl rt_ext_shadow by auto
  then show ?case using rt_ext_trans [OF _ 2(1)] rt_ext_inv by simp
qed (simp add: rt_ext_refl)

lemma dfsan_add_label_ext: "rt_inv s \<Longrightarrow> dfsan_add_label l op p n s = Some s' \<Longrightarrow> rt_ext s s'"
proof (induction n arbitrary: p s)
  case (Suc n)
  from Suc.prems(2) obtain k s1 where u: "taint_union (shadow_mem s p) l (ucast op) 1 0 0 s = Some (k, s1)"
    and r: "dfsan_add_label l op (p + 4) n (s1\<lparr>shadow_mem := (shadow_mem s1)(p := k)\<rparr>) = Some s'"
    by (auto split: Option.bind_splits)
  have 1: "rt_ext s s1" by (rule taint_union_ext [OF Suc.prems(1) u])
  have 2: "rt_ext s1 (s1\<lparr>shadow_mem := (shadow_mem s1)(p := k)\<rparr>)" by (rule rt_ext_shadow [OF rt_ext_inv [OF 1]])
  show ?case by (rule rt_ext_trans [OF 1 rt_ext_trans [OF 2 Suc.IH [OF rt_ext_inv [OF 2] r]]])
qed (simp add: rt_ext_refl)

lemma taint_trace_cmp_good:
  assumes "rt_good s" "x \<le> last_label s" "y \<le> last_label s" "taint_trace_cmp addr x y n pr c1 c2 bid s = Some s'"
  shows "rt_good s'"
proof -
  from assms(4) obtain r t s1 where
    u: "(if x \<noteq> 0 \<or> y \<noteq> 0 then dfsan_union x y (icmp_op pr) (ucast n) c1 c2 s else Some (0, s)) = Some (t, s1)"
    and s': "s' = solve_cond t addr (ucast (callstack s1)) 0 r pr bid (angora_context s1) (ucast c2) s1"
    by (auto simp: taint_trace_cmp_def split: Option.bind_splits)
  have inv: "rt_inv s" using assms(1) by (simp add: rt_good_def)
  have "rt_good s1 \<and> t \<le> last_label s1"
  proof (cases "x \<noteq> 0 \<or> y \<noteq> 0")
    case True
    then have "taint_union x y (icmp_op pr) (ucast (ucast n :: u8)) c1 c2 s = Some (t, s1)"
      using u by (simp add: dfsan_union_def)
    then show ?thesis using rt_ext_good [OF assms(1) taint_union_ext [OF inv]] taint_union_le [OF inv _ assms(2,3)] by blast
  next
    case False
    then show ?thesis using u assms(1) by auto
  qed
  then show ?thesis unfolding s' using solve_cond_good by blast
qed

lemma add_constraints_union_good:
  assumes "rt_good s" "l \<le> last_label s" "dfsan_union l 0 op n 0 v s = Some (sc, s1)"
  shows "rt_good (add_constraints addr sc b s1)"
proof -
  have inv: "rt_inv s" using assms(1) by (simp add: rt_good_def)
  have u: "taint_union l 0 op (ucast n) 0 v s = Some (sc, s1)" using assms(3) by (simp add: dfsan_union_def)
  show ?thesis
    by (rule add_constraints_good [OF rt_ext_good [OF assms(1) taint_union_ext [OF inv u]]])
      (rule taint_union_le [OF inv u assms(2)], simp)
qed

lemma rt_step_good:
  assumes "rt_step os s s'" "rt_good s"
  shows "rt_good s'"
proof -
  from assms(2) have inv: "rt_inv s" by (simp add: rt_good_def)
  note ext = rt_ext_good [OF assms(2)]
  from assms(1) show ?thesis
  proof cases
    case union then show ?thesis by (blast intro: ext taint_union_ext [OF inv])
  next
    case load then show ?thesis by (blast intro: ext taint_union_load_ext [OF inv])
  next
    case store then show ?thesis by (blast intro: ext taint_union_store_ext [OF inv])
  next
    case set_label then show ?thesis by (blast intro: ext dfsan_set_label_ext [OF inv])
  next
    case add_label then show ?thesis by (blast intro: ext dfsan_add_label_ext [OF inv])
  next
    case create then show ?thesis using ext dfsan_create_label_ext [OF inv] by blast
  next
    case cmp then show ?thesis by (blast intro: taint_trace_cmp_good [OF assms(2)])
  next
    case cond then show ?thesis by (simp add: taint_trace_cond_def solve_cond_good [OF assms(2)])
  next
    case gep then show ?thesis by (simp add: taint_trace_gep_good [OF assms(2)])
  next
    case offset then show ?thesis
      by (auto simp: taint_trace_offset_def split: Option.bind_splits intro: add_constraints_union_good [OF assms(2)])
  next
    case fsize then show ?thesis
      by (auto simp: taint_trace_size_def split: Option.bind_splits intro: add_constraints_union_good [OF assms(2)])
  qed (use assms(2) in \<open>simp_all add: taint_set_file_def is_taint_file_def taint_close_file_def set_utmp_offset_def
      taint_set_offset_label_def\<close>)
qed

section \<open>The start\<close>

lemma rt_inv_new_table:
  assumes "rt_inv s" "\<And>b. bucket (fst t) b = []"
  shows "rt_inv (s\<lparr>union_table := t\<rparr>)"
  using assms by (simp add: rt_inv_def lookup_key_def ht_lookup_def ht_keys_def ht_inv_def)

definition rt_zero :: "rt_flags \<Rightarrow> (u64 \<Rightarrow> u8) \<Rightarrow> rt" where
  "rt_zero fl mem =
     \<lparr>last_label = 0, label_info = (\<lambda>_. info_zero)(CONST_LABEL := info_zero\<lparr>lsize := 8\<rparr>),
      union_table = (\<lparr>bucket = (\<lambda>_. []), bucket_size = 0\<rparr>, allocator_init kHashTableAddr (kHashTableAddr + 0x100000000)),
      shadow_mem = (\<lambda>_. 0), app_mem = mem, pipe = [], branches = Map.empty, tainted = taint_file_zero, callstack = 0,
      angora_context = 0, rt_tid = flag_tid fl, solver_select = flag_solver_select fl\<rparr>"

lemma dfsan_init_zero: "dfsan_init os fl mem = InitializeTaintFile os (flag_taint_file fl) (rt_zero fl mem)"
  by (simp add: dfsan_init_def rt_zero_def Let_def)

lemma rt_zero_good: "rt_good (rt_zero fl mem)"
proof -
  have "x \<le> 0 \<longleftrightarrow> x = (0 :: u32)" for x by simp
  then show ?thesis
    by (auto simp: rt_good_def reported_ok_def report_count_def rt_inv_def rt_zero_def ht_keys_def ht_inv_def
        lookup_key_def ht_lookup_def)
qed

lemma InitializeTaintFile_good:
  assumes "rt_good s" "InitializeTaintFile os f s = Some s'"
  shows "rt_good s'"
proof -
  have mk: "rt_good s'" if "create_labels 0 n (s\<lparr>tainted := t\<rparr>) = Some s'" for n t
  proof -
    have g: "rt_good (s\<lparr>tainted := t\<rparr>)" using assms(1) by simp
    then have "rt_inv (s\<lparr>tainted := t\<rparr>)" by (simp add: rt_good_def)
    then show ?thesis using create_labels_ext [OF _ that] rt_ext_good [OF g] by blast
  qed
  have id: "rt_good s'" if "s\<lparr>tainted := t\<rparr> = s'" for t using assms(1) that by auto
  show ?thesis
    using assms(2) mk id
    by (auto simp: InitializeTaintFile_def Let_def case_prod_beta split: if_splits option.splits)
qed

lemma rt_start_good:
  assumes "rt_start os fl mem = Some s"
  shows "rt_good s"
proof -
  from assms obtain s0 t where i: "dfsan_init os fl mem = Some s0"
    and t: "union_hashtable_new 0x40000 (snd (union_table s0)) = Some t" and s: "s = s0\<lparr>union_table := t\<rparr>"
    by (auto simp: rt_start_def split: Option.bind_splits)
  have g: "rt_good s0" using InitializeTaintFile_good [OF rt_zero_good] i by (simp add: dfsan_init_zero)
  have "bucket (fst t) b = []" for b
    using t by (auto simp: union_hashtable_new_def split: Option.bind_splits)
  with g show ?thesis
    using rt_inv_new_table by (auto simp: s rt_good_def reported_ok_def report_count_def label_flipped_def)
qed

lemma rt_reach_good: "rt_reach os fl s \<Longrightarrow> rt_good s"
  by (induction rule: rt_reach.induct) (auto intro: rt_start_good rt_step_good)

section \<open>Properties\<close>

text \<open>
  C7. In every state an instrumented program can reach, fewer than \<open>2^30\<close> labels are in use,
  the operands of a label are older than the label, so the label graph has no cycle, and no
  label has been reported to the solver more than once.
\<close>

theorem rt_reachable:
  assumes "rt_reach os fl s"
  shows "unat (last_label s) < 2 ^ 30
    \<and> (\<forall>l. 0 < l \<and> l \<le> last_label s \<longrightarrow> l1 (label_info s l) < l \<and> l2 (label_info s l) < l)
    \<and> (\<forall>l. report_count l s \<le> 1)"
  using rt_reach_good [OF assms] by (auto simp: rt_good_def rt_inv_def reported_ok_def)

text \<open>A host with one file of four bytes.\<close>

definition sample_os :: os_env where
  "sample_os = \<lparr>os_realpath = (\<lambda>f. (True, f)), os_stat_size = (\<lambda>f. 4), os_fstat_stdin = None, os_can_map = (\<lambda>f. True)\<rparr>"

definition sample_flags :: rt_flags where
  "sample_flags = \<lparr>flag_taint_file = ''in'', flag_tid = 0, flag_solver_select = 0\<rparr>"

definition sample_rt :: rt where
  "sample_rt = the (rt_start sample_os sample_flags (\<lambda>_. 0))"

lemma sample_rt_start: "rt_start sample_os sample_flags (\<lambda>_. 0) = Some sample_rt"
proof -
  have "rt_start sample_os sample_flags (\<lambda>_. 0) \<noteq> None" by code_simp
  then show ?thesis by (simp add: sample_rt_def)
qed

theorem rt_reachable_witness: "unat (last_label sample_rt) < 2 ^ 30 \<and> report_count 1 sample_rt \<le> 1"
  using rt_reachable [OF rt_reach.start [OF sample_rt_start]] by blast

lemma sample_inv: "rt_inv sample_rt"
  using rt_start_good [OF sample_rt_start] by (simp add: rt_good_def)

text \<open>
  C8. Labels are hash-consed. A union that has succeeded once gives the same label, in the same
  state, when it is asked for again, for a commutative operator also with the operands
  exchanged, and neither call changes the descriptor of an existing label.
\<close>

theorem taint_union_hashcons:
  assumes "rt_inv s" "taint_union x y op n v1 v2 s = Some (l, s')"
  shows "rt_inv s' \<and> rt_le s s' \<and> taint_union x y op n v1 v2 s' = Some (l, s')
    \<and> (is_commutative op \<longrightarrow> taint_union y x op n v2 v1 s' = Some (l, s'))"
proof -
  note ok = taint_union_ok [OF assms]
  have again: "taint_union x y op n v1 v2 s' = Some (l, s')"
    using ok by (auto simp: taint_union_alt split: if_splits)
  have "taint_union y x op n v2 v1 s' = Some (l, s')" if c: "is_commutative op"
  proof (cases "x = y")
    case True
    have op: "op \<noteq> OP_fsize" using c by (auto simp: is_commutative_def op_defs)
    have "taint_union x x op n v2 v1 s' = taint_union x x op n v1 v2 s'"
    proof (cases "x = 0")
      case False
      then have "key_of x x op n v2 v1 = key_of x x op n v1 v2"
        using label_pos [of x] by (simp add: key_of_def order_operands_def union_key_def word_gt_0)
      then show ?thesis by (simp only: taint_union_alt)
    qed (simp add: taint_union_alt const_union_def op)
    then show ?thesis using again True by simp
  next
    case False
    then have "key_of y x op n v2 v1 = key_of x y op n v1 v2" using key_of_comm [OF c] by metis
    then have "taint_union y x op n v2 v1 s' = taint_union x y op n v1 v2 s'"
      by (simp only: taint_union_alt const_union_def conj_commute conj_left_commute disj_commute)
    then show ?thesis using again by simp
  qed
  with ok again show ?thesis by blast
qed

text \<open>The sum of the first two bytes of the sample file, as 8-bit values.\<close>

definition sample_sum :: "dfsan_label \<times> rt" where
  "sample_sum = the (taint_union 1 2 OP_Add 8 0 0 sample_rt)"

lemma sample_sum_run: "taint_union 1 2 OP_Add 8 0 0 sample_rt = Some sample_sum"
proof -
  have "(case rt_start sample_os sample_flags (\<lambda>_. 0) of None \<Rightarrow> False
         | Some s \<Rightarrow> taint_union 1 2 OP_Add 8 0 0 s \<noteq> None)" by code_simp
  then show ?thesis unfolding sample_rt_start by (simp add: sample_sum_def)
qed

theorem taint_union_hashcons_witness:
  "taint_union 2 1 OP_Add 8 0 0 (snd sample_sum) = Some sample_sum"
proof -
  have "is_commutative OP_Add" by (simp add: is_commutative_def op_defs)
  then show ?thesis
    using taint_union_hashcons [OF sample_inv, of 1 2 OP_Add 8 0 0 "fst sample_sum" "snd sample_sum"] sample_sum_run
    by simp
qed

end
