(* ===== verification/Taint_Roundtrip.thy ===== *)
theory Taint_Roundtrip
  imports Taint_Props
begin

text \<open>
  What a program sees of the label space: labels survive a store and the load after it, input
  bytes keep their labels when they are copied as a word, the bytes of the tainted file are
  labelled by offset, application addresses and shadow addresses correspond, and the search
  for a label inside another ends.
\<close>

section \<open>Storing and loading\<close>

lemma load_single_extract:
  assumes "rt_inv s" "label_at s ls 0 = l" "0 < l" "l \<le> last_label s" "lsize (label_info s l) = 8"
    and "lop (label_info s l) = OP_Extract" "lsize (label_info s (l1 (label_info s l))) \<noteq> 8"
  shows "taint_union_load ls 1 s = Some (l, s)"
proof -
  let ?z = "lsize (label_info s (l1 (label_info s l)))"
  have "(ucast ?z :: u64) \<noteq> 8"
  proof
    assume "(ucast ?z :: u64) = 8"
    then have "unat (ucast ?z :: u64) = 8" by simp
    moreover have "unat ?z < 65536" using unsigned_less [where ?'a = nat, of ?z] by simp
    ultimately have "unat ?z = unat (8 :: u16)" by (simp add: unsigned_ucast_eq take_bit_eq_mod)
    then show False using assms(7) by (simp only: word_unat_eq_iff)
  qed
  then have "load_slow ls 1 l s = Some (l, s)"
    using assms(2,5) by (simp add: load_slow_def Let_def concat_loop_done)
  then show ?thesis
    using assms not_init [OF assms(1,4)] label_pos [OF assms(3)]
    by (simp add: taint_union_load_def Let_def OP_Extract_def)
qed

text \<open>
  C12. A store followed by a load of the same bytes gives the label back. The label has as many
  bits as the bytes it is stored to and is not a word of input bytes; a one-byte extract of a
  one-byte label is the exception, for it is loaded as the label it is taken from.
\<close>

theorem store_load_roundtrip:
  assumes "rt_inv s" "0 < l" "l \<le> last_label s" "0 < n" "n < 2 ^ 13" "lsize (label_info s l) = of_nat (n * 8)"
    and "lop (label_info s l) \<noteq> OP_Load \<or> n = 1"
    and "n = 1 \<longrightarrow> lop (label_info s l) = OP_Extract \<longrightarrow> lsize (label_info s (l1 (label_info s l))) \<noteq> 8"
    and "taint_union_store l ls n s = Some s'"
  shows "rt_inv s' \<and> taint_union_load ls n s' = Some (l, s')"
proof (cases "n = 1")
  case True
  note ni = not_init [OF assms(1,3)]
  have s': "s' = set_label_at ls 0 l s" and z: "lsize (label_info s l) = 8"
    using assms(2,3,6,9) ni True by (auto simp: taint_union_store_def Let_def split: if_splits)
  have "rt_inv s'" "label_at s' ls 0 = l" "l \<le> last_label s'" and li: "label_info s' = label_info s"
    using assms(1,3) by (simp_all add: s' label_at_set)
  then have "taint_union_load ls 1 s' = Some (l, s')"
    using load_single [of s' ls l] load_single_extract [of s' ls l] assms(2,8) True z
    by (cases "lop (label_info s l) = OP_Extract") simp_all
  then show ?thesis using \<open>rt_inv s'\<close> True by simp
next
  case False
  have "extract_all l ls [0..<n] s = Some s'"
    using assms(2,3,7,9) not_init [OF assms(1,3)] False
    by (auto simp: taint_union_store_def Let_def is_kind_of_label_def split: if_splits)
  note ok = extract_all_ok [OF assms(1) this _ _ assms(2) not_init [OF assms(1,3)]]
  have small: "\<forall>i \<in> set [0..<n]. i < 2 ^ 30"
  proof
    fix i assume "i \<in> set [0..<n]"
    then have "i < 2 ^ 13" using assms(5) by (simp del: power_numeral)
    then show "i < 2 ^ 30" by simp
  qed
  have "lsize (label_info s' l) = of_nat (n * 8)"
    using ok [OF _ small] assms(3,6) by (simp add: rt_le_def info_eq_def)
  then have "taint_union_load ls n s' = Some (l, s')"
    by (intro load_extracts) (use ok [OF _ small] assms(2,4,5) in auto)
  then show ?thesis using ok [OF _ small] by simp
qed


text \<open>The sum of two input bytes, stored to the shadow of a local variable.\<close>

definition sample_addr :: u64 where "sample_addr = 0x7fff00000000"

definition sample_store :: rt where
  "sample_store = the (taint_union_store (fst sample_sum) (shadow_for sample_addr) 1 (snd sample_sum))"

lemma sample_sum_inv: "rt_inv (snd sample_sum)"
  using taint_union_ok [OF sample_inv, of 1 2 OP_Add 8 0 0 "fst sample_sum" "snd sample_sum"] sample_sum_run by simp

lemma sample_sum_fields:
  "0 < fst sample_sum" "fst sample_sum \<le> last_label (snd sample_sum)"
  "lsize (label_info (snd sample_sum) (fst sample_sum)) = 8" "lop (label_info (snd sample_sum) (fst sample_sum)) = OP_Add"
proof -
  have k: "key_of 1 2 OP_Add 8 0 0 = union_key 1 2 OP_Add 8 0 0"
    by (simp add: key_of_def order_operands_def word_less_nat_alt)
  have "lookup_key (snd sample_sum) (union_key 1 2 OP_Add 8 0 0) = Some (fst sample_sum)"
    unfolding k [symmetric]
    by (rule taint_union_label [OF sample_inv]) (simp_all add: sample_sum_run const_union_def label_consts)
  note d = lookup_keyD [OF sample_sum_inv this]
  show "0 < fst sample_sum" "fst sample_sum \<le> last_label (snd sample_sum)" by (fact d)+
  show "lsize (label_info (snd sample_sum) (fst sample_sum)) = 8" "lop (label_info (snd sample_sum) (fst sample_sum)) = OP_Add"
    using d(4) by (simp_all add: info_eq_def union_key_def)
qed

lemma sample_store_run:
  "taint_union_store (fst sample_sum) (shadow_for sample_addr) 1 (snd sample_sum) = Some sample_store"
  using sample_sum_fields not_init [OF sample_sum_inv sample_sum_fields(2)]
  by (simp add: sample_store_def taint_union_store_def)

theorem store_load_roundtrip_witness:
  "taint_union_load (shadow_for sample_addr) 1 sample_store = Some (fst sample_sum, sample_store)"
  using store_load_roundtrip [OF sample_sum_inv sample_sum_fields(1,2), of 1] sample_sum_fields(3,4) sample_store_run
  by (simp add: op_defs)

section \<open>Input bytes\<close>

text \<open>Labels \<open>a, a + 1, \<dots>\<close> are the input bytes from offset \<open>off\<close> on.\<close>

definition input_labels :: "rt \<Rightarrow> dfsan_label \<Rightarrow> u64 \<Rightarrow> nat \<Rightarrow> bool" where
  "input_labels s a off n \<longleftrightarrow> 0 < a \<and> unat a + n \<le> Suc (unat (last_label s))
     \<and> (\<forall>i < n. lop (label_info s (a + of_nat i)) = 0 \<and> lsize (label_info s (a + of_nat i)) = 8
          \<and> op1 (label_info s (a + of_nat i)) = off + of_nat i)"

lemma input_labels_le:
  assumes "input_labels s a off n" "i < n" "rt_inv s"
  shows "0 < a + of_nat i" "a + of_nat i \<le> last_label s" "a + of_nat i \<noteq> kInitializingLabel"
proof -
  have b: "unat a + i \<le> unat (last_label s)" "0 < a" using assms(1,2) by (auto simp: input_labels_def)
  have "unat (last_label s) < 2 ^ 30" using assms(3) by (simp add: rt_inv_def)
  then have u: "unat (a + of_nat i) = unat a + i"
    using b(1) by (simp add: unat_word_ariths unat_of_nat)
  show "0 < a + of_nat i" using b(2) u by (simp add: word_less_nat_alt)
  show le: "a + of_nat i \<le> last_label s" using b(1) u by (simp add: word_le_nat_alt)
  show "a + of_nat i \<noteq> kInitializingLabel" by (rule not_init [OF assms(3) le])
qed

lemma input_labels_rt_le:
  assumes "input_labels s a off n" "rt_le s s'" "rt_inv s"
  shows "input_labels s' a off n"
proof -
  have "info_eq (label_info s' (a + of_nat i)) (label_info s (a + of_nat i))" if "i < n" for i
    using assms(2) input_labels_le(2) [OF assms(1) that assms(3)] by (simp add: rt_le_def)
  moreover have "unat (last_label s) \<le> unat (last_label s')" using assms(2) by (simp add: rt_le_def word_le_nat_alt)
  ultimately show ?thesis using assms(1) unfolding input_labels_def info_eq_def by fastforce
qed

lemma shape_loop_input:
  assumes "input_labels s a off n" "rt_inv s" "\<forall>i \<in> set is. i < n \<and> label_at s ls i = a + of_nat i"
  shows "shape_loop s ls off is = Some True"
  using assms(3)
proof (induction "is")
  case (Cons i "is")
  then show ?case using input_labels_le(3) [OF assms(1) _ assms(2)] assms(1) by (simp add: input_labels_def)
qed simp

text \<open>Loading consecutive input bytes is a union with operator \<open>Load\<close>.\<close>

lemma load_input_bytes:
  assumes "rt_inv s" "input_labels s a off n" "1 < n" "\<forall>i < n. label_at s ls i = a + of_nat i"
  shows "taint_union_load ls n s = taint_union a (of_nat n) OP_Load (of_nat (n * 8)) 0 0 s"
proof -
  have at0: "label_at s ls 0 = a" using assms(3,4) by fastforce
  have a: "0 < a" "a \<noteq> kInitializingLabel" using input_labels_le [OF assms(2) _ assms(1), of 0] assms(3) by auto
  have i0: "lop (label_info s a) = 0" "lsize (label_info s a) = 8" "op1 (label_info s a) = off"
    using assms(2,3) unfolding input_labels_def by fastforce+
  have "shape_loop s ls off [1..<n] = Some True"
    by (rule shape_loop_input [OF assms(2,1)]) (use assms(4) in auto)
  then show ?thesis
    using label_pos [OF a(1)] a i0 assms(3) by (simp add: taint_union_load_def at0 Let_def)
qed

text \<open>
  C27. Copying input as a word keeps the labels of its bytes. When consecutive input bytes are
  loaded as one word and the word is stored elsewhere, every byte of the copy has the label of
  the input byte it comes from, and loading the copy gives the label of the word again.
\<close>

theorem input_copy_roundtrip:
  assumes "rt_inv s" "input_labels s a off n" "1 < n" "n < 2 ^ 13"
    and "\<forall>i < n. label_at s src i = a + of_nat i" and "taint_union_load src n s = Some (l, s1)" "taint_union_store l dst n s1 = Some s2"
  shows "(\<forall>i < n. label_at s2 dst i = a + of_nat i) \<and> taint_union_load dst n s2 = Some (l, s2)"
proof -
  have u: "taint_union a (of_nat n) OP_Load (of_nat (n * 8)) 0 0 s = Some (l, s1)"
    using assms(6) load_input_bytes [OF assms(1-3,5)] by simp
  note ok = taint_union_ok [OF assms(1) u]
  have a: "0 < a" "a \<le> last_label s" "a \<noteq> kInitializingLabel"
    using input_labels_le [OF assms(2) _ assms(1), of 0] assms(3) by auto
  have n32: "unat (of_nat n :: u32) = n" using assms(4) by (simp add: unat_of_nat)
  have nl: "(of_nat n :: u32) \<le> last_label s" using assms(2) n32 by (auto simp: word_le_nat_alt input_labels_def word_less_nat_alt)
  have nk: "(of_nat n :: u32) \<noteq> kInitializingLabel" by (rule not_init [OF assms(1) nl])
  have nc: "\<not> const_union a (of_nat n) OP_Load" using a(1) by (auto simp: const_union_def)
  have key: "key_of a (of_nat n) OP_Load k 0 0 = union_key a (of_nat n) OP_Load k 0 0" for k
    by (simp add: key_of_def order_operands_def is_commutative_def op_defs)
  note lk = taint_union_label [OF assms(1) u nc a(3) nk, unfolded key]
  note d = lookup_keyD [OF _ lk]
  have inv1: "rt_inv s1" and le1: "rt_le s s1" using ok by simp_all
  have info: "lop (label_info s1 l) = OP_Load" "l1 (label_info s1 l) = a"
    using d(4) [OF inv1] by (simp_all add: info_eq_def union_key_def)
  have s2: "s2 = fill_labels (\<lambda>i. a + of_nat i) dst [0..<n] s1"
    using assms(3,7) d(1-3) [OF inv1] info
    by (auto simp: taint_union_store_def Let_def is_kind_of_label_def word_gt_0 split: if_splits)
  have small: "\<forall>i \<in> set [0..<n]. i < 2 ^ 30"
  proof
    fix i assume "i \<in> set [0..<n]"
    then have "i < 2 ^ 13" using assms(4) by (simp del: power_numeral)
    then show "i < 2 ^ 30" by simp
  qed
  have at: "label_at s2 dst i = a + of_nat i" if "i < n" for i
    unfolding s2 using label_at_fill [OF small, of i] small that by simp
  have inv2: "rt_inv s2" using inv1 by (simp add: s2)
  have le2: "rt_le s1 s2" by (simp add: s2)
  have in2: "input_labels s2 a off n"
    by (rule input_labels_rt_le [OF input_labels_rt_le [OF assms(2) le1 assms(1)] le2 inv1])
  have "taint_union a (of_nat n) OP_Load (of_nat (n * 8)) 0 0 s2 = Some (l, s2)"
    using lookup_key_le [OF inv1 inv2 le2 lk] nc a(3) nk by (simp add: taint_union_alt key)
  then show ?thesis using load_input_bytes [OF inv2 in2 assms(3)] at by simp
qed

section \<open>The tainted file\<close>

lemma start_labels:
  assumes "rt_start os fl mem = Some s" "flag_taint_file fl \<notin> {'''', ''stdin''}" "fst (os_realpath os (flag_taint_file fl))"
    and "k = unat (os_stat_size os (flag_taint_file fl))"
  shows "unat (last_label s) = k"
    "\<And>i. i < k \<Longrightarrow> label_info s (1 + of_nat i) = info_zero\<lparr>lsize := 8, op1 := of_nat i\<rparr>"
proof -
  from assms(1) obtain s0 t where i: "dfsan_init os fl mem = Some s0" and s: "s = s0\<lparr>union_table := t\<rparr>"
    by (auto simp: rt_start_def split: Option.bind_splits)
  let ?t = "taint_file_zero\<lparr>tf_filename := snd (os_realpath os (flag_taint_file fl)), tf_size := os_stat_size os (flag_taint_file fl)\<rparr>"
  have "create_labels 0 k (rt_zero fl mem\<lparr>tainted := ?t\<rparr>) = Some s0"
    using i assms(2-4)
    by (auto simp: dfsan_init_zero InitializeTaintFile_def Let_def case_prod_beta rt_zero_def taint_file_zero_def split: if_splits)
  moreover have "rt_inv (rt_zero fl mem\<lparr>tainted := ?t\<rparr>)" using rt_zero_good by (simp add: rt_good_def)
  ultimately have "unat (last_label s) = k
    \<and> (\<forall>i < k. label_info s (1 + of_nat i) = info_zero\<lparr>lsize := 8, op1 := of_nat i\<rparr>)"
    using create_labels_ext [of "rt_zero fl mem\<lparr>tainted := ?t\<rparr>" 0 k s0] by (simp add: rt_zero_def s)
  then show "unat (last_label s) = k"
    "\<And>i. i < k \<Longrightarrow> label_info s (1 + of_nat i) = info_zero\<lparr>lsize := 8, op1 := of_nat i\<rparr>" by simp_all
qed

text \<open>
  C28. After the start with a regular file of \<open>k\<close> bytes there are exactly \<open>k\<close> labels, and the
  labels from 1 on are the bytes of the file from offset 0 on.
\<close>

theorem start_labels_file:
  assumes "rt_start os fl mem = Some s" "flag_taint_file fl \<notin> {'''', ''stdin''}" "fst (os_realpath os (flag_taint_file fl))"
  shows "unat (last_label s) = unat (os_stat_size os (flag_taint_file fl))
    \<and> input_labels s 1 0 (unat (os_stat_size os (flag_taint_file fl)))"
  using start_labels [OF assms refl] by (simp add: input_labels_def info_zero_def)

lemma sample_size: "flag_taint_file sample_flags \<notin> {'''', ''stdin''}"
    "fst (os_realpath sample_os (flag_taint_file sample_flags))" "4 = unat (os_stat_size sample_os (flag_taint_file sample_flags))"
  by (simp_all add: sample_flags_def sample_os_def)

theorem start_labels_file_witness: "unat (last_label sample_rt) = 4 \<and> input_labels sample_rt 1 0 4"
  using start_labels_file [OF sample_rt_start sample_size(1,2)] unfolding sample_size(3) [symmetric] .

text \<open>The first two bytes of the sample file in memory, loaded as a word and stored next to them.\<close>

definition sample_input :: rt where
  "sample_input = fill_labels (\<lambda>i. 1 + of_nat i) (shadow_for sample_addr) [0..<2] sample_rt"

lemma sample_input_ok:
  "rt_inv sample_input" "input_labels sample_input 1 0 2" "\<forall>i < 2. label_at sample_input (shadow_for sample_addr) i = 1 + of_nat i"
proof -
  note l = start_labels [OF sample_rt_start sample_size]
  show "rt_inv sample_input" by (simp add: sample_input_def sample_inv)
  show "input_labels sample_input 1 0 2" by (simp add: sample_input_def input_labels_def l info_zero_def)
  show "\<forall>i < 2. label_at sample_input (shadow_for sample_addr) i = 1 + of_nat i"
    by (auto simp: sample_input_def label_at_fill)
qed

definition sample_word :: "dfsan_label \<times> rt" where
  "sample_word = the (taint_union_load (shadow_for sample_addr) 2 sample_input)"

definition sample_copy :: rt where
  "sample_copy = the (taint_union_store (fst sample_word) (shadow_for (sample_addr + 2)) 2 (snd sample_word))"

lemma sample_copy_run:
  "taint_union_load (shadow_for sample_addr) 2 sample_input = Some sample_word"
  "taint_union_store (fst sample_word) (shadow_for (sample_addr + 2)) 2 (snd sample_word) = Some sample_copy"
proof -
  have "(case rt_start sample_os sample_flags (\<lambda>_. 0) of None \<Rightarrow> False
         | Some s \<Rightarrow> (case taint_union_load (shadow_for sample_addr) 2 (fill_labels (\<lambda>i. 1 + of_nat i) (shadow_for sample_addr) [0..<2] s) of
             None \<Rightarrow> False
           | Some (l, s') \<Rightarrow> taint_union_store l (shadow_for (sample_addr + 2)) 2 s' \<noteq> None))" by code_simp
  then have "case taint_union_load (shadow_for sample_addr) 2 sample_input of None \<Rightarrow> False
      | Some (l, s') \<Rightarrow> taint_union_store l (shadow_for (sample_addr + 2)) 2 s' \<noteq> None"
    unfolding sample_rt_start by (simp add: sample_input_def)
  then show "taint_union_load (shadow_for sample_addr) 2 sample_input = Some sample_word"
    "taint_union_store (fst sample_word) (shadow_for (sample_addr + 2)) 2 (snd sample_word) = Some sample_copy"
    by (auto simp: sample_word_def sample_copy_def split: option.splits)
qed

theorem input_copy_roundtrip_witness:
  "taint_union_load (shadow_for (sample_addr + 2)) 2 sample_copy = Some (fst sample_word, sample_copy)"
  using input_copy_roundtrip [OF sample_input_ok(1,2) _ _ sample_input_ok(3), of "fst sample_word" "snd sample_word"] sample_copy_run
  by simp

section \<open>Addresses\<close>

text \<open>
  C29. The shadow of an application address lies between the start of the shadow and the hash
  table, is aligned to the size of a label, belongs to no other application address, and
  \<open>app_for\<close> recovers the address from it.
\<close>

theorem shadow_mapping:
  assumes "kAppAddr \<le> p" "p < 0x800000000000"
  shows "kShadowAddr \<le> shadow_for p \<and> shadow_for p < kHashTableAddr \<and> 4 dvd unat (shadow_for p)
    \<and> app_for (shadow_for p) = p
    \<and> (\<forall>q. kAppAddr \<le> q \<and> q < 0x800000000000 \<and> shadow_for q = shadow_for p \<longrightarrow> q = p)"
proof -
  have rec: "app_for (shadow_for q) = q" if "kAppAddr \<le> q" "q < 0x800000000000" for q
  proof (rule app_for_shadow_for)
    show "kAppBaseAddr \<le> q" using that(1) by (simp add: kAppBaseAddr_def kAppAddr_def word_le_nat_alt)
  qed (fact that(2))
  show ?thesis
    using shadow_for_bounds [OF assms] rec [OF assms] rec by (metis dvd_eq_mod_eq_0)
qed

theorem shadow_mapping_witness: "app_for (shadow_for 0x7fff12345678) = 0x7fff12345678"
  using shadow_mapping [of "0x7fff12345678"] by (simp add: kAppAddr_def)

section \<open>Searching a label\<close>

text \<open>The labels a label is made of, directly or indirectly.\<close>

definition operand :: "infos \<Rightarrow> dfsan_label \<Rightarrow> dfsan_label \<Rightarrow> bool" where
  "operand I x y \<longleftrightarrow> y \<noteq> 0 \<and> (y = l1 (I x) \<or> y = l2 (I x))"

text \<open>
  C30. The search for one label in another ends for every label the runtime has handed out, and
  a positive answer is right: the label found is an operand, directly or indirectly.
\<close>

theorem has_label_ends:
  assumes "rt_inv s" "0 < label" "label \<le> last_label s"
  shows "\<exists>b. dfsan_has_label (label_info s) label elem = Some b \<and> (b \<longrightarrow> (operand (label_info s))\<^sup>*\<^sup>* label elem)"
  using assms(2,3)
proof (induction "unat label" arbitrary: label rule: less_induct)
  case less
  let ?I = "label_info s"
  have ops: "l1 (?I label) < label" "l2 (?I label) < label" using assms(1) less.prems by (auto simp: rt_inv_def)
  have down: "unat x < unat label \<and> 0 < x \<and> x \<le> last_label s" if "operand ?I label x" for x
    using that ops less.prems by (auto simp: operand_def word_less_nat_alt word_le_nat_alt word_unat_eq_iff)
  have step: "\<exists>b. dfsan_has_label ?I x elem = Some b \<and> (b \<longrightarrow> (operand ?I)\<^sup>*\<^sup>* label elem)" if "operand ?I label x" for x
    using less.hyps [of x] down [OF that] that converse_rtranclp_into_rtranclp [of "operand ?I" label x elem] by blast
  show ?case
    using step [of "l1 (?I label)"] step [of "l2 (?I label)"]
    by (subst dfsan_has_label.simps) (auto simp: operand_def)
qed

theorem has_label_ends_witness:
  "\<exists>b. dfsan_has_label (label_info (snd sample_sum)) (fst sample_sum) 2 = Some b"
  using has_label_ends [OF sample_sum_inv sample_sum_fields(1,2), of 2] by blast

text \<open>The operands that a union records.\<close>

lemma union_fields:
  assumes "rt_inv s" "taint_union x y op n v1 v2 s = Some (l, s')" "\<not> const_union x y op"
    and "x \<noteq> kInitializingLabel" "y \<noteq> kInitializingLabel" "x \<le> y"
  shows "rt_inv s'" "0 < l" "l \<le> last_label s'" "l1 (label_info s' l) = x" "l2 (label_info s' l) = y" "lop (label_info s' l) = op"
proof -
  show inv: "rt_inv s'" using taint_union_ok [OF assms(1,2)] by simp
  have "key_of x y op n v1 v2 = union_key x y op n v1 v2" using assms(6) by (simp add: key_of_def order_operands_def not_less [symmetric])
  note d = lookup_keyD [OF inv taint_union_label [OF assms(1-5), unfolded this]]
  show "0 < l" "l \<le> last_label s'" by (fact d)+
  show "l1 (label_info s' l) = x" "l2 (label_info s' l) = y" "lop (label_info s' l) = op"
    using d(4) by (simp_all add: info_eq_def union_key_def)
qed

text \<open>The search goes down, so it finds no younger label.\<close>

lemma has_label_younger:
  assumes "rt_inv s" "0 < x" "x \<le> last_label s" "x < y"
  shows "dfsan_has_label (label_info s) x y = Some False"
  using assms(2-4)
proof (induction "unat x" arbitrary: x rule: less_induct)
  case less
  let ?I = "label_info s"
  have ops: "l1 (?I x) < x" "l2 (?I x) < x" using assms(1) less.prems by (auto simp: rt_inv_def)
  have "dfsan_has_label ?I z y = Some False" if "z < x" "z \<noteq> 0" for z
    using less.hyps [of z] that less.prems by (auto simp: word_less_nat_alt word_le_nat_alt word_unat_eq_iff)
  with ops less.prems(3) show ?case by (subst dfsan_has_label.simps) auto
qed

text \<open>
  C31. The search for a label follows the left operand only. Whatever the operator and the values,
  the union of a label with a younger label records the younger one as its right operand, and the
  search then denies that the union contains it.
\<close>

theorem has_label_misses_right:
  assumes "rt_inv s" "0 < x" "x < y" "y \<le> last_label s" "taint_union x y op n v1 v2 s = Some (l, s')"
  shows "l2 (label_info s' l) = y \<and> dfsan_has_label (label_info s') l y = Some False"
proof -
  have "x \<noteq> kInitializingLabel" "y \<noteq> kInitializingLabel" "x \<le> last_label s" "\<not> const_union x y op"
    using not_init [OF assms(1)] assms(2-4) by (auto simp: const_union_def)
  note u = union_fields [OF assms(1,5) this(4,1,2) order_less_imp_le [OF assms(3)]]
  have lt: "y < l" using u(1-3,5) by (auto simp: rt_inv_def)
  then have "dfsan_has_label (label_info s') x y = Some False"
    using has_label_younger [OF u(1) assms(2) _ assms(3)] u(3) assms(3) by auto
  with lt u(4) assms(2) have "dfsan_has_label (label_info s') l y = Some False"
    by (subst dfsan_has_label.simps) auto
  with u(5) show ?thesis by simp
qed

theorem has_label_misses_right_witness:
  "l2 (label_info (snd sample_sum) (fst sample_sum)) = 2
   \<and> dfsan_has_label (label_info (snd sample_sum)) (fst sample_sum) 2 = Some False"
proof -
  have "unat (last_label sample_rt) = 4" using start_labels [OF sample_rt_start sample_size] by simp
  then have "2 \<le> last_label sample_rt" by (simp add: word_le_nat_alt)
  then show ?thesis
    by (intro has_label_misses_right [OF sample_inv, of 1 2 OP_Add 8 0 0]) (simp_all add: sample_sum_run)
qed

section \<open>A constant in front of an input byte\<close>

lemma taint_union_app_mem:
  assumes "op \<noteq> OP_fmemcmp"
  shows "taint_union x y op n v1 v2 (s\<lparr>app_mem := mem\<rparr>) =
    map_option (\<lambda>(l, s'). (l, s'\<lparr>app_mem := mem\<rparr>)) (taint_union x y op n v1 v2 s)"
proof -
  have *: "union_fresh key (s\<lparr>app_mem := mem\<rparr>) = map_option (\<lambda>(l, s'). (l, s'\<lparr>app_mem := mem\<rparr>)) (union_fresh key s)"
    if "lop key \<noteq> OP_fmemcmp" for key
    using that by (simp add: union_fresh_def send_memcmp_def Let_def split: Option.bind_split)
  have "lop (key_of x y op n v1 v2) = op" by (simp add: key_of_def order_operands_def union_key_def)
  with assms show ?thesis by (simp add: taint_union_alt lookup_key_def * split: option.split)
qed

lemma shape_loop_offsets:
  assumes "rt_inv s" "\<forall>i \<in> set is. label_at s ls i \<le> last_label s \<and> op1 (label_info s (label_at s ls i)) = off + of_nat i"
  shows "shape_loop s ls off is = Some True"
  using assms(2) not_init [OF assms(1)] by (induction "is") auto

text \<open>
  C32. The test for consecutive input bytes reads the descriptor of the first label also when that
  is the constant label, and this descriptor looks like that of the input byte at offset 0. Take a
  word whose first byte is a constant and whose other bytes have labels with the offsets 1, 2 and
  so on of the input: it is loaded as one read of the input from the constant label on, and the
  value of the constant byte in memory, which should be part of the word, has no influence on the
  label.
\<close>

theorem load_constant_first:
  assumes "rt_inv s" "lop (label_info s CONST_LABEL) = 0" "op1 (label_info s CONST_LABEL) = 0" "2 \<le> n" "n < 2 ^ 30"
    and "label_at s ls 0 = CONST_LABEL"
    and "\<forall>i \<in> {1..<n}. 0 < label_at s ls i \<and> label_at s ls i \<le> last_label s \<and> op1 (label_info s (label_at s ls i)) = of_nat i"
    and "taint_union_load ls n s = Some (l, s')"
  shows "lop (label_info s' l) = OP_Load \<and> l1 (label_info s' l) = CONST_LABEL \<and> l2 (label_info s' l) = of_nat n
    \<and> taint_union_load ls n (s\<lparr>app_mem := mem\<rparr>) = Some (l, s'\<lparr>app_mem := mem\<rparr>)"
proof -
  have sh: "shape_loop s ls 0 [1..<n] = Some True"
    using assms(7) by (intro shape_loop_offsets [OF assms(1)]) auto
  have ld: "taint_union_load ls n t = taint_union CONST_LABEL (of_nat n) OP_Load (of_nat (n * 8)) 0 0 t"
    if "label_at t ls = label_at s ls" "label_info t = label_info s" "shape_loop t ls 0 [1..<n] = Some True" for t
  proof -
    have "1 \<in> set [1..<n]" "0 < label_at s ls 1" using assms(4,7) by auto
    then have "\<not> list_all (\<lambda>i. is_constant_label (label_at s ls i)) [1..<n]"
      by (auto simp: list_all_iff is_constant_label_def CONST_LABEL_def intro!: bexI [of _ 1])
    with that assms(2-4,6) show ?thesis by (simp add: taint_union_load_def Let_def label_consts)
  qed
  let ?n = "of_nat n :: u32"
  have n: "unat ?n = n" using assms(5) by (simp add: unat_of_nat)
  have c: "\<not> const_union CONST_LABEL ?n OP_Load" "?n \<noteq> kInitializingLabel" "CONST_LABEL \<noteq> kInitializingLabel" "CONST_LABEL \<le> ?n"
    using n assms(4,5) by (auto simp: const_union_def label_consts unsigned_minus_1_eq_mask mask_eq_exp_minus_1)
  note run = assms(8) [unfolded ld [OF refl refl sh]]
  note u = union_fields [OF assms(1) run c(1,3,2,4)]
  have "label_at (s\<lparr>app_mem := mem\<rparr>) ls = label_at s ls" by (simp add: label_at_def fun_eq_iff)
  moreover from this have "shape_loop (s\<lparr>app_mem := mem\<rparr>) ls 0 is = shape_loop s ls 0 is" for "is"
    by (induction "is") simp_all
  ultimately have "taint_union_load ls n (s\<lparr>app_mem := mem\<rparr>) = Some (l, s'\<lparr>app_mem := mem\<rparr>)"
    using ld [of "s\<lparr>app_mem := mem\<rparr>"] sh run taint_union_app_mem [of OP_Load CONST_LABEL ?n "of_nat (n * 8)" 0 0 mem s] by (simp add: op_defs)
  with u show ?thesis by simp
qed

text \<open>The sample file, with the label of its second byte behind a constant byte.\<close>

definition sample_gap :: rt where
  "sample_gap = sample_rt\<lparr>shadow_mem := (\<lambda>_. 0)(shadow_for sample_addr + 4 := 2)\<rparr>"

lemma sample_gap_run:
  obtains l s where "taint_union_load (shadow_for sample_addr) 2 sample_gap = Some (l, s)"
    "lop (label_info sample_gap CONST_LABEL) = 0" "op1 (label_info sample_gap CONST_LABEL) = 0"
proof -
  have "(case rt_start sample_os sample_flags (\<lambda>_. 0) of None \<Rightarrow> False
         | Some s0 \<Rightarrow> lop (label_info s0 CONST_LABEL) = 0 \<and> op1 (label_info s0 CONST_LABEL) = 0
             \<and> taint_union_load (shadow_for sample_addr) 2 (s0\<lparr>shadow_mem := (\<lambda>_. 0)(shadow_for sample_addr + 4 := 2)\<rparr>) \<noteq> None)"
    by code_simp
  then show thesis unfolding sample_rt_start by (auto simp: sample_gap_def intro: that)
qed

lemma sample_gap_labels:
  "rt_inv sample_gap" "label_at sample_gap (shadow_for sample_addr) 0 = CONST_LABEL"
  "\<forall>i \<in> {1..<2}. 0 < label_at sample_gap (shadow_for sample_addr) i \<and> label_at sample_gap (shadow_for sample_addr) i \<le> last_label sample_gap
     \<and> op1 (label_info sample_gap (label_at sample_gap (shadow_for sample_addr) i)) = of_nat i"
proof -
  note l = start_labels [OF sample_rt_start sample_size]
  show "rt_inv sample_gap" using sample_inv by (simp add: sample_gap_def rt_inv_def lookup_key_def)
  show "label_at sample_gap (shadow_for sample_addr) 0 = CONST_LABEL" by (simp add: sample_gap_def label_at_def CONST_LABEL_def)
  have "2 \<le> last_label sample_rt" using l(1) by (simp add: word_le_nat_alt)
  moreover have "op1 (label_info sample_rt 2) = 1" using l(2) [of 1] by (simp add: info_zero_def)
  moreover have "{1..<2} = {1 :: nat}" by auto
  ultimately show "\<forall>i \<in> {1..<2}. 0 < label_at sample_gap (shadow_for sample_addr) i \<and> label_at sample_gap (shadow_for sample_addr) i \<le> last_label sample_gap
     \<and> op1 (label_info sample_gap (label_at sample_gap (shadow_for sample_addr) i)) = of_nat i"
    by (simp add: sample_gap_def label_at_def)
qed

theorem load_constant_first_witness:
  "\<exists>l s. taint_union_load (shadow_for sample_addr) 2 (sample_gap\<lparr>app_mem := (\<lambda>_. 0x41)\<rparr>) = Some (l, s)
     \<and> taint_union_load (shadow_for sample_addr) 2 (sample_gap\<lparr>app_mem := (\<lambda>_. 0x42)\<rparr>) = Some (l, s\<lparr>app_mem := (\<lambda>_. 0x42)\<rparr>)"
proof -
  obtain l s where g: "taint_union_load (shadow_for sample_addr) 2 sample_gap = Some (l, s)"
    "lop (label_info sample_gap CONST_LABEL) = 0" "op1 (label_info sample_gap CONST_LABEL) = 0" by (rule sample_gap_run)
  have "2 \<le> (2 :: nat)" "(2 :: nat) < 2 ^ 30" by simp_all
  note c = load_constant_first [OF sample_gap_labels(1) g(2,3) this sample_gap_labels(2,3) g(1)]
  from c [of "\<lambda>_. 0x41"] c [of "\<lambda>_. 0x42"] show ?thesis
    by (intro exI [of _ l] exI [of _ "s\<lparr>app_mem := (\<lambda>_. 0x41)\<rparr>"]) simp
qed

end
