(* ===== verification/Pc_Threads.thy ===== *)
theory Pc_Threads
  imports Pc_Queue
begin

text \<open>
  The queue under concurrency: the producer thread runs \<open>write\<close> and the consumer thread \<open>read\<close>
  (\<open>pcqueue.h\<close>), and their accesses to the shared indices and records interleave. One step is
  one access, and the interleaving is sequentially consistent: an access sees the last store. The
  source asks for less, acquire loads and release stores of the two indices; reorderings that
  these orders allow are not modelled. A history of published and of consumed records goes with
  the state.
\<close>

section \<open>The two threads\<close>

text \<open>Where a thread is in its operation, with its local variables.\<close>

datatype 'a producer =
    PIdle
  | PLoaded 'a u32
  | PFree 'a u32 u32
  | PBuilt 'a u32

datatype 'a consumer =
    CIdle
  | CLoaded u32
  | CFound u32 u32
  | CMoved 'a u32 u32
  | CDestroyed 'a u32

record 'a spsc =
  que :: "'a pcq"
  prod :: "'a producer"
  cons :: "'a consumer"
  published :: "'a list"
  consumed :: "'a list"

text \<open>\<open>write\<close>: load the write index, load the read index and compare, construct the record, publish it.\<close>

inductive p_step :: "'a spsc \<Rightarrow> 'a spsc \<Rightarrow> bool" where
  load_write: "prod s = PIdle \<Longrightarrow> p_step s (s\<lparr>prod := PLoaded x (writeIndex (que s))\<rparr>)"
| is_full: "prod s = PLoaded x w \<Longrightarrow> next_record (que s) w = readIndex (que s) \<Longrightarrow> p_step s (s\<lparr>prod := PIdle\<rparr>)"
| has_room: "prod s = PLoaded x w \<Longrightarrow> next_record (que s) w \<noteq> readIndex (que s)
    \<Longrightarrow> p_step s (s\<lparr>prod := PFree x w (next_record (que s) w)\<rparr>)"
| construct: "prod s = PFree x w n
    \<Longrightarrow> p_step s (s\<lparr>que := (que s)\<lparr>records := (records (que s))[unat w := Some x]\<rparr>, prod := PBuilt x n\<rparr>)"
| publish: "prod s = PBuilt x n
    \<Longrightarrow> p_step s (s\<lparr>que := (que s)\<lparr>writeIndex := n\<rparr>, prod := PIdle, published := published s @ [x]\<rparr>)"

text \<open>\<open>read\<close>: load the read index, load the write index and compare, move the record out, destroy it, release the slot.\<close>

inductive c_step :: "'a spsc \<Rightarrow> 'a spsc \<Rightarrow> bool" where
  load_read: "cons s = CIdle \<Longrightarrow> c_step s (s\<lparr>cons := CLoaded (readIndex (que s))\<rparr>)"
| is_empty: "cons s = CLoaded r \<Longrightarrow> r = writeIndex (que s) \<Longrightarrow> c_step s (s\<lparr>cons := CIdle\<rparr>)"
| has_item: "cons s = CLoaded r \<Longrightarrow> r \<noteq> writeIndex (que s)
    \<Longrightarrow> c_step s (s\<lparr>cons := CFound r (next_record (que s) r)\<rparr>)"
| move_out: "cons s = CFound r n \<Longrightarrow> records (que s) ! unat r = Some x \<Longrightarrow> c_step s (s\<lparr>cons := CMoved x r n\<rparr>)"
| destroy: "cons s = CMoved x r n
    \<Longrightarrow> c_step s (s\<lparr>que := (que s)\<lparr>records := (records (que s))[unat r := None]\<rparr>, cons := CDestroyed x n\<rparr>)"
| release: "cons s = CDestroyed x n
    \<Longrightarrow> c_step s (s\<lparr>que := (que s)\<lparr>readIndex := n\<rparr>, cons := CIdle, consumed := consumed s @ [x]\<rparr>)"

definition spsc_new :: "'a pcq \<Rightarrow> 'a spsc" where
  "spsc_new q = \<lparr>que = q, prod = PIdle, cons = CIdle, published = [], consumed = []\<rparr>"

inductive spsc_reach :: "'a pcq \<Rightarrow> 'a spsc \<Rightarrow> bool" for q where
  start: "spsc_reach q (spsc_new q)"
| producer: "spsc_reach q s \<Longrightarrow> p_step s s' \<Longrightarrow> spsc_reach q s'"
| consumer: "spsc_reach q s \<Longrightarrow> c_step s s' \<Longrightarrow> spsc_reach q s'"

inductive_cases p_stepE: "p_step s s'"
inductive_cases c_stepE: "c_step s s'"

section \<open>The invariant\<close>

text \<open>
  Records are numbered in the order of publication. Number \<open>k\<close> is in slot \<open>k mod size\<close>; the
  published but not consumed ones fill their slots, all others are raw, up to the record under
  construction and the one just moved out.
\<close>

definition cell_of :: "'a spsc \<Rightarrow> nat \<Rightarrow> 'a option" where
  "cell_of s k = records (que s) ! (k mod unat (qsize (que s)))"

fun producer_ok :: "'a spsc \<Rightarrow> 'a producer \<Rightarrow> bool" where
  "producer_ok s PIdle \<longleftrightarrow> True"
| "producer_ok s (PLoaded x w) \<longleftrightarrow> w = writeIndex (que s)"
| "producer_ok s (PFree x w n) \<longleftrightarrow> w = writeIndex (que s) \<and> n = next_record (que s) w
     \<and> Suc (length (published s)) < length (consumed s) + unat (qsize (que s))"
| "producer_ok s (PBuilt x n) \<longleftrightarrow> n = next_record (que s) (writeIndex (que s))
     \<and> Suc (length (published s)) < length (consumed s) + unat (qsize (que s))"

fun consumer_ok :: "'a spsc \<Rightarrow> 'a consumer \<Rightarrow> bool" where
  "consumer_ok s CIdle \<longleftrightarrow> True"
| "consumer_ok s (CLoaded r) \<longleftrightarrow> r = readIndex (que s)"
| "consumer_ok s (CFound r n) \<longleftrightarrow> r = readIndex (que s) \<and> n = next_record (que s) r
     \<and> length (consumed s) < length (published s)"
| "consumer_ok s (CMoved x r n) \<longleftrightarrow> r = readIndex (que s) \<and> n = next_record (que s) r
     \<and> length (consumed s) < length (published s) \<and> x = published s ! length (consumed s)"
| "consumer_ok s (CDestroyed x n) \<longleftrightarrow> n = next_record (que s) (readIndex (que s))
     \<and> length (consumed s) < length (published s) \<and> x = published s ! length (consumed s)"

fun built :: "'a producer \<Rightarrow> 'a option" where
  "built (PBuilt x n) = Some x"
| "built _ = None"

fun destroyed :: "'a consumer \<Rightarrow> bool" where
  "destroyed (CDestroyed x n) \<longleftrightarrow> True"
| "destroyed _ \<longleftrightarrow> False"

definition counts_ok :: "'a spsc \<Rightarrow> bool" where
  "counts_ok s \<longleftrightarrow> length (consumed s) \<le> length (published s)
     \<and> length (published s) < length (consumed s) + unat (qsize (que s))
     \<and> consumed s = take (length (consumed s)) (published s)
     \<and> unat (writeIndex (que s)) = length (published s) mod unat (qsize (que s))
     \<and> unat (readIndex (que s)) = length (consumed s) mod unat (qsize (que s))"

definition cell_spec :: "'a spsc \<Rightarrow> nat \<Rightarrow> 'a option" where
  "cell_spec s k =
     (if k < length (published s)
      then if destroyed (cons s) \<and> k = length (consumed s) then None else Some (published s ! k)
      else if k = length (published s) then built (prod s) else None)"

definition cells_ok :: "'a spsc \<Rightarrow> bool" where
  "cells_ok s \<longleftrightarrow> (\<forall>k. length (consumed s) \<le> k \<and> k < length (consumed s) + unat (qsize (que s)) \<longrightarrow>
     cell_of s k = cell_spec s k)"

definition spsc_inv :: "'a spsc \<Rightarrow> bool" where
  "spsc_inv s \<longleftrightarrow> ring_ok (que s) \<and> counts_ok s \<and> cells_ok s \<and> producer_ok s (prod s) \<and> consumer_ok s (cons s)"

lemma ring_frame [simp]:
  "next_record (q\<lparr>records := r\<rparr>) i = next_record q i" "next_record (q\<lparr>readIndex := j\<rparr>) i = next_record q i"
  "next_record (q\<lparr>writeIndex := j\<rparr>) i = next_record q i"
  by (simp_all add: next_record_def)

lemma ring_pos:
  assumes "length (consumed s) \<le> j" "j < length (consumed s) + unat (qsize (que s))"
    and "length (consumed s) \<le> k" "k < length (consumed s) + unat (qsize (que s))"
  shows "j mod unat (qsize (que s)) = k mod unat (qsize (que s)) \<longleftrightarrow> j = k"
proof -
  let ?n = "unat (qsize (que s))"
  have "j = k" if "j mod ?n = k mod ?n" "j \<le> k" "k < j + ?n" for j k using ring_inj that by blast
  moreover have "k < j + ?n" "j < k + ?n" using assms by simp_all
  ultimately show ?thesis by (metis linorder_le_cases)
qed

lemma cell_update:
  assumes "ring_ok (que s)" "records (que t) = (records (que s))[j mod unat (qsize (que s)) := v]" "qsize (que t) = qsize (que s)"
    and "length (consumed s) \<le> j" "j < length (consumed s) + unat (qsize (que s))"
    and "length (consumed s) \<le> k" "k < length (consumed s) + unat (qsize (que s))"
  shows "cell_of t k = (if k = j then v else cell_of s k)"
proof -
  have "k mod unat (qsize (que s)) < length (records (que s))" using assms(1) by (simp add: ring_ok_def)
  then show ?thesis using ring_pos [OF assms(4-7)] by (auto simp: cell_of_def assms(2,3) nth_list_update)
qed

lemma next_pos:
  assumes "ring_ok (que s)" "counts_ok s"
  shows "unat (next_record (que s) (writeIndex (que s))) = Suc (length (published s)) mod unat (qsize (que s))"
    and "unat (next_record (que s) (readIndex (que s))) = Suc (length (consumed s)) mod unat (qsize (que s))"
proof -
  have "unat (writeIndex (que s)) < unat (qsize (que s))" "unat (readIndex (que s)) < unat (qsize (que s))"
    using assms(1) by (simp_all add: ring_ok_def)
  then show "unat (next_record (que s) (writeIndex (que s))) = Suc (length (published s)) mod unat (qsize (que s))"
    "unat (next_record (que s) (readIndex (que s))) = Suc (length (consumed s)) mod unat (qsize (que s))"
    using assms(2) next_record_mod [of _ "que s"] by (simp_all add: counts_ok_def mod_Suc_eq)
qed

lemma spsc_inv_producer:
  assumes "spsc_inv s" "producer_ok s p" "built p = built (prod s)"
  shows "spsc_inv (s\<lparr>prod := p\<rparr>)"
proof -
  have "cell_of (s\<lparr>prod := p\<rparr>) = cell_of s" "cell_spec (s\<lparr>prod := p\<rparr>) = cell_spec s"
    using assms(3) by (auto simp: cell_of_def cell_spec_def)
  moreover have "producer_ok (s\<lparr>prod := p\<rparr>) p = producer_ok s p" by (cases p) simp_all
  moreover have "consumer_ok (s\<lparr>prod := p\<rparr>) (cons s) = consumer_ok s (cons s)" by (cases "cons s") simp_all
  ultimately show ?thesis using assms by (simp add: spsc_inv_def counts_ok_def cells_ok_def)
qed

lemma spsc_inv_consumer:
  assumes "spsc_inv s" "consumer_ok s c" "destroyed c = destroyed (cons s)"
  shows "spsc_inv (s\<lparr>cons := c\<rparr>)"
proof -
  have "cell_of (s\<lparr>cons := c\<rparr>) = cell_of s" "cell_spec (s\<lparr>cons := c\<rparr>) = cell_spec s"
    using assms(3) by (auto simp: cell_of_def cell_spec_def)
  moreover have "consumer_ok (s\<lparr>cons := c\<rparr>) c = consumer_ok s c" by (cases c) simp_all
  moreover have "producer_ok (s\<lparr>cons := c\<rparr>) (prod s) = producer_ok s (prod s)" by (cases "prod s") simp_all
  ultimately show ?thesis using assms by (simp add: spsc_inv_def counts_ok_def cells_ok_def)
qed

lemma p_step_inv:
  assumes inv: "spsc_inv s" and "p_step s s'"
  shows "spsc_inv s'"
proof -
  let ?n = "unat (qsize (que s))" and ?W = "length (published s)" and ?G = "length (consumed s)"
  have ok: "ring_ok (que s)" and ct: "counts_ok s" and po: "producer_ok s (prod s)" and co: "consumer_ok s (cons s)"
    and ce: "\<And>k. ?G \<le> k \<Longrightarrow> k < ?G + ?n \<Longrightarrow> cell_of s k = cell_spec s k"
    using inv by (simp_all add: spsc_inv_def cells_ok_def)
  from assms(2) show ?thesis
  proof cases
    case (load_write x)
    then show ?thesis using inv by (simp add: spsc_inv_producer)
  next
    case (is_full x w)
    then show ?thesis using inv by (simp add: spsc_inv_producer)
  next
    case (has_room x w)
    have w: "w = writeIndex (que s)" using po has_room(2) by simp
    have "Suc ?W < ?G + ?n"
    proof (rule ccontr)
      assume "\<not> Suc ?W < ?G + ?n"
      then have "Suc ?W = ?G + ?n" using ct by (simp add: counts_ok_def)
      then have "unat (next_record (que s) w) = unat (readIndex (que s))"
        using next_pos(1) [OF ok ct] ct by (simp add: counts_ok_def w)
      then show False using has_room(3) by (simp add: word_unat_eq_iff)
    qed
    then show ?thesis using inv has_room w by (simp add: spsc_inv_producer)
  next
    case (construct x w n)
    have w: "unat w = ?W mod ?n" "?G \<le> ?W" "?W < ?G + ?n" "Suc ?W < ?G + ?n" "n = next_record (que s) (writeIndex (que s))"
      using po ct construct(2) by (simp_all add: counts_ok_def)
    have c: "cell_of s' k = cell_spec s' k" if "?G \<le> k" "k < ?G + ?n" for k
    proof -
      have "cell_of s' k = (if k = ?W then Some x else cell_of s k)"
        by (rule cell_update [OF ok _ _ w(2,3) that]) (simp_all add: construct(1) w(1))
      then show ?thesis using ce [OF that] by (auto simp: construct(1) cell_spec_def construct(2))
    qed
    have "ring_ok (que s')" "counts_ok s'" "cells_ok s'" "producer_ok s' (prod s')"
      using ok ct c w by (simp_all add: construct(1) ring_ok_def counts_ok_def cells_ok_def)
    moreover have "consumer_ok s' (cons s')" using co by (cases "cons s") (simp_all add: construct(1))
    ultimately show ?thesis by (simp add: spsc_inv_def)
  next
    case (publish x n)
    have w: "n = next_record (que s) (writeIndex (que s))" "Suc ?W < ?G + ?n" using po publish(2) by simp_all
    have "\<not> (destroyed (cons s) \<and> ?W = ?G)" using co by (cases "cons s") auto
    then have c: "cell_of s' k = cell_spec s' k" if "?G \<le> k" "k < ?G + ?n" for k
      using ce [OF that] publish(2)
      by (cases k ?W rule: linorder_cases) (auto simp: publish(1) cell_of_def cell_spec_def nth_append)
    have "ring_ok (que s')" "counts_ok s'" "cells_ok s'" "producer_ok s' (prod s')"
      using ok ct w c next_pos(1) [OF ok ct] by (simp_all add: publish(1) ring_ok_def counts_ok_def cells_ok_def)
    moreover have "consumer_ok s' (cons s')" using co by (cases "cons s") (simp_all add: publish(1) nth_append)
    ultimately show ?thesis by (simp add: spsc_inv_def)
  qed
qed

lemma c_step_inv:
  assumes inv: "spsc_inv s" and "c_step s s'"
  shows "spsc_inv s'"
proof -
  let ?n = "unat (qsize (que s))" and ?W = "length (published s)" and ?G = "length (consumed s)"
  have ok: "ring_ok (que s)" and ct: "counts_ok s" and po: "producer_ok s (prod s)" and co: "consumer_ok s (cons s)"
    and ce: "\<And>k. ?G \<le> k \<Longrightarrow> k < ?G + ?n \<Longrightarrow> cell_of s k = cell_spec s k"
    using inv by (simp_all add: spsc_inv_def cells_ok_def)
  have n: "0 < ?n" and r: "unat (readIndex (que s)) = ?G mod ?n" using ok ct by (simp_all add: ring_ok_def counts_ok_def)
  from assms(2) show ?thesis
  proof cases
    case load_read
    then show ?thesis using inv by (simp add: spsc_inv_consumer)
  next
    case (is_empty r)
    then show ?thesis using inv by (simp add: spsc_inv_consumer)
  next
    case (has_item r)
    have r: "r = readIndex (que s)" using co has_item(2) by simp
    then have "?G \<noteq> ?W" using has_item(3) ct by (auto simp: counts_ok_def word_unat_eq_iff)
    then have "?G < ?W" using ct by (simp add: counts_ok_def)
    then show ?thesis using inv has_item r by (simp add: spsc_inv_consumer)
  next
    case (move_out r n x)
    have "x = published s ! ?G"
      using move_out(2,3) co ce [of ?G] n \<open>unat (readIndex (que s)) = _\<close> by (simp add: cell_of_def cell_spec_def)
    then show ?thesis using inv co move_out by (simp add: spsc_inv_consumer)
  next
    case (destroy x r n)
    have w: "r = readIndex (que s)" "?G < ?W" "?W < ?G + ?n" using co ct destroy(2) by (simp_all add: counts_ok_def)
    have c: "cell_of s' k = cell_spec s' k" if "?G \<le> k" "k < ?G + ?n" for k
    proof -
      have "cell_of s' k = (if k = ?G then None else cell_of s k)"
        by (rule cell_update [OF ok _ _ _ _ that])
          (use n in \<open>simp_all add: destroy(1) w(1) \<open>unat (readIndex (que s)) = _\<close>\<close>)
      then show ?thesis using ce [OF that] w(2) by (auto simp: destroy(1) cell_spec_def destroy(2))
    qed
    have "ring_ok (que s')" "counts_ok s'" "cells_ok s'" "consumer_ok s' (cons s')"
      using ok ct c co destroy(2) by (simp_all add: destroy(1) ring_ok_def counts_ok_def cells_ok_def)
    moreover have "producer_ok s' (prod s')" using po by (cases "prod s") (simp_all add: destroy(1))
    ultimately show ?thesis by (simp add: spsc_inv_def)
  next
    case (release x n)
    have w: "n = next_record (que s) (readIndex (que s))" "?G < ?W" "?W < ?G + ?n" "x = published s ! ?G"
      using co ct release(2) by (simp_all add: counts_ok_def)
    have c: "cell_of s' k = cell_spec s' k" if "Suc ?G \<le> k" "k < Suc ?G + ?n" for k
    proof (cases "k = ?G + ?n")
      case True
      then have "cell_of s k = cell_of s ?G" by (simp add: cell_of_def)
      also have "\<dots> = None" using ce [of ?G] n w(2) release(2) by (simp add: cell_spec_def)
      finally show ?thesis using True w(3) by (simp add: release(1) cell_spec_def cell_of_def)
    next
      case False
      then show ?thesis using ce [of k] that release(2) by (auto simp: release(1) cell_spec_def cell_of_def)
    qed
    have "take (Suc ?G) (published s) = consumed s @ [x]"
      using ct w(2,4) by (simp add: counts_ok_def take_Suc_conv_app_nth)
    then have "counts_ok s'" using ct w next_pos(2) [OF ok ct] by (simp add: release(1) counts_ok_def)
    moreover have "ring_ok (que s')" "cells_ok s'" "consumer_ok s' (cons s')"
      using ok c n w(1) next_pos(2) [OF ok ct] by (simp_all add: release(1) ring_ok_def cells_ok_def)
    moreover have "producer_ok s' (prod s')" using po by (cases "prod s") (simp_all add: release(1))
    ultimately show ?thesis by (simp add: spsc_inv_def)
  qed
qed

lemma spsc_new_inv:
  assumes "pcq_new ok n = Some q"
  shows "spsc_inv (spsc_new q)"
proof -
  have q: "q = \<lparr>qsize = n, records = replicate (unat n) None, readIndex = 0, writeIndex = 0\<rparr>" and n: "2 \<le> unat n"
    using assms by (auto simp: pcq_new_def word_le_nat_alt split: if_splits)
  have "cell_of (spsc_new q) k = None" for k using n by (simp add: cell_of_def spsc_new_def q)
  then show ?thesis
    using n by (simp add: spsc_inv_def counts_ok_def cells_ok_def cell_spec_def) (simp add: spsc_new_def q ring_ok_def)
qed

lemma step_size: "p_step s s' \<or> c_step s s' \<Longrightarrow> qsize (que s') = qsize (que s)"
  by (auto elim: p_stepE c_stepE)

lemma reach_inv:
  assumes "pcq_new ok n = Some q" "spsc_reach q s"
  shows "spsc_inv s \<and> qsize (que s) = n"
  using assms(2)
proof induction
  case start
  then show ?case using spsc_new_inv [OF assms(1)] pcq_new_ok [OF assms(1)] by (simp add: spsc_new_def)
qed (use p_step_inv c_step_inv step_size in \<open>blast+\<close>)

lemma consumer_can_move:
  assumes "spsc_inv s" "cons s = CFound r m"
  shows "records (que s) ! unat r = Some (published s ! length (consumed s))"
proof -
  have n: "0 < unat (qsize (que s))" using assms(1) by (simp add: spsc_inv_def ring_ok_def)
  have "cell_of s (length (consumed s)) = cell_spec s (length (consumed s))" using assms(1) n by (simp add: spsc_inv_def cells_ok_def)
  moreover have "length (consumed s) < length (published s)" "unat r = length (consumed s) mod unat (qsize (que s))"
    using assms by (auto simp: spsc_inv_def counts_ok_def)
  ultimately show ?thesis using assms(2) by (simp add: cell_of_def cell_spec_def)
qed

lemma producer_slot_raw:
  assumes "spsc_inv s" "prod s = PFree x w m"
  shows "unat w < length (records (que s)) \<and> records (que s) ! unat w = None"
proof -
  let ?W = "length (published s)"
  have "cell_of s ?W = cell_spec s ?W" using assms(1) by (simp add: spsc_inv_def cells_ok_def counts_ok_def)
  moreover have "unat w = ?W mod unat (qsize (que s))" "unat w < length (records (que s))"
    using assms by (auto simp: spsc_inv_def counts_ok_def ring_ok_def)
  ultimately show ?thesis using assms(2) by (simp add: cell_of_def cell_spec_def)
qed

section \<open>Properties\<close>

text \<open>
  C6. Whatever the interleaving of the two threads, records are consumed in the order they were
  published, none is lost or seen twice, and at most \<open>size - 1\<close> are in the queue. The
  consumer never moves a record out of raw storage, and the producer constructs a record only
  in raw storage inside the array.
\<close>

theorem spsc_fifo:
  assumes "pcq_new ok n = Some q" "spsc_reach q s"
  shows "(\<exists>rest. published s = consumed s @ rest \<and> length rest < unat n)
    \<and> (\<forall>r m. cons s = CFound r m \<longrightarrow> (\<exists>x. records (que s) ! unat r = Some x))
    \<and> (\<forall>x w m. prod s = PFree x w m \<longrightarrow> unat w < length (records (que s)) \<and> records (que s) ! unat w = None)"
proof -
  have inv: "spsc_inv s" and n: "qsize (que s) = n" using reach_inv [OF assms] by simp_all
  have "published s = consumed s @ drop (length (consumed s)) (published s)"
    using inv by (simp add: spsc_inv_def counts_ok_def) (metis append_take_drop_id)
  moreover have "length (drop (length (consumed s)) (published s)) < unat n"
    using inv n by (auto simp: spsc_inv_def counts_ok_def)
  ultimately show ?thesis using consumer_can_move [OF inv] producer_slot_raw [OF inv] by blast
qed

text \<open>A queue of two slots in which the producer has loaded its index.\<close>

definition sample_queue :: "nat pcq" where
  "sample_queue = \<lparr>qsize = 2, records = [None, None], readIndex = 0, writeIndex = 0\<rparr>"

lemma sample_queue_new: "pcq_new True 2 = Some sample_queue"
  proof -
  have "replicate 2 None = [None, None :: nat option]" by (simp add: eval_nat_numeral)
  then show ?thesis by (simp add: pcq_new_def sample_queue_def)
qed

lemma sample_queue_reach: "spsc_reach sample_queue ((spsc_new sample_queue)\<lparr>prod := PLoaded 7 0\<rparr>)"
  using spsc_reach.producer [OF spsc_reach.start p_step.load_write [of "spsc_new sample_queue" 7]]
  by (simp add: spsc_new_def sample_queue_def)

theorem spsc_fifo_witness:
  "\<exists>rest. published ((spsc_new sample_queue)\<lparr>prod := PLoaded 7 0\<rparr>) = consumed ((spsc_new sample_queue)\<lparr>prod := PLoaded 7 0\<rparr>) @ rest
     \<and> length rest < unat (2 :: u32)"
  using spsc_fifo [OF sample_queue_new sample_queue_reach] by blast

text \<open>How many steps a thread is from the end of its operation.\<close>

fun p_rank :: "'a producer \<Rightarrow> nat" where
  "p_rank PIdle = 0" | "p_rank (PBuilt x n) = 1" | "p_rank (PFree x w n) = 2" | "p_rank (PLoaded x w) = 3"

fun c_rank :: "'a consumer \<Rightarrow> nat" where
  "c_rank CIdle = 0" | "c_rank (CDestroyed x n) = 1" | "c_rank (CMoved x r n) = 2" | "c_rank (CFound r n) = 3" | "c_rank (CLoaded r) = 4"

lemma p_step_rank: "p_step s s' \<Longrightarrow> (prod s = PIdle \<or> p_rank (prod s') < p_rank (prod s)) \<and> cons s' = cons s"
  by (erule p_stepE) simp_all

lemma c_step_rank: "c_step s s' \<Longrightarrow> (cons s = CIdle \<or> c_rank (cons s') < c_rank (cons s)) \<and> prod s' = prod s"
  by (erule c_stepE) simp_all

text \<open>
  C33. The queue is wait-free: in every reachable state either thread can take a step, every
  step of a running operation brings it closer to its end, and steps of the other thread do
  not set it back. A write ends after at most three further steps of its own, a read after
  four.
\<close>

theorem spsc_wait_free:
  assumes "pcq_new ok n = Some q" "spsc_reach q s"
  shows "(\<exists>s'. p_step s s') \<and> (\<exists>s'. c_step s s')
    \<and> (\<forall>s'. p_step s s' \<longrightarrow> (prod s = PIdle \<or> p_rank (prod s') < p_rank (prod s)) \<and> cons s' = cons s)
    \<and> (\<forall>s'. c_step s s' \<longrightarrow> (cons s = CIdle \<or> c_rank (cons s') < c_rank (cons s)) \<and> prod s' = prod s)"
proof -
  have inv: "spsc_inv s" using reach_inv [OF assms] by simp
  have "\<exists>s'. p_step s s'"
  proof (cases "prod s")
    case PIdle
    show ?thesis using p_step.load_write [OF PIdle] by blast
  next
    case (PLoaded x w)
    show ?thesis using p_step.is_full [OF PLoaded] p_step.has_room [OF PLoaded] by (cases "next_record (que s) w = readIndex (que s)") blast+
  next
    case (PFree x w m)
    show ?thesis using p_step.construct [OF PFree] by blast
  next
    case (PBuilt x m)
    show ?thesis using p_step.publish [OF PBuilt] by blast
  qed
  moreover have "\<exists>s'. c_step s s'"
  proof (cases "cons s")
    case CIdle
    show ?thesis using c_step.load_read [OF CIdle] by blast
  next
    case (CLoaded r)
    show ?thesis using c_step.is_empty [OF CLoaded] c_step.has_item [OF CLoaded] by (cases "r = writeIndex (que s)") blast+
  next
    case (CFound r m)
    show ?thesis using c_step.move_out [OF CFound consumer_can_move [OF inv CFound]] by blast
  next
    case (CMoved x r m)
    show ?thesis using c_step.destroy [OF CMoved] by blast
  next
    case (CDestroyed x m)
    show ?thesis using c_step.release [OF CDestroyed] by blast
  qed
  ultimately show ?thesis using p_step_rank c_step_rank by blast
qed

theorem spsc_wait_free_witness: "\<exists>s'. c_step ((spsc_new sample_queue)\<lparr>prod := PLoaded 7 0\<rparr>) s'"
  using spsc_wait_free [OF sample_queue_new sample_queue_reach] by blast

text \<open>
  C14. A queue of \<open>n\<close> slots behaves like a list that takes at most \<open>n - 1\<close> records: every
  sequence of writes and reads gives the same answers, with no read of raw storage, and leaves
  the contents the list has.
\<close>

theorem pcq_refines:
  assumes "pcq_new ok n = Some q"
  shows "\<exists>q'. impl_run pcq_write pcq_read ops q = Some (fst (spec_run (unat n - 1) ops []), q')
    \<and> contents q' = snd (spec_run (unat n - 1) ops [])"
  using pq.run_refines [of q ops] pcq_new_ok [OF assms] by (auto simp: pcq_room_def)

theorem pcq_refines_witness:
  "\<exists>q'. impl_run pcq_write pcq_read [Put 5, Put 6, Get, Get] sample_queue
      = Some ([PutR True, PutR False, GetR (Some 5), GetR None], q')"
  using pcq_refines [OF sample_queue_new, of "[Put 5, Put 6, Get, Get]"] by auto

section \<open>The steps of one thread alone\<close>















end
