(* ===== verification/Xxh.thy ===== *)
theory Xxh
  imports Fg_Prelude
begin

text \<open>
  The hash functions of \<open>fuzzer/cpp_core/xxhash.h\<close> and \<open>xxhash.cc\<close>: XXH32 and XXH64, each in
  one call over a buffer and as a stream that is fed in chunks. A buffer is a list of bytes; the
  machine is little endian. The stream is proved to compute the hash of the concatenated chunks.
\<close>

section \<open>Stripes\<close>

text \<open>Whole stripes of \<open>n\<close> bytes are mixed into the lanes, the rest is left over.\<close>

function stripes :: "nat \<Rightarrow> (u8 list \<Rightarrow> 'v \<Rightarrow> 'v) \<Rightarrow> 'v \<Rightarrow> u8 list \<Rightarrow> 'v \<times> u8 list" where
  "stripes n f v bs = (if 0 < n \<and> n \<le> length bs then stripes n f (f (take n bs) v) (drop n bs) else (v, bs))"
  by auto
termination by (relation "measure (\<lambda>(n, f, v, bs). length bs)") auto

declare stripes.simps [simp del]

lemma stripes_short: "length bs < n \<Longrightarrow> stripes n f v bs = (v, bs)"
  by (subst stripes.simps) simp

lemma stripes_step: "0 < n \<Longrightarrow> n \<le> length bs \<Longrightarrow> stripes n f v bs = stripes n f (f (take n bs) v) (drop n bs)"
  by (subst stripes.simps) simp

lemma stripes_rest: "0 < n \<Longrightarrow> length (snd (stripes n f v bs)) = length bs mod n"
proof (induction n f v bs rule: stripes.induct)
  case (1 n f v bs)
  show ?case
  proof (cases "n \<le> length bs")
    case True
    then have "length (snd (stripes n f v bs)) = (length bs - n) mod n"
      using 1 by (simp add: stripes_step)
    also have "\<dots> = length bs mod n" using True by (simp add: le_mod_geq)
    finally show ?thesis .
  qed (simp add: stripes_short)
qed

lemma stripes_append:
  "0 < n \<Longrightarrow> stripes n f v (bs @ cs) = (let (w, r) = stripes n f v bs in stripes n f w (r @ cs))"
proof (induction n f v bs rule: stripes.induct)
  case (1 n f v bs)
  show ?case
  proof (cases "n \<le> length bs")
    case True
    have "stripes n f v (bs @ cs) = stripes n f (f (take n bs) v) (drop n bs @ cs)"
      using True 1(2) by (subst stripes_step) simp_all
    also have "\<dots> = (let (w, r) = stripes n f (f (take n bs) v) (drop n bs) in stripes n f w (r @ cs))"
      using 1 True by blast
    also have "stripes n f (f (take n bs) v) (drop n bs) = stripes n f v bs"
      using True 1(2) by (simp only: stripes_step [of n bs f v])
    finally show ?thesis .
  qed (simp add: stripes_short)
qed

lemma rest_short: "0 < n \<Longrightarrow> stripes n f v bs = (w, r) \<Longrightarrow> length r < n"
  using stripes_rest [of n f v bs] by simp

section \<open>Little-endian words\<close>

definition readLE32 :: "u8 list \<Rightarrow> u32" where
  "readLE32 bs = ucast (bs ! 0) OR push_bit 8 (ucast (bs ! 1)) OR push_bit 16 (ucast (bs ! 2)) OR push_bit 24 (ucast (bs ! 3))"

definition readLE64 :: "u8 list \<Rightarrow> u64" where
  "readLE64 bs = ucast (bs ! 0) OR push_bit 8 (ucast (bs ! 1)) OR push_bit 16 (ucast (bs ! 2)) OR push_bit 24 (ucast (bs ! 3))
     OR push_bit 32 (ucast (bs ! 4)) OR push_bit 40 (ucast (bs ! 5)) OR push_bit 48 (ucast (bs ! 6)) OR push_bit 56 (ucast (bs ! 7))"

text \<open>\<open>memcpy\<close> into a buffer at an offset.\<close>

definition splice :: "nat \<Rightarrow> u8 list \<Rightarrow> u8 list \<Rightarrow> u8 list" where
  "splice i xs buf = take i buf @ xs @ drop (i + length xs) buf"

lemma splice_length: "i + length xs \<le> length buf \<Longrightarrow> length (splice i xs buf) = length buf"
  by (simp add: splice_def)

lemma take_splice: "i + length xs \<le> length buf \<Longrightarrow> take (i + length xs) (splice i xs buf) = take i buf @ xs"
  by (simp add: splice_def)

text \<open>Completing a partly filled buffer and going on with the rest of a chunk.\<close>

lemma feed_buffer:
  assumes "stripes n f v0 bs = (v, r)" "0 < n" "length mem = n" "take (length r) mem = r" "n \<le> length r + length cs"
  shows "stripes n f (f (splice (length r) (take (n - length r) cs) mem) v) (drop (n - length r) cs) = stripes n f v0 (bs @ cs)"
    and "length (splice (length r) (take (n - length r) cs) mem) = n"
proof -
  have r: "length r < n" using rest_short [OF assms(2,1)] .
  have t: "length (take (n - length r) cs) = n - length r" using assms(5) by simp
  have buf: "splice (length r) (take (n - length r) cs) mem = take n (r @ cs)"
    using assms(3,4) r t by (simp add: splice_def)
  then show "length (splice (length r) (take (n - length r) cs) mem) = n" using assms(5) by simp
  have "stripes n f v0 (bs @ cs) = stripes n f v (r @ cs)" using stripes_append [OF assms(2), of f v0 bs cs] assms(1) by simp
  also have "\<dots> = stripes n f (f (take n (r @ cs)) v) (drop n (r @ cs))"
    by (rule stripes_step [OF assms(2)]) (use assms(5) in simp)
  finally show "stripes n f (f (splice (length r) (take (n - length r) cs) mem) v) (drop (n - length r) cs) = stripes n f v0 (bs @ cs)"
    using buf r by simp
qed

lemma feed_short:
  assumes "stripes n f v0 bs = (v, r)" "0 < n" "length r + length cs < n"
  shows "stripes n f v0 (bs @ cs) = (v, r @ cs)"
  using stripes_append [OF assms(2), of f v0 bs cs] assms(1,3) by (simp add: stripes_short)

section \<open>XXH32\<close>

definition XXH_PRIME32_1 :: u32 where "XXH_PRIME32_1 = 0x9E3779B1"
definition XXH_PRIME32_2 :: u32 where "XXH_PRIME32_2 = 0x85EBCA77"
definition XXH_PRIME32_3 :: u32 where "XXH_PRIME32_3 = 0xC2B2AE3D"
definition XXH_PRIME32_4 :: u32 where "XXH_PRIME32_4 = 0x27D4EB2F"
definition XXH_PRIME32_5 :: u32 where "XXH_PRIME32_5 = 0x165667B1"

definition XXH_rotl32 :: "u32 \<Rightarrow> nat \<Rightarrow> u32" where
  "XXH_rotl32 x r = push_bit r x OR drop_bit (32 - r) x"

definition XXH32_round :: "u32 \<Rightarrow> u32 \<Rightarrow> u32" where
  "XXH32_round acc inp = XXH_rotl32 (acc + inp * XXH_PRIME32_2) 13 * XXH_PRIME32_1"

definition XXH32_avalanche :: "u32 \<Rightarrow> u32" where
  "XXH32_avalanche h =
     (let h1 = h XOR drop_bit 15 h; h2 = h1 * XXH_PRIME32_2; h3 = h2 XOR drop_bit 13 h2; h4 = h3 * XXH_PRIME32_3
      in h4 XOR drop_bit 16 h4)"

text \<open>The two macros of the finalisation: they mix in a byte or a word and move on.\<close>

definition PROCESS1 :: "u32 \<times> u8 list \<Rightarrow> u32 \<times> u8 list" where
  "PROCESS1 s = (let (h, ptr) = s in (XXH_rotl32 (h + ucast (ptr ! 0) * XXH_PRIME32_5) 11 * XXH_PRIME32_1, drop 1 ptr))"

definition PROCESS4 :: "u32 \<times> u8 list \<Rightarrow> u32 \<times> u8 list" where
  "PROCESS4 s = (let (h, ptr) = s in (XXH_rotl32 (h + readLE32 ptr * XXH_PRIME32_3) 17 * XXH_PRIME32_4, drop 4 ptr))"

text \<open>The compact version with loops, and the unrolled switch that is compiled by default.\<close>

fun reroll4 :: "nat \<Rightarrow> u32 \<times> u8 list \<Rightarrow> nat \<times> u32 \<times> u8 list" where
  "reroll4 len s = (if 4 \<le> len then reroll4 (len - 4) (PROCESS4 s) else (len, s))"

fun reroll1 :: "nat \<Rightarrow> u32 \<times> u8 list \<Rightarrow> u32 \<times> u8 list" where
  "reroll1 0 s = s"
| "reroll1 (Suc len) s = reroll1 len (PROCESS1 s)"

declare reroll4.simps [simp del]

definition XXH32_finalize_reroll :: "u32 \<Rightarrow> u8 list \<Rightarrow> nat \<Rightarrow> u32" where
  "XXH32_finalize_reroll h ptr len =
     (let (r, s) = reroll4 (len mod 16) (h, ptr) in XXH32_avalanche (fst (reroll1 r s)))"

definition XXH32_finalize :: "u32 \<Rightarrow> u8 list \<Rightarrow> nat \<Rightarrow> u32" where
  "XXH32_finalize h ptr len =
     (let s = (h, ptr); k = len mod 16; ret = (\<lambda>s. XXH32_avalanche (fst s))
      in if k = 12 then ret (PROCESS4 (PROCESS4 (PROCESS4 s)))
         else if k = 8 then ret (PROCESS4 (PROCESS4 s))
         else if k = 4 then ret (PROCESS4 s)
         else if k = 13 then ret (PROCESS1 (PROCESS4 (PROCESS4 (PROCESS4 s))))
         else if k = 9 then ret (PROCESS1 (PROCESS4 (PROCESS4 s)))
         else if k = 5 then ret (PROCESS1 (PROCESS4 s))
         else if k = 14 then ret (PROCESS1 (PROCESS1 (PROCESS4 (PROCESS4 (PROCESS4 s)))))
         else if k = 10 then ret (PROCESS1 (PROCESS1 (PROCESS4 (PROCESS4 s))))
         else if k = 6 then ret (PROCESS1 (PROCESS1 (PROCESS4 s)))
         else if k = 15 then ret (PROCESS1 (PROCESS1 (PROCESS1 (PROCESS4 (PROCESS4 (PROCESS4 s))))))
         else if k = 11 then ret (PROCESS1 (PROCESS1 (PROCESS1 (PROCESS4 (PROCESS4 s)))))
         else if k = 7 then ret (PROCESS1 (PROCESS1 (PROCESS1 (PROCESS4 s))))
         else if k = 3 then ret (PROCESS1 (PROCESS1 (PROCESS1 s)))
         else if k = 2 then ret (PROCESS1 (PROCESS1 s))
         else if k = 1 then ret (PROCESS1 s)
         else ret s)"

type_synonym lanes32 = "u32 \<times> u32 \<times> u32 \<times> u32"

definition seed32 :: "u32 \<Rightarrow> lanes32" where
  "seed32 seed = (seed + XXH_PRIME32_1 + XXH_PRIME32_2, seed + XXH_PRIME32_2, seed + 0, seed - XXH_PRIME32_1)"

definition stripe32 :: "u8 list \<Rightarrow> lanes32 \<Rightarrow> lanes32" where
  "stripe32 p v =
     (let (v1, v2, v3, v4) = v
      in (XXH32_round v1 (readLE32 p), XXH32_round v2 (readLE32 (drop 4 p)),
          XXH32_round v3 (readLE32 (drop 8 p)), XXH32_round v4 (readLE32 (drop 12 p))))"

definition merge32 :: "lanes32 \<Rightarrow> u32" where
  "merge32 v = (let (v1, v2, v3, v4) = v in XXH_rotl32 v1 1 + XXH_rotl32 v2 7 + XXH_rotl32 v3 12 + XXH_rotl32 v4 18)"

definition XXH32 :: "u8 list \<Rightarrow> u32 \<Rightarrow> u32" where
  "XXH32 inp seed =
     (let len = length inp;
          (h, rest) = (if 16 \<le> len then (let (v, r) = stripes 16 stripe32 (seed32 seed) inp in (merge32 v, r))
                       else (seed + XXH_PRIME32_5, inp))
      in XXH32_finalize (h + of_nat len) rest (len mod 16))"

record XXH32_state =
  total_len_32 :: u32
  large_len :: u32
  lanes :: lanes32
  mem32 :: "u8 list"
  memsize :: u32

definition XXH32_reset :: "u32 \<Rightarrow> XXH32_state" where
  "XXH32_reset seed =
     \<lparr>total_len_32 = 0, large_len = 0, lanes = seed32 seed, mem32 = replicate 16 0, memsize = 0\<rparr>"

definition XXH32_update :: "XXH32_state \<Rightarrow> u8 list \<Rightarrow> XXH32_state" where
  "XXH32_update st inp =
     (let len = length inp;
          total = total_len_32 st + of_nat len;
          s0 = st\<lparr>total_len_32 := total, large_len := large_len st OR (if 16 \<le> len \<or> 16 \<le> total then 1 else 0)\<rparr>;
          m = unat (memsize st)
      in if m + len < 16
         then s0\<lparr>mem32 := splice m inp (mem32 s0), memsize := memsize s0 + of_nat len\<rparr>
         else (let (s1, p) =
                     (if m \<noteq> 0
                      then (let buf = splice m (take (16 - m) inp) (mem32 s0)
                            in (s0\<lparr>mem32 := buf, lanes := stripe32 buf (lanes s0), memsize := 0\<rparr>, drop (16 - m) inp))
                      else (s0, inp));
                   (v, rest) = stripes 16 stripe32 (lanes s1) p;
                   s2 = s1\<lparr>lanes := v\<rparr>
               in if rest \<noteq> [] then s2\<lparr>mem32 := splice 0 rest (mem32 s2), memsize := of_nat (length rest)\<rparr> else s2))"

definition XXH32_digest :: "XXH32_state \<Rightarrow> u32" where
  "XXH32_digest st =
     (let h = (if large_len st \<noteq> 0 then merge32 (lanes st) else fst (snd (snd (lanes st))) + XXH_PRIME32_5)
      in XXH32_finalize (h + total_len_32 st) (mem32 st) (unat (memsize st)))"

section \<open>Finalisation\<close>

lemma finalize_reroll: "XXH32_finalize h ptr len = XXH32_finalize_reroll h ptr len"
proof -
  have "k \<in> {0, 1, 2, 3, 4, 5, 6, 7, 8, 9, 10, 11, 12, 13, 14, 15}" if "k < 16" for k :: nat
    using that by (simp only: insert_iff empty_iff) presburger
  then have "len mod 16 \<in> {0, 1, 2, 3, 4, 5, 6, 7, 8, 9, 10, 11, 12, 13, 14, 15}" by simp
  then show ?thesis
    unfolding XXH32_finalize_def XXH32_finalize_reroll_def
    by (elim insertE emptyE) (simp_all add: reroll4.simps Let_def numeral_2_eq_2 numeral_3_eq_3)
qed

lemma readLE32_take: "4 \<le> n \<Longrightarrow> readLE32 (take n p) = readLE32 p"
  by (simp add: readLE32_def)

lemma reroll4_take:
  "reroll4 len (h, take len p) = (let (r, h', p') = reroll4 len (h, p) in (r, h', take r p'))"
proof (induction len arbitrary: h p rule: less_induct)
  case (less len)
  show ?case
  proof (cases "4 \<le> len")
    case True
    have "PROCESS4 (h, take len p) = (fst (PROCESS4 (h, p)), take (len - 4) (snd (PROCESS4 (h, p))))"
      using True by (simp add: PROCESS4_def readLE32_take drop_take)
    then show ?thesis using True less [of "len - 4" "fst (PROCESS4 (h, p))" "snd (PROCESS4 (h, p))"]
      by (simp add: reroll4.simps [of len])
  qed (simp add: reroll4.simps [of len])
qed

lemma reroll1_take: "fst (reroll1 len (h, take len p)) = fst (reroll1 len (h, p))"
proof (induction len arbitrary: h p)
  case (Suc len)
  have "PROCESS1 (h, take (Suc len) p) = (fst (PROCESS1 (h, p)), take len (snd (PROCESS1 (h, p))))"
    by (simp add: PROCESS1_def drop_take)
  then show ?case using Suc [of "fst (PROCESS1 (h, p))" "snd (PROCESS1 (h, p))"] by simp
qed simp

lemma finalize_take:
  assumes "k < 16"
  shows "XXH32_finalize h (take k p) k = XXH32_finalize h p k"
proof -
  obtain r h' p' where r: "reroll4 k (h, p) = (r, h', p')" by (metis prod_cases3)
  then have "reroll4 k (h, take k p) = (r, h', take r p')" by (simp add: reroll4_take)
  with r show ?thesis using assms reroll1_take [of r h' p']
    by (simp add: finalize_reroll XXH32_finalize_reroll_def)
qed

section \<open>The stream of XXH32\<close>

text \<open>The state after the bytes \<open>bs\<close>: whole stripes are in the lanes, the rest is in the buffer.\<close>

definition rep32 :: "u32 \<Rightarrow> XXH32_state \<Rightarrow> u8 list \<Rightarrow> bool" where
  "rep32 seed st bs \<longleftrightarrow>
     (let (v, r) = stripes 16 stripe32 (seed32 seed) bs
      in lanes st = v \<and> length (mem32 st) = 16 \<and> unat (memsize st) = length r \<and> take (length r) (mem32 st) = r
         \<and> total_len_32 st = of_nat (length bs) \<and> (large_len st \<noteq> 0 \<longleftrightarrow> 16 \<le> length bs))"

lemma rep32_reset: "rep32 seed (XXH32_reset seed) []"
  by (simp add: rep32_def XXH32_reset_def stripes_short)

lemma large_len_step:
  assumes "large_len st \<noteq> 0 \<longleftrightarrow> 16 \<le> n"
  shows "large_len st OR (if 16 \<le> m \<or> (16 :: u32) \<le> of_nat (n + m) then 1 else 0) \<noteq> 0 \<longleftrightarrow> 16 \<le> n + m"
proof -
  have or: "(a OR (if b then 1 else 0) \<noteq> 0) \<longleftrightarrow> a \<noteq> 0 \<or> b" for a :: u32 and b by (auto simp: or_eq_0_iff)
  have le: "(16 :: u32) \<le> of_nat k \<longleftrightarrow> 16 \<le> k mod 4294967296" for k
    by (simp add: word_le_nat_alt unat_of_nat)
  have "16 \<le> n + m \<longleftrightarrow> 16 \<le> n \<or> 16 \<le> m \<or> 16 \<le> (n + m) mod 4294967296"
  proof (cases "n + m < 32")
    case True
    then have "(n + m) mod 4294967296 = n + m" by simp
    then show ?thesis by linarith
  next
    case False
    then have "16 \<le> n \<or> 16 \<le> m" by linarith
    then show ?thesis using False by linarith
  qed
  then show ?thesis unfolding or le assms by blast
qed

lemma rep32_update:
  assumes "rep32 seed st bs"
  shows "rep32 seed (XXH32_update st cs) (bs @ cs)"
proof -
  obtain v r where vr: "stripes 16 stripe32 (seed32 seed) bs = (v, r)" by fastforce
  note st = assms [unfolded rep32_def vr Let_def prod.case]
  have r: "length r < 16" using rest_short [OF _ vr] by simp
  have v: "lanes st = v" and m: "unat (memsize st) = length r" using st by simp_all
  have total: "total_len_32 st + of_nat (length cs) = of_nat (length (bs @ cs))" using st by simp
  have large: "large_len st OR (if 16 \<le> length cs \<or> 16 \<le> total_len_32 st + of_nat (length cs) then 1 else 0) \<noteq> 0
      \<longleftrightarrow> 16 \<le> length (bs @ cs)"
    using large_len_step [of st "length bs" "length cs"] st by simp
  show ?thesis
  proof (cases "length r + length cs < 16")
    case True
    have mem: "unat (memsize st + of_nat (length cs)) = length (r @ cs)"
      using True st by (simp add: unat_word_ariths unat_of_nat)
    have "XXH32_update st cs = st\<lparr>total_len_32 := total_len_32 st + of_nat (length cs),
        large_len := large_len st OR (if 16 \<le> length cs \<or> 16 \<le> total_len_32 st + of_nat (length cs) then 1 else 0),
        mem32 := splice (length r) cs (mem32 st), memsize := memsize st + of_nat (length cs)\<rparr>"
      using True st by (simp add: XXH32_update_def Let_def)
    moreover have "take (length (r @ cs)) (splice (length r) cs (mem32 st)) = r @ cs"
      using take_splice [of "length r" cs "mem32 st"] st True by simp
    moreover have "length (splice (length r) cs (mem32 st)) = 16" using st True by (simp add: splice_length)
    ultimately show ?thesis
      unfolding rep32_def feed_short [OF vr _ True, simplified] Let_def prod.case using st large mem by simp
  next
    case False
    obtain w q where wq: "stripes 16 stripe32 (seed32 seed) (bs @ cs) = (w, q)" by fastforce
    have q: "length q < 16" using rest_short [OF _ wq] by simp
    define buf where "buf = (if r \<noteq> [] then splice (length r) (take (16 - length r) cs) (mem32 st) else mem32 st)"
    have buf: "length buf = 16" "stripes 16 stripe32 (if r \<noteq> [] then stripe32 buf v else v)
        (if r \<noteq> [] then drop (16 - length r) cs else cs) = (w, q)"
      using feed_buffer [OF vr, of "mem32 st" cs] stripes_append [of 16 stripe32 "seed32 seed" bs cs] st vr wq False
      by (auto simp: buf_def)
    have "XXH32_update st cs = st\<lparr>total_len_32 := total_len_32 st + of_nat (length cs),
        large_len := large_len st OR (if 16 \<le> length cs \<or> 16 \<le> total_len_32 st + of_nat (length cs) then 1 else 0),
        lanes := w, mem32 := (if q \<noteq> [] then splice 0 q buf else buf), memsize := of_nat (length q)\<rparr>"
    proof (cases "r = []")
      case True
      then have "memsize st = 0" "stripes 16 stripe32 v cs = (w, q)" using m buf(2) by (simp_all add: unat_eq_0)
      then show ?thesis using v True False by (simp add: XXH32_update_def Let_def buf_def)
    next
      case nonempty: False
      then have "stripes 16 stripe32 (stripe32 buf v) (drop (16 - length r) cs) = (w, q)" using buf(2) by simp
      then show ?thesis using v m nonempty False by (simp add: XXH32_update_def Let_def buf_def)
    qed
    moreover have "take (length q) (if q \<noteq> [] then splice 0 q buf else buf) = q"
      using take_splice [of 0 q buf] buf(1) q by auto
    moreover have "length (if q \<noteq> [] then splice 0 q buf else buf) = 16" using splice_length [of 0 q buf] buf(1) q by auto
    moreover have "unat (of_nat (length q) :: u32) = length q" using q by (simp add: unat_of_nat)
    ultimately show ?thesis unfolding rep32_def wq Let_def prod.case using large total by simp
  qed
qed

lemma rep32_digest:
  assumes "rep32 seed st bs"
  shows "XXH32_digest st = XXH32 bs seed"
proof -
  obtain v r where vr: "stripes 16 stripe32 (seed32 seed) bs = (v, r)" by fastforce
  note st = assms [unfolded rep32_def vr Let_def prod.case]
  have r: "length r = length bs mod 16" using stripes_rest [of 16 stripe32 "seed32 seed" bs] vr by simp
  have fin: "XXH32_finalize h (mem32 st) (length r) = XXH32_finalize h r (length r)" for h
    using finalize_take [of "length r" h "mem32 st"] st r by simp
  have total: "total_len_32 st = of_nat (length bs)" and m: "unat (memsize st) = length r" and v: "lanes st = v"
    using st by simp_all
  show ?thesis
  proof (cases "16 \<le> length bs")
    case True
    then have "large_len st \<noteq> 0" using st by simp
    then show ?thesis using True fin r by (simp add: XXH32_digest_def XXH32_def Let_def total m v vr)
  next
    case False
    then have "large_len st = 0" "v = seed32 seed" "r = bs" using st vr stripes_short [of bs 16 stripe32 "seed32 seed"] by simp_all
    then show ?thesis using False fin by (simp add: XXH32_digest_def XXH32_def Let_def total m v seed32_def)
  qed
qed

section \<open>XXH64\<close>

definition XXH_PRIME64_1 :: u64 where "XXH_PRIME64_1 = 0x9E3779B185EBCA87"
definition XXH_PRIME64_2 :: u64 where "XXH_PRIME64_2 = 0xC2B2AE3D27D4EB4F"
definition XXH_PRIME64_3 :: u64 where "XXH_PRIME64_3 = 0x165667B19E3779F9"
definition XXH_PRIME64_4 :: u64 where "XXH_PRIME64_4 = 0x85EBCA77C2B2AE63"
definition XXH_PRIME64_5 :: u64 where "XXH_PRIME64_5 = 0x27D4EB2F165667C5"

definition XXH_rotl64 :: "u64 \<Rightarrow> nat \<Rightarrow> u64" where
  "XXH_rotl64 x r = push_bit r x OR drop_bit (64 - r) x"

definition XXH64_round :: "u64 \<Rightarrow> u64 \<Rightarrow> u64" where
  "XXH64_round acc inp = XXH_rotl64 (acc + inp * XXH_PRIME64_2) 31 * XXH_PRIME64_1"

definition XXH64_mergeRound :: "u64 \<Rightarrow> u64 \<Rightarrow> u64" where
  "XXH64_mergeRound acc val = (acc XOR XXH64_round 0 val) * XXH_PRIME64_1 + XXH_PRIME64_4"

definition XXH64_avalanche :: "u64 \<Rightarrow> u64" where
  "XXH64_avalanche h =
     (let h1 = h XOR drop_bit 33 h; h2 = h1 * XXH_PRIME64_2; h3 = h2 XOR drop_bit 29 h2; h4 = h3 * XXH_PRIME64_3
      in h4 XOR drop_bit 32 h4)"

fun finalize8 :: "nat \<Rightarrow> u64 \<times> u8 list \<Rightarrow> nat \<times> u64 \<times> u8 list" where
  "finalize8 len s =
     (if 8 \<le> len
      then (let (h, ptr) = s
            in finalize8 (len - 8)
                 (XXH_rotl64 (h XOR XXH64_round 0 (readLE64 ptr)) 27 * XXH_PRIME64_1 + XXH_PRIME64_4, drop 8 ptr))
      else (len, s))"

declare finalize8.simps [simp del]

fun finalize1 :: "nat \<Rightarrow> u64 \<times> u8 list \<Rightarrow> u64" where
  "finalize1 0 s = fst s"
| "finalize1 (Suc len) s =
     (let (h, ptr) = s in finalize1 len (XXH_rotl64 (h XOR ucast (ptr ! 0) * XXH_PRIME64_5) 11 * XXH_PRIME64_1, drop 1 ptr))"

definition XXH64_finalize :: "u64 \<Rightarrow> u8 list \<Rightarrow> nat \<Rightarrow> u64" where
  "XXH64_finalize h ptr len =
     (let (n, h1, p1) = finalize8 (len mod 32) (h, ptr);
          (m, s) = (if 4 \<le> n
                    then (n - 4, XXH_rotl64 (h1 XOR ucast (readLE32 p1) * XXH_PRIME64_1) 23 * XXH_PRIME64_2 + XXH_PRIME64_3, drop 4 p1)
                    else (n, h1, p1))
      in XXH64_avalanche (finalize1 m s))"

type_synonym lanes64 = "u64 \<times> u64 \<times> u64 \<times> u64"

definition seed64 :: "u64 \<Rightarrow> lanes64" where
  "seed64 seed = (seed + XXH_PRIME64_1 + XXH_PRIME64_2, seed + XXH_PRIME64_2, seed + 0, seed - XXH_PRIME64_1)"

definition stripe64 :: "u8 list \<Rightarrow> lanes64 \<Rightarrow> lanes64" where
  "stripe64 p v =
     (let (v1, v2, v3, v4) = v
      in (XXH64_round v1 (readLE64 p), XXH64_round v2 (readLE64 (drop 8 p)),
          XXH64_round v3 (readLE64 (drop 16 p)), XXH64_round v4 (readLE64 (drop 24 p))))"

definition merge64 :: "lanes64 \<Rightarrow> u64" where
  "merge64 v =
     (let (v1, v2, v3, v4) = v;
          h = XXH_rotl64 v1 1 + XXH_rotl64 v2 7 + XXH_rotl64 v3 12 + XXH_rotl64 v4 18
      in XXH64_mergeRound (XXH64_mergeRound (XXH64_mergeRound (XXH64_mergeRound h v1) v2) v3) v4)"

definition XXH64 :: "u8 list \<Rightarrow> u64 \<Rightarrow> u64" where
  "XXH64 inp seed =
     (let len = length inp;
          (h, rest) = (if 32 \<le> len then (let (v, r) = stripes 32 stripe64 (seed64 seed) inp in (merge64 v, r))
                       else (seed + XXH_PRIME64_5, inp))
      in XXH64_finalize (h + of_nat len) rest len)"

record XXH64_state =
  total_len :: u64
  lanes_64 :: lanes64
  mem64 :: "u8 list"
  memsize_64 :: u32

definition XXH64_reset :: "u64 \<Rightarrow> XXH64_state" where
  "XXH64_reset seed = \<lparr>total_len = 0, lanes_64 = seed64 seed, mem64 = replicate 32 0, memsize_64 = 0\<rparr>"

definition XXH64_update :: "XXH64_state \<Rightarrow> u8 list \<Rightarrow> XXH64_state" where
  "XXH64_update st inp =
     (let len = length inp;
          s0 = st\<lparr>total_len := total_len st + of_nat len\<rparr>;
          m = unat (memsize_64 st)
      in if m + len < 32
         then s0\<lparr>mem64 := splice m inp (mem64 s0), memsize_64 := memsize_64 s0 + of_nat len\<rparr>
         else (let (s1, p) =
                     (if m \<noteq> 0
                      then (let buf = splice m (take (32 - m) inp) (mem64 s0)
                            in (s0\<lparr>mem64 := buf, lanes_64 := stripe64 buf (lanes_64 s0), memsize_64 := 0\<rparr>, drop (32 - m) inp))
                      else (s0, inp));
                   (v, rest) = stripes 32 stripe64 (lanes_64 s1) p;
                   s2 = s1\<lparr>lanes_64 := v\<rparr>
               in if rest \<noteq> [] then s2\<lparr>mem64 := splice 0 rest (mem64 s2), memsize_64 := of_nat (length rest)\<rparr> else s2))"

definition XXH64_digest :: "XXH64_state \<Rightarrow> u64" where
  "XXH64_digest st =
     (let h = (if 32 \<le> total_len st then merge64 (lanes_64 st) else fst (snd (snd (lanes_64 st))) + XXH_PRIME64_5)
      in XXH64_finalize (h + total_len st) (mem64 st) (unat (total_len st)))"

lemma readLE64_take: "8 \<le> n \<Longrightarrow> readLE64 (take n p) = readLE64 p"
  by (simp add: readLE64_def)

lemma finalize8_take:
  "finalize8 len (h, take len p) = (let (r, h', p') = finalize8 len (h, p) in (r, h', take r p'))"
proof (induction len arbitrary: h p rule: less_induct)
  case (less len)
  show ?case
  proof (cases "8 \<le> len")
    case True
    let ?h = "XXH_rotl64 (h XOR XXH64_round 0 (readLE64 p)) 27 * XXH_PRIME64_1 + XXH_PRIME64_4"
    show ?thesis using True less [of "len - 8" ?h "drop 8 p"]
      by (simp add: finalize8.simps [of len] readLE64_take drop_take)
  qed (simp add: finalize8.simps [of len])
qed

lemma finalize1_take: "finalize1 len (h, take len p) = finalize1 len (h, p)"
  by (induction len arbitrary: h p) (simp_all add: drop_take)

lemma finalize64_take:
  assumes "k = len mod 32"
  shows "XXH64_finalize h (take k p) len = XXH64_finalize h p len"
proof -
  obtain n h' p' where r: "finalize8 k (h, p) = (n, h', p')" by (metis prod_cases3)
  then have "finalize8 k (h, take k p) = (n, h', take n p')" by (simp add: finalize8_take)
  with r show ?thesis unfolding XXH64_finalize_def assms [symmetric]
    using finalize1_take [of "n - 4" _ "drop 4 p'"] finalize1_take [of n h' p']
    by (simp add: readLE32_take drop_take)
qed

text \<open>As for XXH32; the total length has to fit in its 64-bit counter.\<close>

definition rep64 :: "u64 \<Rightarrow> XXH64_state \<Rightarrow> u8 list \<Rightarrow> bool" where
  "rep64 seed st bs \<longleftrightarrow>
     (let (v, r) = stripes 32 stripe64 (seed64 seed) bs
      in lanes_64 st = v \<and> length (mem64 st) = 32 \<and> unat (memsize_64 st) = length r \<and> take (length r) (mem64 st) = r
         \<and> total_len st = of_nat (length bs))"

lemma rep64_reset: "rep64 seed (XXH64_reset seed) []"
  by (simp add: rep64_def XXH64_reset_def stripes_short)

lemma rep64_update:
  assumes "rep64 seed st bs"
  shows "rep64 seed (XXH64_update st cs) (bs @ cs)"
proof -
  obtain v r where vr: "stripes 32 stripe64 (seed64 seed) bs = (v, r)" by fastforce
  note st = assms [unfolded rep64_def vr Let_def prod.case]
  have r: "length r < 32" using rest_short [OF _ vr] by simp
  have v: "lanes_64 st = v" and m: "unat (memsize_64 st) = length r" using st by simp_all
  have total: "total_len st + of_nat (length cs) = of_nat (length (bs @ cs))" using st by simp
  show ?thesis
  proof (cases "length r + length cs < 32")
    case True
    have mem: "unat (memsize_64 st + of_nat (length cs)) = length (r @ cs)"
      using True st by (simp add: unat_word_ariths unat_of_nat)
    have "XXH64_update st cs = st\<lparr>total_len := total_len st + of_nat (length cs),
        mem64 := splice (length r) cs (mem64 st), memsize_64 := memsize_64 st + of_nat (length cs)\<rparr>"
      using True st by (simp add: XXH64_update_def Let_def)
    moreover have "take (length (r @ cs)) (splice (length r) cs (mem64 st)) = r @ cs"
      using take_splice [of "length r" cs "mem64 st"] st True by simp
    moreover have "length (splice (length r) cs (mem64 st)) = 32" using st True by (simp add: splice_length)
    ultimately show ?thesis
      unfolding rep64_def feed_short [OF vr _ True, simplified] Let_def prod.case using st mem by simp
  next
    case False
    obtain w q where wq: "stripes 32 stripe64 (seed64 seed) (bs @ cs) = (w, q)" by fastforce
    have q: "length q < 32" using rest_short [OF _ wq] by simp
    define buf where "buf = (if r \<noteq> [] then splice (length r) (take (32 - length r) cs) (mem64 st) else mem64 st)"
    have buf: "length buf = 32" "stripes 32 stripe64 (if r \<noteq> [] then stripe64 buf v else v)
        (if r \<noteq> [] then drop (32 - length r) cs else cs) = (w, q)"
      using feed_buffer [OF vr, of "mem64 st" cs] stripes_append [of 32 stripe64 "seed64 seed" bs cs] st vr wq False
      by (auto simp: buf_def)
    have "XXH64_update st cs = st\<lparr>total_len := total_len st + of_nat (length cs),
        lanes_64 := w, mem64 := (if q \<noteq> [] then splice 0 q buf else buf), memsize_64 := of_nat (length q)\<rparr>"
    proof (cases "r = []")
      case True
      then have "memsize_64 st = 0" "stripes 32 stripe64 v cs = (w, q)" using m buf(2) by (simp_all add: unat_eq_0)
      then show ?thesis using v True False by (simp add: XXH64_update_def Let_def buf_def)
    next
      case nonempty: False
      then have "stripes 32 stripe64 (stripe64 buf v) (drop (32 - length r) cs) = (w, q)" using buf(2) by simp
      then show ?thesis using v m nonempty False by (simp add: XXH64_update_def Let_def buf_def)
    qed
    moreover have "take (length q) (if q \<noteq> [] then splice 0 q buf else buf) = q"
      using take_splice [of 0 q buf] buf(1) q by auto
    moreover have "length (if q \<noteq> [] then splice 0 q buf else buf) = 32" using splice_length [of 0 q buf] buf(1) q by auto
    moreover have "unat (of_nat (length q) :: u32) = length q" using q by (simp add: unat_of_nat)
    ultimately show ?thesis unfolding rep64_def wq Let_def prod.case using total by simp
  qed
qed

lemma rep64_digest:
  assumes "rep64 seed st bs" "length bs < 2 ^ 64"
  shows "XXH64_digest st = XXH64 bs seed"
proof -
  obtain v r where vr: "stripes 32 stripe64 (seed64 seed) bs = (v, r)" by fastforce
  note st = assms(1) [unfolded rep64_def vr Let_def prod.case]
  have r: "length r = length bs mod 32" using stripes_rest [of 32 stripe64 "seed64 seed" bs] vr by simp
  have fin: "XXH64_finalize h (mem64 st) (length bs) = XXH64_finalize h r (length bs)" for h
    using finalize64_take [OF r, of h "mem64 st"] st by simp
  have total: "total_len st = of_nat (length bs)" and v: "lanes_64 st = v" using st by simp_all
  have un: "unat (of_nat (length bs) :: u64) = length bs" using assms(2) by (simp add: unat_of_nat)
  then have le: "(32 :: u64) \<le> of_nat (length bs) \<longleftrightarrow> 32 \<le> length bs" by (simp add: word_le_nat_alt)
  show ?thesis
  proof (cases "32 \<le> length bs")
    case True
    then show ?thesis using fin by (simp add: XXH64_digest_def XXH64_def Let_def total un v vr le)
  next
    case False
    then have "v = seed64 seed" "r = bs" using vr stripes_short [of bs 32 stripe64 "seed64 seed"] by simp_all
    then show ?thesis using False fin by (simp add: XXH64_digest_def XXH64_def Let_def total un v le seed64_def)
  qed
qed

section \<open>Streams\<close>

text \<open>
  The contract of a stream: a relation between states and the bytes fed so far holds after the
  reset, is kept by feeding a chunk, and fixes the digest. Whoever feeds chunks gets the hash
  of their concatenation.
\<close>

locale hash_stream =
  fixes rep :: "'s \<Rightarrow> u8 list \<Rightarrow> bool" and start :: 's and feed :: "'s \<Rightarrow> u8 list \<Rightarrow> 's"
    and finish :: "'s \<Rightarrow> 'h" and hash :: "u8 list \<Rightarrow> 'h" and fits :: "u8 list \<Rightarrow> bool"
  assumes rep_start: "rep start []"
    and rep_feed: "rep s bs \<Longrightarrow> rep (feed s cs) (bs @ cs)"
    and rep_finish: "rep s bs \<Longrightarrow> fits bs \<Longrightarrow> finish s = hash bs"
begin

lemma rep_foldl: "rep s bs \<Longrightarrow> rep (foldl feed s css) (bs @ concat css)"
  by (induction css arbitrary: s bs) (use rep_feed in fastforce)+

lemma stream_hash: "fits (concat css) \<Longrightarrow> finish (foldl feed start css) = hash (concat css)"
  using rep_finish [OF rep_foldl [OF rep_start]] by simp

end

interpretation x32: hash_stream "rep32 seed" "XXH32_reset seed" XXH32_update XXH32_digest "\<lambda>bs. XXH32 bs seed" "\<lambda>_. True"
  for seed
  by unfold_locales (simp_all add: rep32_reset rep32_update rep32_digest)

interpretation x64: hash_stream "rep64 seed" "XXH64_reset seed" XXH64_update XXH64_digest "\<lambda>bs. XXH64 bs seed"
    "\<lambda>bs. length bs < 2 ^ 64" for seed
  by unfold_locales (simp_all add: rep64_reset rep64_update rep64_digest)

section \<open>Properties\<close>

text \<open>
  C20. Feeding data to an XXH32 stream in any chunks gives the hash of one call on the
  concatenated data, also after the 32-bit length counter has wrapped around.
\<close>

theorem xxh32_stream: "XXH32_digest (foldl XXH32_update (XXH32_reset seed) chunks) = XXH32 (concat chunks) seed"
  by (rule x32.stream_hash) simp

text \<open>C21. The same holds for XXH64 as long as the data has fewer than \<open>2^64\<close> bytes.\<close>

theorem xxh64_stream:
  assumes "length (concat chunks) < 2 ^ 64"
  shows "XXH64_digest (foldl XXH64_update (XXH64_reset seed) chunks) = XXH64 (concat chunks) seed"
  using x64.stream_hash [of chunks seed] assms by simp

theorem xxh64_stream_witness:
  "XXH64_digest (foldl XXH64_update (XXH64_reset 0) [[1, 2, 3], [4, 5]]) = XXH64 [1, 2, 3, 4, 5] 0"
  using xxh64_stream [of "[[1, 2, 3], [4, 5]]" 0] by simp

text \<open>The published values of the empty input.\<close>

lemma xxh32_empty: "XXH32 [] 0 = 0x02CC5D05"
  by code_simp

lemma xxh64_empty: "XXH64 [] 0 = 0xEF46DB3751D8E999"
  by code_simp

end
