(* ===== verification/Qsym_Filter.thy ===== *)
theory Qsym_Filter
  imports Xxh "HOL-Library.Monad_Syntax"
begin

text \<open>
  The branch filter of \<open>fuzzer/cpp_core/filter.cc\<close>: a branch is worth solving when it sets a new
  bit in one of two coverage maps. The maps are global, counters and history belong to a
  session on the heap; using a session that has ended is the value \<open>None\<close>.
\<close>

section \<open>State\<close>

definition kMapSize :: nat where "kMapSize = 65536"

type_synonym covmap = "nat \<Rightarrow> u8"

text \<open>The visited set is listed in some order without repetition.\<close>

record Session =
  virgin_map :: covmap
  prev_loc :: u32
  visited :: "u32 list"

record filter_state =
  context_map :: covmap
  trace_map :: covmap
  sessions :: "u64 \<rightharpoonup> Session"

section \<open>Operations\<close>

definition isPowerofTwoOrZero :: "u32 \<Rightarrow> bool" where
  "isPowerofTwoOrZero x = (x AND (x - 1) = 0)"

definition bytes64 :: "u64 \<Rightarrow> u8 list" where
  "bytes64 x = map (\<lambda>i. ucast (drop_bit (8 * i) x)) [0..<8]"

definition bytes32 :: "u32 \<Rightarrow> u8 list" where
  "bytes32 x = map (\<lambda>i. ucast (drop_bit (8 * i) x)) [0..<4]"

definition hashPc :: "u64 \<Rightarrow> bool \<Rightarrow> u32" where
  "hashPc pc taken =
     of_nat (unat (XXH32_digest (XXH32_update (XXH32_update (XXH32_reset 0) (bytes64 pc)) [if taken then 1 else 0])) mod kMapSize)"

definition getIndex :: "Session \<Rightarrow> u32 \<Rightarrow> nat" where
  "getIndex s h = unat (drop_bit 1 (prev_loc s) XOR h) mod kMapSize"

definition contextBit :: "u32 \<Rightarrow> u32 \<Rightarrow> nat" where
  "contextBit prev_h h =
     unat (XXH32_digest (XXH32_update (XXH32_update (XXH32_reset 0) (bytes32 prev_h)) (bytes32 h))) mod (kMapSize * 8)"

fun context_loop :: "u32 \<Rightarrow> u32 list \<Rightarrow> covmap \<Rightarrow> bool \<Rightarrow> bool \<times> covmap" where
  "context_loop h [] m interesting = (interesting, m)"
| "context_loop h (prev_h # it) m interesting =
     (let hash = contextBit prev_h h; idx = hash div 8; msk = push_bit (hash mod 8) 1
      in if m idx AND msk = 0 then context_loop h it (m(idx := m idx OR msk)) True
         else context_loop h it m interesting)"

definition isInterestingContext :: "Session \<Rightarrow> u32 \<Rightarrow> u32 \<Rightarrow> covmap \<Rightarrow> bool \<times> Session \<times> covmap" where
  "isInterestingContext s h bits cm =
     (if \<not> isPowerofTwoOrZero bits then (False, s, cm)
      else (let (interesting, cm') = context_loop h (visited s) cm False
            in (interesting, (if bits = 0 then s\<lparr>visited := List.insert h (visited s)\<rparr> else s), cm')))"

definition isInterestingBranch ::
  "Session \<Rightarrow> u64 \<Rightarrow> bool \<Rightarrow> covmap \<Rightarrow> covmap \<Rightarrow> bool \<times> Session \<times> covmap \<times> covmap" where
  "isInterestingBranch s pc taken cm tm =
     (let h = hashPc pc taken; idx = getIndex s h;
          (new_context, s1, cm') = isInterestingContext s h (ucast (virgin_map s idx)) cm;
          v = (virgin_map s1)(idx := virgin_map s1 idx + 1);
          s2 = s1\<lparr>virgin_map := v, prev_loc := h\<rparr>
      in if v idx OR tm idx \<noteq> tm idx
         then (let inv_idx = getIndex s1 (hashPc pc (\<not> taken));
                   tm1 = tm(idx := tm idx OR v idx);
                   tm2 = tm1(inv_idx := tm1 inv_idx OR (v inv_idx + 1))
               in (True, s2, cm', tm2))
         else (new_context, s2, cm', tm))"

definition filter_init_core :: "filter_state \<Rightarrow> filter_state" where
  "filter_init_core fs = fs\<lparr>trace_map := (\<lambda>_. 0), context_map := (\<lambda>_. 0)\<rparr>"

text \<open>\<open>new\<close> chooses an address that is not in use.\<close>

definition start_session :: "u64 \<Rightarrow> filter_state \<Rightarrow> u64 \<times> filter_state" where
  "start_session addr fs =
     (addr, fs\<lparr>sessions := (sessions fs)(addr \<mapsto> \<lparr>virgin_map = (\<lambda>_. 0), prev_loc = 0, visited = []\<rparr>)\<rparr>)"

definition end_session :: "u64 \<Rightarrow> filter_state \<Rightarrow> filter_state option" where
  "end_session a fs = (case sessions fs a of None \<Rightarrow> None | Some s \<Rightarrow> Some (fs\<lparr>sessions := (sessions fs)(a := None)\<rparr>))"

definition qsym_filter :: "u64 \<Rightarrow> u64 \<Rightarrow> bool \<Rightarrow> filter_state \<Rightarrow> (bool \<times> filter_state) option" where
  "qsym_filter session pc taken fs =
     (case sessions fs session of None \<Rightarrow> None
      | Some s \<Rightarrow>
          (let (ret, s', cm, tm) = isInterestingBranch s pc taken (context_map fs) (trace_map fs)
           in Some (ret, \<lparr>context_map = cm, trace_map = tm, sessions = (sessions fs)(session \<mapsto> s')\<rparr>)))"

section \<open>Coverage only grows\<close>

definition cov_le :: "covmap \<Rightarrow> covmap \<Rightarrow> bool" where
  "cov_le m m' \<longleftrightarrow> (\<forall>i. m' i OR m i = m' i)"

lemma cov_le_refl [simp]: "cov_le m m"
  by (simp add: cov_le_def)

lemma cov_le_trans: "cov_le a b \<Longrightarrow> cov_le b c \<Longrightarrow> cov_le a c"
  unfolding cov_le_def by (metis or.assoc)

lemma cov_le_set: "cov_le m (m(i := m i OR b))"
  by (simp add: cov_le_def or.assoc or.commute or.left_commute)

lemma cov_le_antisym: "cov_le a b \<Longrightarrow> cov_le b a \<Longrightarrow> a = b"
  unfolding cov_le_def by (rule ext) (metis or.commute)

text \<open>A map that has grown stays different from what it was.\<close>

lemma cov_grown: "cov_le m m1 \<Longrightarrow> m1 \<noteq> m \<Longrightarrow> cov_le m1 m2 \<Longrightarrow> m2 \<noteq> m"
  using cov_le_antisym by metis

lemma fresh_bit: "m i AND b = 0 \<Longrightarrow> b \<noteq> 0 \<Longrightarrow> m(i := m i OR b) \<noteq> m"
  for m :: covmap
proof
  assume "m i AND b = 0" "b \<noteq> 0" "m(i := m i OR b) = m"
  then have "m i OR b = m i" by (metis fun_upd_same)
  then have "b = m i AND b" by (metis bit.conj_disj_distrib and.idem bit.disj_conj_distrib2 or.commute and.commute bit.disj_cancel_right or_eq_0_iff and_zero_eq word_bw_comms(1) word_ao_absorbs(1))
  then show False using \<open>m i AND b = 0\<close> \<open>b \<noteq> 0\<close> by simp
qed

lemma context_loop_grows:
  "context_loop h vs m b = (r, m') \<Longrightarrow> cov_le m m' \<and> (r \<longleftrightarrow> b \<or> m' \<noteq> m)"
proof (induction vs arbitrary: m b)
  case (Cons prev_h it)
  let ?i = "contextBit prev_h h div 8" and ?b = "push_bit (contextBit prev_h h mod 8) (1 :: u8)"
  show ?case
  proof (cases "m ?i AND ?b = 0")
    case True
    have "?b \<noteq> 0" by (simp add: push_bit_eq_0_iff)
    then have new: "m(?i := m ?i OR ?b) \<noteq> m" using fresh_bit True by blast
    have "context_loop h it (m(?i := m ?i OR ?b)) True = (r, m')" using Cons.prems True by (simp add: Let_def)
    note ih = Cons.IH [OF this]
    have g: "cov_le (m(?i := m ?i OR ?b)) m'" r using ih by blast+
    have "m' \<noteq> m" by (rule cov_grown [OF cov_le_set new g(1)])
    moreover have "cov_le m m'" by (rule cov_le_trans [OF cov_le_set g(1)])
    ultimately show ?thesis using g(2) by simp
  next
    case False
    have "context_loop h it m b = (r, m')" using Cons.prems False by (simp add: Let_def)
    then show ?thesis by (rule Cons.IH)
  qed
qed simp


text \<open>One call: neither map loses a bit, and the answer says whether one of them has gained one.\<close>

lemma isInterestingContext_grows:
  assumes "isInterestingContext s h bits cm = (r, s', cm')"
  shows "cov_le cm cm' \<and> (r \<longleftrightarrow> cm' \<noteq> cm) \<and> virgin_map s' = virgin_map s \<and> prev_loc s' = prev_loc s"
proof (cases "isPowerofTwoOrZero bits")
  case True
  obtain i m where l: "context_loop h (visited s) cm False = (i, m)" by fastforce
  then have "r = i" "cm' = m" "virgin_map s' = virgin_map s" "prev_loc s' = prev_loc s"
    using assms True by (auto simp: isInterestingContext_def split: if_splits)
  then show ?thesis using context_loop_grows [OF l] by simp
next
  case False
  then show ?thesis using assms by (simp add: isInterestingContext_def)
qed

lemma isInterestingBranch_grows:
  assumes "isInterestingBranch s pc taken cm tm = (r, s', cm', tm')"
  shows "cov_le cm cm' \<and> cov_le tm tm' \<and> (r \<longleftrightarrow> cm' \<noteq> cm \<or> tm' \<noteq> tm)"
proof -
  let ?h = "hashPc pc taken"
  let ?i = "getIndex s ?h"
  obtain nc s1 c where c: "isInterestingContext s ?h (ucast (virgin_map s ?i)) cm = (nc, s1, c)" by (metis prod_cases3)
  note g = isInterestingContext_grows [OF c]
  let ?v = "(virgin_map s)(?i := virgin_map s ?i + 1)"
  show ?thesis
  proof (cases "?v ?i OR tm ?i \<noteq> tm ?i")
    case True
    let ?t = "tm(?i := tm ?i OR ?v ?i)" and ?j = "getIndex s1 (hashPc pc (\<not> taken))"
    have r: "r" "cm' = c" "tm' = ?t(?j := ?t ?j OR (?v ?j + 1))"
      using assms True g by (simp_all add: isInterestingBranch_def c Let_def)
    have "?t \<noteq> tm" using True by (metis fun_upd_same or.commute)
    then have "tm' \<noteq> tm" unfolding r(3) using cov_grown [OF cov_le_set _ cov_le_set] by blast
    moreover have "cov_le tm tm'" unfolding r(3) by (rule cov_le_trans [OF cov_le_set cov_le_set])
    ultimately show ?thesis using g r by simp
  next
    case False
    then have "r = nc" "cm' = c" "tm' = tm"
      using assms g by (auto simp: isInterestingBranch_def c Let_def)
    then show ?thesis using g by simp
  qed
qed


section \<open>Bits inside the maps\<close>

definition in_map :: "covmap \<Rightarrow> bool" where
  "in_map m \<longleftrightarrow> (\<forall>i \<ge> kMapSize. m i = 0)"

definition cov_bits :: "covmap \<Rightarrow> (nat \<times> nat) set" where
  "cov_bits m = {(i, k). bit (m i) k}"

lemma contextBit_index: "contextBit a b div 8 < kMapSize"
  by (simp add: contextBit_def kMapSize_def less_mult_imp_div_less)

lemma getIndex_bound: "getIndex s h < kMapSize"
  by (simp add: getIndex_def kMapSize_def)

lemma in_map_upd: "in_map m \<Longrightarrow> i < kMapSize \<Longrightarrow> in_map (m(i := b))"
  by (auto simp: in_map_def)

lemma context_loop_in_map: "in_map m \<Longrightarrow> in_map (snd (context_loop h vs m b))"
  by (induction h vs m b rule: context_loop.induct) (auto simp: Let_def in_map_upd contextBit_index)

lemma isInterestingBranch_in_map:
  assumes "isInterestingBranch s pc taken cm tm = (r, s', cm', tm')" "in_map cm" "in_map tm"
  shows "in_map cm' \<and> in_map tm'"
proof -
  have c: "in_map (snd (snd (isInterestingContext s h b cm)))" for h b
    using context_loop_in_map [OF assms(2), of h "visited s" False] assms(2)
    by (auto simp: isInterestingContext_def split: prod.split)
  have "cm' = snd (snd (isInterestingContext s (hashPc pc taken) (ucast (virgin_map s (getIndex s (hashPc pc taken)))) cm))"
    using assms(1) by (auto simp: isInterestingBranch_def Let_def split: prod.splits if_splits)
  moreover have "in_map tm'"
    using assms(1,3) by (auto simp: isInterestingBranch_def Let_def in_map_upd getIndex_bound split: prod.splits if_splits)
  ultimately show ?thesis using c by simp
qed

lemma cov_bits_bound:
  assumes "in_map m"
  shows "cov_bits m \<subseteq> {..<kMapSize} \<times> {..<8}"
proof
  fix x assume "x \<in> cov_bits m"
  then obtain i k where x: "x = (i, k)" "bit (m i) k" by (auto simp: cov_bits_def)
  have "k < 8" using x(2) bit_imp_le_length [of "m i" k] by simp
  moreover have "i < kMapSize" using assms x(2) by (metis bit_0_eq bot_apply bot_bool_def in_map_def not_less)
  ultimately show "x \<in> {..<kMapSize} \<times> {..<8}" using x by simp
qed

lemma cov_bits_card: "in_map m \<Longrightarrow> finite (cov_bits m) \<and> card (cov_bits m) \<le> kMapSize * 8"
  using cov_bits_bound [of m] card_mono [OF _ cov_bits_bound [of m]] finite_subset by (auto simp: card_cartesian_product)

lemma cov_bits_mono: "cov_le m m' \<Longrightarrow> cov_bits m \<subseteq> cov_bits m'"
proof
  fix x assume le: "cov_le m m'" and "x \<in> cov_bits m"
  then obtain i k where x: "x = (i, k)" "bit (m i) k" by (auto simp: cov_bits_def)
  then have "bit (m' i OR m i) k" by (simp add: bit_or_iff)
  then show "x \<in> cov_bits m'" using le x by (simp add: cov_le_def cov_bits_def)
qed

lemma cov_bits_inj: "cov_bits m = cov_bits m' \<Longrightarrow> m = m'"
  by (rule ext, rule bit_eqI) (auto simp: cov_bits_def set_eq_iff)

text \<open>How many bits are set in the two maps together.\<close>

definition coverage :: "filter_state \<Rightarrow> nat" where
  "coverage fs = card (cov_bits (context_map fs)) + card (cov_bits (trace_map fs))"

definition maps_ok :: "filter_state \<Rightarrow> bool" where
  "maps_ok fs \<longleftrightarrow> in_map (context_map fs) \<and> in_map (trace_map fs)"

lemma card_grow:
  assumes "cov_le m m'" "in_map m'"
  shows "card (cov_bits m) \<le> card (cov_bits m')" "m' \<noteq> m \<Longrightarrow> card (cov_bits m) < card (cov_bits m')"
proof -
  have f: "finite (cov_bits m')" using cov_bits_card [OF assms(2)] by simp
  show "card (cov_bits m) \<le> card (cov_bits m')" by (rule card_mono [OF f cov_bits_mono [OF assms(1)]])
  assume "m' \<noteq> m"
  then have "cov_bits m \<subset> cov_bits m'" using cov_bits_mono [OF assms(1)] cov_bits_inj by blast
  then show "card (cov_bits m) < card (cov_bits m')" by (rule psubset_card_mono [OF f])
qed

lemma qsym_filter_step:
  assumes "qsym_filter a pc taken fs = Some (r, fs')" "maps_ok fs"
  shows "maps_ok fs' \<and> coverage fs \<le> coverage fs' \<and> (r \<longleftrightarrow> coverage fs < coverage fs')
    \<and> (\<not> r \<longrightarrow> context_map fs' = context_map fs \<and> trace_map fs' = trace_map fs)"
proof -
  obtain s s' cm tm where s: "sessions fs a = Some s"
    and b: "isInterestingBranch s pc taken (context_map fs) (trace_map fs) = (r, s', cm, tm)"
    and fs': "context_map fs' = cm" "trace_map fs' = tm"
    using assms(1) by (auto simp: qsym_filter_def split: option.splits prod.splits)
  note g = isInterestingBranch_grows [OF b]
  have ok: "in_map cm" "in_map tm" using isInterestingBranch_in_map [OF b] assms(2) by (simp_all add: maps_ok_def)
  show ?thesis
    using g card_grow [OF _ ok(1), of "context_map fs"] card_grow [OF _ ok(2), of "trace_map fs"] ok
    by (cases "cm = context_map fs"; cases "tm = trace_map fs") (auto simp: maps_ok_def coverage_def fs')
qed

text \<open>The hash of a branch is that of its address and direction in one buffer.\<close>

lemma hashPc_oneshot: "hashPc pc taken = of_nat (unat (XXH32 (bytes64 pc @ [if taken then 1 else 0]) 0) mod kMapSize)"
  using x32.stream_hash [of 0 "[bytes64 pc, [if taken then 1 else 0]]"] by (simp add: hashPc_def)

text \<open>The order in which the visited set is traversed does not matter.\<close>

lemma context_loop_bits:
  "bit (snd (context_loop h vs m b) i) k \<longleftrightarrow> bit (m i) k \<or> k < 8 \<and> (\<exists>v \<in> set vs. contextBit v h = i * 8 + k)"
proof (induction vs arbitrary: m b)
  case (Cons v vs)
  let ?c = "contextBit v h"
  define msk where "msk = push_bit (?c mod 8) (1 :: u8)"
  have pos: "?c div 8 = i \<and> ?c mod 8 = k \<longleftrightarrow> k < 8 \<and> ?c = i * 8 + k" by auto
  have msk: "bit msk k \<longleftrightarrow> k = ?c mod 8" unfolding msk_def bit_push_bit_iff by (auto simp: bit_1_iff)
  have all: "(\<exists>w \<in> set (v # vs). contextBit w h = i * 8 + k) \<longleftrightarrow> ?c = i * 8 + k \<or> (\<exists>w \<in> set vs. contextBit w h = i * 8 + k)"
    by simp
  show ?case
  proof (cases "m (?c div 8) AND msk = 0")
    case True
    let ?m = "m(?c div 8 := m (?c div 8) OR msk)"
    have "context_loop h (v # vs) m b = context_loop h vs ?m True" using True by (simp add: Let_def msk_def)
    moreover have "bit (?m i) k \<longleftrightarrow> bit (m i) k \<or> ?c div 8 = i \<and> ?c mod 8 = k" using msk by (auto simp: bit_or_iff)
    ultimately show ?thesis using Cons [of ?m True] pos all by metis
  next
    case False
    have "context_loop h (v # vs) m b = context_loop h vs m b" using False by (simp add: Let_def msk_def)
    moreover have "bit (m (?c div 8)) (?c mod 8)"
      using False unfolding msk_def by (simp add: and_exp_eq_0_iff_not_bit push_bit_eq_mult)
    ultimately show ?thesis using Cons [of m b] pos all by metis
  qed
qed simp

lemma context_loop_order:
  assumes "set vs = set ws"
  shows "context_loop h vs m b = context_loop h ws m b"
proof -
  have m: "snd (context_loop h vs m b) = snd (context_loop h ws m b)"
    by (rule ext, rule bit_eqI) (simp add: context_loop_bits assms)
  have "fst (context_loop h us m b) \<longleftrightarrow> b \<or> snd (context_loop h us m b) \<noteq> m" for us
    using context_loop_grows [of h us m b "fst (context_loop h us m b)" "snd (context_loop h us m b)"] by simp
  with m show ?thesis by (simp add: prod_eq_iff)
qed

section \<open>Runs\<close>

text \<open>Sessions start and end, and branches are asked about, in any order.\<close>

datatype filter_op = Start u64 | End u64 | Ask u64 u64 bool

fun filter_run :: "filter_op list \<Rightarrow> filter_state \<Rightarrow> (bool list \<times> filter_state) option" where
  "filter_run [] fs = Some ([], fs)"
| "filter_run (Start a # ops) fs = filter_run ops (snd (start_session a fs))"
| "filter_run (End a # ops) fs = do { fs' \<leftarrow> end_session a fs; filter_run ops fs' }"
| "filter_run (Ask a pc taken # ops) fs =
     do { (r, fs') \<leftarrow> qsym_filter a pc taken fs; (rs, fs'') \<leftarrow> filter_run ops fs'; Some (r # rs, fs'') }"

lemma filter_run_coverage:
  "filter_run ops fs = Some (rs, fs') \<Longrightarrow> maps_ok fs
   \<Longrightarrow> maps_ok fs' \<and> coverage fs + count_list rs True \<le> coverage fs'"
proof (induction ops fs arbitrary: rs rule: filter_run.induct)
  case (2 a ops fs)
  then show ?case by (simp add: start_session_def maps_ok_def coverage_def)
next
  case (3 a ops fs)
  from 3(2) obtain fs1 where e: "end_session a fs = Some fs1" and run: "filter_run ops fs1 = Some (rs, fs')"
    by (auto split: Option.bind_splits)
  have "context_map fs1 = context_map fs" "trace_map fs1 = trace_map fs"
    using e by (auto simp: end_session_def split: option.splits)
  then show ?case using 3(1) [OF e run] 3(3) by (simp add: maps_ok_def coverage_def)
next
  case (4 a pc taken ops fs)
  from 4(2) obtain r fs1 rs1 where q: "qsym_filter a pc taken fs = Some (r, fs1)"
    and run: "filter_run ops fs1 = Some (rs1, fs')" and rs: "rs = r # rs1"
    by (auto split: Option.bind_splits)
  note st = qsym_filter_step [OF q 4(3)]
  have "maps_ok fs' \<and> coverage fs1 + count_list rs1 True \<le> coverage fs'"
    using 4(1) [OF q refl run] st by blast
  then show ?case using st rs by auto
qed simp

section \<open>Properties\<close>

text \<open>
  C35. The filter answers for every live session, sets bits only inside its maps, never clears
  one, and says yes exactly when it has set a new bit.
\<close>

theorem filter_answer:
  assumes "sessions fs a = Some s" "in_map (context_map fs)" "in_map (trace_map fs)"
  shows "\<exists>r fs'. qsym_filter a pc taken fs = Some (r, fs')
    \<and> in_map (context_map fs') \<and> in_map (trace_map fs')
    \<and> cov_le (context_map fs) (context_map fs') \<and> cov_le (trace_map fs) (trace_map fs')
    \<and> (r \<longleftrightarrow> context_map fs' \<noteq> context_map fs \<or> trace_map fs' \<noteq> trace_map fs)"
proof -
  obtain r s' cm tm where b: "isInterestingBranch s pc taken (context_map fs) (trace_map fs) = (r, s', cm, tm)"
    by (metis prod_cases4)
  show ?thesis
    using isInterestingBranch_grows [OF b] isInterestingBranch_in_map [OF b assms(2,3)] b assms(1)
    by (auto simp: qsym_filter_def)
qed

definition sample_filter :: filter_state where
  "sample_filter = snd (start_session 16 \<lparr>context_map = (\<lambda>_. 0), trace_map = (\<lambda>_. 0), sessions = Map.empty\<rparr>)"

lemma sample_filter_ok: "in_map (context_map sample_filter)" "in_map (trace_map sample_filter)"
    "sessions sample_filter 16 = Some \<lparr>virgin_map = (\<lambda>_. 0), prev_loc = 0, visited = []\<rparr>"
  by (simp_all add: sample_filter_def start_session_def in_map_def)

theorem filter_answer_witness: "\<exists>r fs'. qsym_filter 16 0x401000 True sample_filter = Some (r, fs')"
  using filter_answer [OF sample_filter_ok(3,1,2)] by blast

text \<open>
  C36. The budget of the filter: over any sequence of sessions and questions after the maps have
  been cleared, at most \<open>2 \<cdot> 65536 \<cdot> 8\<close> answers are yes, so the number of branches handed to
  the solver is bounded.
\<close>

theorem filter_budget:
  assumes "filter_run ops (filter_init_core fs) = Some (rs, fs')"
  shows "count_list rs True \<le> 1048576"
proof -
  have ok: "maps_ok (filter_init_core fs)" by (simp add: maps_ok_def filter_init_core_def in_map_def)
  have "count_list rs True \<le> coverage fs'" "maps_ok fs'" using filter_run_coverage [OF assms ok] by simp_all
  moreover have "coverage fs' \<le> kMapSize * 8 + kMapSize * 8"
    using cov_bits_card calculation(2) unfolding coverage_def maps_ok_def by (intro add_mono) simp_all
  ultimately show ?thesis by (simp add: kMapSize_def)
qed

theorem filter_budget_witness:
  "\<exists>rs fs'. filter_run [Start 16, Ask 16 0x401000 True, End 16] (filter_init_core sample_filter) = Some (rs, fs')
     \<and> count_list rs True \<le> 1048576"
proof -
  obtain ret s' cm tm where "isInterestingBranch \<lparr>virgin_map = (\<lambda>_. 0), prev_loc = 0, visited = []\<rparr> 0x401000 True
      (context_map (filter_init_core sample_filter)) (trace_map (filter_init_core sample_filter)) = (ret, s', cm, tm)"
    by (metis prod_cases4)
  then obtain rs fs' where r: "filter_run [Start 16, Ask 16 0x401000 True, End 16] (filter_init_core sample_filter) = Some (rs, fs')"
    by (simp add: qsym_filter_def start_session_def end_session_def)
  show ?thesis using filter_budget [OF r] r by blast
qed

end
