(* ===== verification/Ast.thy ===== *)
theory Ast
  imports Rgd_Op "HOL-Library.Signed_Division"
begin

text \<open>
  The constraint language: the message \<open>AstNode\<close> of \<open>fuzzer/protos/rgd.proto\<close> and its meaning as a
  bit-vector expression. The meaning is the specification that the two back ends, the LLVM code
  generator (\<open>jit.cc\<close>) and the Z3 serialiser (\<open>z3solver.cc\<close>), are compared with. They differ
  where SMT-LIB and LLVM differ (division by zero, shifts by the width or more, overflow of the
  signed division); the meaning takes what happens there as a parameter.
\<close>

section \<open>Bit-vectors of any width\<close>

text \<open>A bit-vector of width \<open>w\<close> is a natural number below \<open>2^w\<close>.\<close>

definition sval :: "nat \<Rightarrow> nat \<Rightarrow> int" where
  "sval w a = (if 2 * a < 2 ^ w then int a else int a - 2 ^ w)"

definition of_sval :: "nat \<Rightarrow> int \<Rightarrow> nat" where
  "of_sval w i = nat (i mod 2 ^ w)"

lemma of_sval_less [simp]: "of_sval w i < 2 ^ w"
  unfolding of_sval_def by (simp add: nat_less_iff)

lemma of_sval_sval: "a < 2 ^ w \<Longrightarrow> of_sval w (sval w a) = a"
proof -
  assume "a < 2 ^ w"
  then have "int a < 2 ^ w" by (metis of_nat_less_iff of_nat_numeral of_nat_power)
  then have "int a mod 2 ^ w = int a" "(int a - 2 ^ w) mod 2 ^ w = int a" by simp_all
  then show ?thesis by (simp add: of_sval_def sval_def)
qed

lemma sval_bounds:
  assumes "a < 2 ^ w" "0 < w"
  shows "- (2 ^ (w - 1)) \<le> sval w a" "sval w a < 2 ^ (w - 1)"
proof -
  obtain k where k: "w = Suc k" using assms(2) by (cases w) auto
  have lt: "int a < 2 * 2 ^ k" using assms(1) k
    by (metis of_nat_less_iff of_nat_numeral of_nat_power power_Suc)
  show "- (2 ^ (w - 1)) \<le> sval w a"
  proof (cases "2 * a < 2 ^ w")
    case False
    then have "(2 :: nat) ^ k \<le> a" using k by simp
    then have "(2 :: int) ^ k \<le> int a" by (metis of_nat_le_iff of_nat_numeral of_nat_power)
    with False show ?thesis by (simp add: sval_def k)
  next
    case True
    have "- (2 ^ k) \<le> (0 :: int)" by simp
    then have "- (2 ^ k) \<le> int a" by (rule order_trans) simp
    with True show ?thesis by (simp add: sval_def k)
  qed
  show "sval w a < 2 ^ (w - 1)"
  proof (cases "2 * a < 2 ^ w")
    case True
    then have "a < 2 ^ k" using k by simp
    then have "int a < 2 ^ k" by (metis of_nat_less_iff of_nat_numeral of_nat_power)
    with True show ?thesis by (simp add: sval_def k)
  next
    case False
    with lt show ?thesis by (simp add: sval_def k)
  qed
qed

section \<open>Syntax\<close>

text \<open>
  The fields of \<open>AstNode\<close> the back ends read. A node of kind \<open>Constant\<close> carries its value as a
  decimal number and, in \<open>index\<close>, its argument slot; for \<open>Read\<close> the index is the offset of the
  first byte in the input, for \<open>Extract\<close> the position of the lowest bit.
\<close>

datatype AstNode =
  AstNode (akind: kind) (boolvalue: bool) (bits: u32) (avalue: string) (index: u32) (ahash: u32)
    (children: "AstNode list") (label: u32)

abbreviation width :: "AstNode \<Rightarrow> nat" where
  "width n \<equiv> unat (bits n)"

text \<open>All nodes of a tree.\<close>

fun nodes :: "AstNode \<Rightarrow> AstNode list" where
  "nodes (AstNode k b w v i h cs l) = AstNode k b w v i h cs l # concat (map nodes cs)"

text \<open>
  The other messages of \<open>rgd.proto\<close>: the metadata of a constraint (offset to slot, arguments,
  seed bytes, field lengths, number of constants), the constraint and the search task.
\<close>

record NodeMeta =
  meta_map :: "(u32 \<times> u32) list"
  meta_args :: "(bool \<times> u64) list"
  meta_inputs :: "(u32 \<times> u32) list"
  meta_shape :: "(u32 \<times> u32) list"
  meta_const_num :: u32

record Constraint =
  cnode :: AstNode
  cmeta :: NodeMeta
  clabel :: u32

record SearchTask =
  tconstraints :: "Constraint list"
  tfid :: u32
  taddr :: u64
  tctx :: u64
  torder :: u32
  tdirection :: u64

text \<open>A decimal numeral.\<close>

definition digit :: "char \<Rightarrow> nat option" where
  "digit c = (if 48 \<le> (of_char c :: nat) \<and> (of_char c :: nat) \<le> 57 then Some (of_char c - 48) else None)"

fun dec_digits :: "nat \<Rightarrow> string \<Rightarrow> nat option" where
  "dec_digits acc [] = Some acc"
| "dec_digits acc (c # cs) = (case digit c of None \<Rightarrow> None | Some d \<Rightarrow> dec_digits (10 * acc + d) cs)"

definition dec_val :: "string \<Rightarrow> nat option" where
  "dec_val s = (if s = [] then None else dec_digits 0 s)"

section \<open>Meaning\<close>

text \<open>
  The value of a corner case: division by zero, a shift by the width or more, and the quotient
  and remainder of the most negative number by \<open>-1\<close>.
\<close>

type_synonym corner = "kind \<Rightarrow> nat \<Rightarrow> nat \<Rightarrow> nat \<Rightarrow> nat option"

definition overflows :: "nat \<Rightarrow> nat \<Rightarrow> nat \<Rightarrow> bool" where
  "overflows w a b \<longleftrightarrow> sval w a = - (2 ^ (w - 1)) \<and> sval w b = - 1"

fun in_corner :: "kind \<Rightarrow> nat \<Rightarrow> nat \<Rightarrow> nat \<Rightarrow> bool" where
  "in_corner rgd_UDiv w a b \<longleftrightarrow> b = 0"
| "in_corner rgd_URem w a b \<longleftrightarrow> b = 0"
| "in_corner rgd_SDiv w a b \<longleftrightarrow> b = 0 \<or> overflows w a b"
| "in_corner rgd_SRem w a b \<longleftrightarrow> b = 0 \<or> overflows w a b"
| "in_corner rgd_Shl w a b \<longleftrightarrow> w \<le> b"
| "in_corner rgd_LShr w a b \<longleftrightarrow> w \<le> b"
| "in_corner rgd_AShr w a b \<longleftrightarrow> w \<le> b"
| "in_corner _ w a b \<longleftrightarrow> False"

text \<open>The operators on two vectors of the same width outside the corners.\<close>

fun bv_op :: "kind \<Rightarrow> nat \<Rightarrow> nat \<Rightarrow> nat \<Rightarrow> nat option" where
  "bv_op rgd_Add w a b = Some ((a + b) mod 2 ^ w)"
| "bv_op rgd_Sub w a b = Some (of_sval w (int a - int b))"
| "bv_op rgd_Mul w a b = Some ((a * b) mod 2 ^ w)"
| "bv_op rgd_UDiv w a b = Some (a div b)"
| "bv_op rgd_SDiv w a b = Some (of_sval w (sval w a sdiv sval w b))"
| "bv_op rgd_URem w a b = Some (a mod b)"
| "bv_op rgd_SRem w a b = Some (of_sval w (sval w a smod sval w b))"
| "bv_op rgd_And w a b = Some (a AND b)"
| "bv_op rgd_Or w a b = Some (a OR b)"
| "bv_op rgd_Xor w a b = Some (a XOR b)"
| "bv_op rgd_Shl w a b = Some ((a * 2 ^ b) mod 2 ^ w)"
| "bv_op rgd_LShr w a b = Some (a div 2 ^ b)"
| "bv_op rgd_AShr w a b = Some (of_sval w (sval w a div 2 ^ b))"
| "bv_op _ w a b = None"

text \<open>The comparisons, on two vectors of the same width.\<close>

fun bv_cmp :: "kind \<Rightarrow> nat \<Rightarrow> nat \<Rightarrow> nat \<Rightarrow> bool option" where
  "bv_cmp rgd_Equal w a b = Some (a = b)"
| "bv_cmp rgd_Distinct w a b = Some (a \<noteq> b)"
| "bv_cmp rgd_Ult w a b = Some (a < b)"
| "bv_cmp rgd_Ule w a b = Some (a \<le> b)"
| "bv_cmp rgd_Ugt w a b = Some (b < a)"
| "bv_cmp rgd_Uge w a b = Some (b \<le> a)"
| "bv_cmp rgd_Slt w a b = Some (sval w a < sval w b)"
| "bv_cmp rgd_Sle w a b = Some (sval w a \<le> sval w b)"
| "bv_cmp rgd_Sgt w a b = Some (sval w b < sval w a)"
| "bv_cmp rgd_Sge w a b = Some (sval w b \<le> sval w a)"
| "bv_cmp _ w a b = None"

text \<open>One and two operands; \<open>w\<close> and \<open>i\<close> are the fields \<open>bits\<close> and \<open>index\<close> of the node.\<close>

definition un_val :: "kind \<Rightarrow> nat \<Rightarrow> nat \<Rightarrow> nat \<Rightarrow> nat \<Rightarrow> (nat \<times> nat) option" where
  "un_val k w i w1 a =
     (case k of
        rgd_Extract \<Rightarrow> if 0 < w \<and> i + w \<le> w1 then Some (w, (a div 2 ^ i) mod 2 ^ w) else None
      | rgd_ZExt \<Rightarrow> if w1 \<le> w then Some (w, a) else None
      | rgd_SExt \<Rightarrow> if w1 \<le> w then Some (w, of_sval w (sval w1 a)) else None
      | rgd_Neg \<Rightarrow> if w = w1 then Some (w, of_sval w (- int a)) else None
      | rgd_Not \<Rightarrow> if w = w1 then Some (w, 2 ^ w - 1 - a) else None
      | rgd_LNot \<Rightarrow> if w1 = 1 then Some (1, 1 - a) else None
      | _ \<Rightarrow> None)"

definition bin_val ::
  "corner \<Rightarrow> kind \<Rightarrow> nat \<Rightarrow> nat \<Rightarrow> nat \<Rightarrow> nat \<Rightarrow> nat \<Rightarrow> (nat \<times> nat) option" where
  "bin_val co k w w1 a w2 b =
     (if k = rgd_Concat then if w = w1 + w2 then Some (w, b * 2 ^ w1 + a) else None
      else if k = rgd_LOr then if w1 = 1 \<and> w2 = 1 then Some (1, max a b) else None
      else if k = rgd_LAnd then if w1 = 1 \<and> w2 = 1 then Some (1, min a b) else None
      else if w1 \<noteq> w2 then None
      else if relational k then map_option (\<lambda>r. (1, of_bool r)) (bv_cmp k w1 a b)
      else if w \<noteq> w1 then None
      else map_option (Pair w) (if in_corner k w a b then co k w a b else bv_op k w a b))"

text \<open>
  The meaning of a node, a width and a value; \<open>None\<close> for a tree that is not well-formed. The
  parameter \<open>rd\<close> gives the value read at an offset with a number of bytes.
\<close>

type_synonym reads = "u32 \<Rightarrow> nat \<Rightarrow> nat"

definition leaf_val :: "reads \<Rightarrow> kind \<Rightarrow> bool \<Rightarrow> nat \<Rightarrow> string \<Rightarrow> u32 \<Rightarrow> (nat \<times> nat) option" where
  "leaf_val rd k bo w v ix =
     (case k of
        rgd_Bool \<Rightarrow> Some (1, of_bool bo)
      | rgd_Constant \<Rightarrow>
          if w = 0 then None else map_option (\<lambda>c. (w, c mod 2 ^ w)) (dec_val v)
      | rgd_Read \<Rightarrow> if w = 0 \<or> \<not> 8 dvd w then None else Some (w, rd ix (w div 8) mod 2 ^ w)
      | _ \<Rightarrow> None)"

fun ast_val :: "corner \<Rightarrow> reads \<Rightarrow> AstNode \<Rightarrow> (nat \<times> nat) option" where
  "ast_val co rd (AstNode k bo w v ix h cs l) =
     (case cs of
        [] \<Rightarrow> leaf_val rd k bo (unat w) v ix
      | [c] \<Rightarrow> (case ast_val co rd c of None \<Rightarrow> None
                | Some (w1, a) \<Rightarrow> un_val k (unat w) (unat ix) w1 a)
      | [c1, c2] \<Rightarrow> (case ast_val co rd c1 of None \<Rightarrow> None
                | Some (w1, a) \<Rightarrow>
                    (case ast_val co rd c2 of None \<Rightarrow> None
                     | Some (w2, b) \<Rightarrow> bin_val co k (unat w) w1 a w2 b))
      | _ \<Rightarrow> None)"

text \<open>What the input says at the leaves: the bytes of a read, least significant first.\<close>

definition bytes_val :: "(u32 \<Rightarrow> u8) \<Rightarrow> reads" where
  "bytes_val m ix n = (\<Sum>k < n. unat (m (ix + of_nat k)) * 256 ^ k)"

text \<open>No value at all in the corners: where a tree has this meaning, all back ends must agree.\<close>

definition no_corner :: corner where
  "no_corner k w a b = None"

definition corner_ok :: "corner \<Rightarrow> bool" where
  "corner_ok co \<longleftrightarrow> (\<forall>k w a b c. a < 2 ^ w \<longrightarrow> b < 2 ^ w \<longrightarrow> co k w a b = Some c \<longrightarrow> c < 2 ^ w)"

section \<open>Facts about the meaning\<close>

lemma dvd_pow_bound: "a < 2 ^ w1 \<Longrightarrow> w1 \<le> w \<Longrightarrow> a < (2 :: nat) ^ w"
  by (erule order_less_le_trans) (simp add: power_increasing)

lemma nat_bitop_bound:
  fixes a b :: nat
  assumes "a < 2 ^ w" "b < 2 ^ w"
  shows "a AND b < 2 ^ w" "a OR b < 2 ^ w" "a XOR b < 2 ^ w"
proof -
  have "take_bit w a = a" "take_bit w b = b" using assms by (simp_all add: take_bit_nat_eq_self)
  then have "take_bit w (a AND b) = a AND b" "take_bit w (a OR b) = a OR b" "take_bit w (a XOR b) = a XOR b"
    by (simp_all add: take_bit_and take_bit_or take_bit_xor)
  then show "a AND b < 2 ^ w" "a OR b < 2 ^ w" "a XOR b < 2 ^ w"
    by (metis take_bit_nat_less_exp)+
qed

lemma bv_op_bound:
  assumes "a < 2 ^ w" "b < 2 ^ w" "bv_op k w a b = Some c"
  shows "c < 2 ^ w"
proof -
  have q: "a div x < 2 ^ w" "a mod x < 2 ^ w" for x
    using assms(1) by (meson div_le_dividend mod_less_eq_dividend order_le_less_trans)+
  from assms(3) show ?thesis
    by (cases k) (simp_all, (hypsubst, simp add: nat_bitop_bound [OF assms(1,2)] q)+)
qed

lemma concat_bound: "a < 2 ^ w1 \<Longrightarrow> b < 2 ^ w2 \<Longrightarrow> b * 2 ^ w1 + a < (2 :: nat) ^ (w1 + w2)"
proof -
  assume a: "a < 2 ^ w1" and b: "b < 2 ^ w2"
  have "b * 2 ^ w1 + a < (b + 1) * 2 ^ w1" using a by simp
  also have "\<dots> \<le> 2 ^ w2 * 2 ^ w1" using b by (intro mult_right_mono) auto
  finally show ?thesis by (simp add: power_add mult.commute)
qed

lemma un_val_bound:
  assumes "a < 2 ^ w1" "0 < w1" "un_val k w i w1 a = Some (w', c)"
  shows "c < 2 ^ w' \<and> 0 < w'"
  using assms dvd_pow_bound [OF assms(1), of w]
  by (cases k) (simp_all add: un_val_def split: if_splits, hypsubst?, auto)

lemma bin_val_bv:
  assumes "k \<notin> {rgd_Concat, rgd_LOr, rgd_LAnd}" "bin_val co k w w1 a w2 b = Some (w', c)"
  shows "w2 = w1 \<and> (if relational k then w' = 1 \<and> c < 2 else w = w1 \<and> w' = w1 \<and>
    (if in_corner k w a b then co k w a b else bv_op k w a b) = Some c)"
  using assms by (simp add: bin_val_def split: if_splits) (auto simp: of_bool_def split: if_splits)

lemma bin_val_bound:
  assumes "corner_ok co" "a < 2 ^ w1" "0 < w1" "b < 2 ^ w2" "bin_val co k w w1 a w2 b = Some (w', c)"
  shows "c < 2 ^ w' \<and> 0 < w'"
proof (cases "k \<in> {rgd_Concat, rgd_LOr, rgd_LAnd}")
  case True
  then consider "k = rgd_Concat" | "k = rgd_LOr" | "k = rgd_LAnd" by blast
  then show ?thesis
  proof cases
    case 1
    with assms(3,5) concat_bound [OF assms(2,4)] show ?thesis by (simp add: bin_val_def split: if_splits)
  next
    case 2
    with assms(5) have "w1 = 1" "w2 = 1" "w' = 1" "c = max a b" by (simp_all add: bin_val_def split: if_splits)
    with assms(2,4) show ?thesis by simp
  next
    case 3
    with assms(5) have "w1 = 1" "w2 = 1" "w' = 1" "c = min a b" by (simp_all add: bin_val_def split: if_splits)
    with assms(2,4) show ?thesis by simp
  qed
next
  case False
  note * = bin_val_bv [OF False assms(5)]
  show ?thesis
  proof (cases "relational k")
    case True
    with * show ?thesis by simp
  next
    case False
    with * have "(if in_corner k w a b then co k w a b else bv_op k w a b) = Some c"
      "w' = w" "w1 = w" "w2 = w" by metis+
    moreover from this have "a < 2 ^ w" "b < 2 ^ w" using assms(2,4) by simp_all
    moreover from this have "co k w a b = Some c \<Longrightarrow> c < 2 ^ w"
      using assms(1) unfolding corner_ok_def by blast
    ultimately show ?thesis using assms(3) bv_op_bound [of a w b k c] by (simp split: if_splits)
  qed
qed

text \<open>Induction along the nodes of a tree that has a meaning.\<close>

lemma ast_val_cases [consumes 1, case_names leaf un bin]:
  assumes "ast_val co rd n = Some r"
  obtains
    (leaf) k bo w v ix h l where "n = AstNode k bo w v ix h [] l" "leaf_val rd k bo (unat w) v ix = Some r"
  | (un) k bo w v ix h c l w1 a where "n = AstNode k bo w v ix h [c] l"
      "ast_val co rd c = Some (w1, a)" "un_val k (unat w) (unat ix) w1 a = Some r"
  | (bin) k bo w v ix h c1 c2 l w1 a w2 b where "n = AstNode k bo w v ix h [c1, c2] l"
      "ast_val co rd c1 = Some (w1, a)" "ast_val co rd c2 = Some (w2, b)"
      "bin_val co k (unat w) w1 a w2 b = Some r"
proof (cases n)
  case (AstNode k bo w v ix h cs l)
  consider "cs = []" | c where "cs = [c]" | c1 c2 where "cs = [c1, c2]" | c1 c2 c3 cs' where "cs = c1 # c2 # c3 # cs'"
    by (metis list.exhaust)
  then show ?thesis
  proof cases
    case 1
    with AstNode assms leaf show ?thesis by simp
  next
    case (2 c)
    with AstNode assms obtain w1 a where "ast_val co rd c = Some (w1, a)"
      "un_val k (unat w) (unat ix) w1 a = Some r" by (auto split: option.splits)
    with AstNode 2 un show ?thesis by blast
  next
    case (3 c1 c2)
    with AstNode assms obtain w1 a w2 b where "ast_val co rd c1 = Some (w1, a)"
      "ast_val co rd c2 = Some (w2, b)" "bin_val co k (unat w) w1 a w2 b = Some r"
      by (auto split: option.splits)
    with AstNode 3 bin show ?thesis by blast
  next
    case 4
    with AstNode assms show ?thesis by simp
  qed
qed

lemma ast_val_induct [consumes 1, case_names leaf un bin]:
  assumes val: "ast_val co rd n = Some r"
    and leaf: "\<And>k bo w v ix h l r. leaf_val rd k bo (unat w) v ix = Some r \<Longrightarrow> P (AstNode k bo w v ix h [] l) r"
    and un: "\<And>k bo w v ix h c l w1 a r. ast_val co rd c = Some (w1, a) \<Longrightarrow> P c (w1, a) \<Longrightarrow>
        un_val k (unat w) (unat ix) w1 a = Some r \<Longrightarrow> P (AstNode k bo w v ix h [c] l) r"
    and bin: "\<And>k bo w v ix h c1 c2 l w1 a w2 b r. ast_val co rd c1 = Some (w1, a) \<Longrightarrow> P c1 (w1, a) \<Longrightarrow>
        ast_val co rd c2 = Some (w2, b) \<Longrightarrow> P c2 (w2, b) \<Longrightarrow>
        bin_val co k (unat w) w1 a w2 b = Some r \<Longrightarrow> P (AstNode k bo w v ix h [c1, c2] l) r"
  shows "P n r"
  using val
proof (induction n arbitrary: r)
  case (AstNode k bo w v ix h cs l)
  note IH = AstNode.IH
  from AstNode.prems show ?case
  proof (cases rule: ast_val_cases)
    case (leaf)
    then show ?thesis using assms(2) by blast
  next
    case (un k bo w v ix h c l w1 a)
    then show ?thesis using assms(3) IH [of c] by simp
  next
    case (bin k bo w v ix h c1 c2 l w1 a w2 b)
    then show ?thesis using assms(4) IH [of c1] IH [of c2] by simp
  qed
qed

lemma ast_val_bound:
  assumes "corner_ok co" "ast_val co rd n = Some (w, a)"
  shows "a < 2 ^ w \<and> 0 < w"
proof -
  have "snd r < 2 ^ fst r \<and> 0 < fst r" if "ast_val co rd n = Some r" for r
    using that
  proof (induction rule: ast_val_induct)
    case (leaf k bo w v ix h l r)
    then show ?case by (cases k) (simp_all add: leaf_val_def split: if_splits, auto)
  next
    case (un k bo w v ix h c l w1 a r)
    then show ?case by (cases r) (auto dest: un_val_bound)
  next
    case (bin k bo w v ix h c1 c2 l w1 a w2 b r)
    then show ?case by (cases r) (auto dest: bin_val_bound [OF assms(1)])
  qed
  from this [OF assms(2)] show ?thesis by simp
qed

text \<open>A tree that has a meaning without corners has the same meaning whatever happens there.\<close>

lemma bin_val_no_corner:
  "bin_val no_corner k w w1 a w2 b = Some r \<Longrightarrow> bin_val co k w w1 a w2 b = Some r"
  by (cases "in_corner k w a b") (simp_all add: bin_val_def no_corner_def split del: if_split split: if_split_asm)

lemma ast_val_no_corner:
  assumes "ast_val no_corner rd n = Some r"
  shows "ast_val co rd n = Some r"
  using assms
proof (induction rule: ast_val_induct)
  case (bin k bo w v ix h c1 c2 l w1 a w2 b r)
  then show ?case using bin_val_no_corner [OF bin.hyps(3), of co] by simp
qed simp_all

end
