(* ===== verification/Z3_Solver.thy ===== *)
theory Z3_Solver
  imports Ast
begin

text \<open>
  The SMT back end, \<open>fuzzer/cpp_core/z3solver.cc\<close>: the translation of constraints to Z3
  expressions, the solver object and \<open>sendZ3Solver\<close>. An expression is the term that the calls of
  the Z3 API build; the API raises an exception on a term that is not well-sorted, and the
  meaning of well-sorted terms is that of SMT-LIB. The decision procedure and the simplifier are
  parameters.
\<close>

section \<open>The interface of Z3\<close>

text \<open>
  Terms over the bytes of the input, which are the constants named by integers. \<open>ZOp k\<close>,
  \<open>ZCmp k\<close> and \<open>ZLog k\<close> are the functions for the operators of the same name.
\<close>

datatype zexpr =
    ZBool bool | ZNum nat nat | ZByte u32
  | ZConcat zexpr zexpr | ZExtract nat nat zexpr | ZZext nat zexpr | ZSext nat zexpr
  | ZIte zexpr zexpr zexpr | ZNeg zexpr | ZBvnot zexpr
  | ZOp kind zexpr zexpr | ZCmp kind zexpr zexpr | ZLog kind zexpr zexpr | ZNot zexpr

datatype zsort = SBool | SBV nat

text \<open>
  The sort of a term; \<open>None\<close> is the exception of the API. The bitwise operators are taken for bit
  vectors only; newer versions of z3++ accept them on two Booleans as well.
\<close>

definition arith_kind :: "kind \<Rightarrow> bool" where
  "arith_kind k \<longleftrightarrow> 7 \<le> kind_num k \<and> kind_num k \<le> 21 \<and> k \<noteq> rgd_Neg \<and> k \<noteq> rgd_Not"

fun zsort_of :: "zexpr \<Rightarrow> zsort option" where
  "zsort_of (ZBool b) = Some SBool"
| "zsort_of (ZNum w n) = (if 0 < w then Some (SBV w) else None)"
| "zsort_of (ZByte i) = Some (SBV 8)"
| "zsort_of (ZConcat x y) = (case (zsort_of x, zsort_of y) of (Some (SBV v), Some (SBV w)) \<Rightarrow> Some (SBV (v + w)) | _ \<Rightarrow> None)"
| "zsort_of (ZExtract hi lo x) = (case zsort_of x of Some (SBV w) \<Rightarrow> if lo \<le> hi \<and> hi < w then Some (SBV (hi - lo + 1)) else None | _ \<Rightarrow> None)"
| "zsort_of (ZZext n x) = (case zsort_of x of Some (SBV w) \<Rightarrow> Some (SBV (w + n)) | _ \<Rightarrow> None)"
| "zsort_of (ZSext n x) = (case zsort_of x of Some (SBV w) \<Rightarrow> Some (SBV (w + n)) | _ \<Rightarrow> None)"
| "zsort_of (ZIte c x y) = (if zsort_of c = Some SBool \<and> zsort_of x = zsort_of y then zsort_of x else None)"
| "zsort_of (ZNeg x) = (case zsort_of x of Some (SBV w) \<Rightarrow> Some (SBV w) | _ \<Rightarrow> None)"
| "zsort_of (ZBvnot x) = (case zsort_of x of Some (SBV w) \<Rightarrow> Some (SBV w) | _ \<Rightarrow> None)"
| "zsort_of (ZOp k x y) = (case (zsort_of x, zsort_of y) of (Some (SBV v), Some (SBV w)) \<Rightarrow> if v = w \<and> arith_kind k then Some (SBV w) else None | _ \<Rightarrow> None)"
| "zsort_of (ZCmp k x y) =
     (if k = rgd_Equal \<or> k = rgd_Distinct then (if zsort_of x \<noteq> None \<and> zsort_of x = zsort_of y then Some SBool else None)
      else (case (zsort_of x, zsort_of y) of (Some (SBV v), Some (SBV w)) \<Rightarrow> if v = w \<and> relational k then Some SBool else None | _ \<Rightarrow> None))"
| "zsort_of (ZLog k x y) = (if zsort_of x = Some SBool \<and> zsort_of y = Some SBool \<and> k \<in> {rgd_LOr, rgd_LAnd} then Some SBool else None)"
| "zsort_of (ZNot x) = (if zsort_of x = Some SBool then Some SBool else None)"

definition zmk :: "zexpr \<Rightarrow> zexpr option" where
  "zmk e = (if zsort_of e = None then None else Some e)"

text \<open>SMT-LIB gives a value to the corner cases that LLVM leaves undefined.\<close>

definition smt_corner :: corner where
  "smt_corner k w a b =
     (case k of
        rgd_UDiv \<Rightarrow> Some (2 ^ w - 1)
      | rgd_URem \<Rightarrow> Some a
      | rgd_SDiv \<Rightarrow> Some (if b = 0 then if sval w a < 0 then 1 mod 2 ^ w else 2 ^ w - 1 else a)
      | rgd_SRem \<Rightarrow> Some (if b = 0 then a else 0)
      | rgd_Shl \<Rightarrow> Some 0
      | rgd_LShr \<Rightarrow> Some 0
      | rgd_AShr \<Rightarrow> Some (if sval w a < 0 then 2 ^ w - 1 else 0)
      | _ \<Rightarrow> None)"

datatype zval = BB bool | BV nat nat

fun zop :: "kind \<Rightarrow> zval option \<Rightarrow> zval option \<Rightarrow> zval option" where
  "zop k (Some (BV w a)) (Some (BV w' b)) =
     (if w = w' then map_option (BV w) (if in_corner k w a b then smt_corner k w a b else bv_op k w a b) else None)"
| "zop k _ _ = None"

fun zcmp :: "kind \<Rightarrow> zval option \<Rightarrow> zval option \<Rightarrow> zval option" where
  "zcmp k (Some (BV w a)) (Some (BV w' b)) = (if w = w' then map_option BB (bv_cmp k w a b) else None)"
| "zcmp k (Some (BB a)) (Some (BB b)) =
     (if k = rgd_Equal then Some (BB (a = b)) else if k = rgd_Distinct then Some (BB (a \<noteq> b)) else None)"
| "zcmp k _ _ = None"

fun zeval :: "(u32 \<Rightarrow> u8) \<Rightarrow> zexpr \<Rightarrow> zval option" where
  "zeval m (ZBool b) = Some (BB b)"
| "zeval m (ZNum w n) = Some (BV w (n mod 2 ^ w))"
| "zeval m (ZByte i) = Some (BV 8 (unat (m i)))"
| "zeval m (ZConcat x y) = (case (zeval m x, zeval m y) of (Some (BV v a), Some (BV w b)) \<Rightarrow> Some (BV (v + w) (a * 2 ^ w + b)) | _ \<Rightarrow> None)"
| "zeval m (ZExtract hi lo x) = (case zeval m x of Some (BV w a) \<Rightarrow> Some (BV (hi - lo + 1) ((a div 2 ^ lo) mod 2 ^ (hi - lo + 1))) | _ \<Rightarrow> None)"
| "zeval m (ZZext n x) = (case zeval m x of Some (BV w a) \<Rightarrow> Some (BV (w + n) a) | _ \<Rightarrow> None)"
| "zeval m (ZSext n x) = (case zeval m x of Some (BV w a) \<Rightarrow> Some (BV (w + n) (of_sval (w + n) (sval w a))) | _ \<Rightarrow> None)"
| "zeval m (ZIte c x y) = (case zeval m c of Some (BB b) \<Rightarrow> if b then zeval m x else zeval m y | _ \<Rightarrow> None)"
| "zeval m (ZNeg x) = (case zeval m x of Some (BV w a) \<Rightarrow> Some (BV w (of_sval w (- int a))) | _ \<Rightarrow> None)"
| "zeval m (ZBvnot x) = (case zeval m x of Some (BV w a) \<Rightarrow> Some (BV w (2 ^ w - 1 - a)) | _ \<Rightarrow> None)"
| "zeval m (ZOp k x y) = zop k (zeval m x) (zeval m y)"
| "zeval m (ZCmp k x y) = zcmp k (zeval m x) (zeval m y)"
| "zeval m (ZLog k x y) = (case (zeval m x, zeval m y) of (Some (BB a), Some (BB b)) \<Rightarrow> Some (BB (if k = rgd_LOr then a \<or> b else a \<and> b)) | _ \<Rightarrow> None)"
| "zeval m (ZNot x) = (case zeval m x of Some (BB a) \<Rightarrow> Some (BB (\<not> a)) | _ \<Rightarrow> None)"

section \<open>Serialisation\<close>

text \<open>
  \<open>Solver::serialize\<close> with its cache by label; \<open>None\<close> is a Z3 exception, an operator without a
  case, or a child that does not exist.
\<close>

type_synonym zcache = "u32 \<rightharpoonup> zexpr"

definition cache_expr :: "u32 \<Rightarrow> zexpr \<Rightarrow> zcache \<Rightarrow> zexpr \<times> zcache" where
  "cache_expr l e c = (e, if l \<noteq> 0 \<and> c l = None then c(l \<mapsto> e) else c)"

definition ser_Constant :: "u32 \<Rightarrow> string \<Rightarrow> zexpr option" where
  "ser_Constant w v =
     (if w = 1 then Some (ZBool (v = ''1''))
      else (case dec_val v of None \<Rightarrow> None | Some n \<Rightarrow> zmk (ZNum (unat w) n)))"

text \<open>The bytes of a read, each one put above the bytes so far.\<close>

fun ser_bytes :: "u32 \<Rightarrow> nat \<Rightarrow> nat \<Rightarrow> zexpr \<Rightarrow> zexpr" where
  "ser_bytes ix i 0 out = out"
| "ser_bytes ix i (Suc n) out = ser_bytes ix (Suc i) n (ZConcat (ZByte (ix + of_nat i)) out)"

definition ser_Read :: "u32 \<Rightarrow> u32 \<Rightarrow> zexpr" where
  "ser_Read ix w = ser_bytes ix 1 (unat w div 8 - 1) (ZByte ix)"

definition ser_ZExt :: "u32 \<Rightarrow> u32 \<Rightarrow> zexpr \<Rightarrow> zexpr option" where
  "ser_ZExt w w1 c1 =
     (let c1 = (if zsort_of c1 = Some SBool then ZIte c1 (ZNum 1 1) (ZNum 1 0) else c1)
      in zmk (ZZext (unat (w - w1)) c1))"

definition ser_unary :: "kind \<Rightarrow> u32 \<Rightarrow> u32 \<Rightarrow> u32 \<Rightarrow> zexpr \<Rightarrow> zexpr option" where
  "ser_unary k ix w w1 c1 =
     (case k of
        rgd_Extract \<Rightarrow> zmk (ZExtract (unat (ix + w - 1)) (unat ix) c1)
      | rgd_ZExt \<Rightarrow> ser_ZExt w w1 c1
      | rgd_SExt \<Rightarrow> zmk (ZSext (unat (w - w1)) c1)
      | rgd_Neg \<Rightarrow> zmk (ZNeg c1)
      | rgd_Not \<Rightarrow> zmk (ZBvnot c1)
      | rgd_LNot \<Rightarrow> zmk (ZNot c1)
      | _ \<Rightarrow> None)"

definition ser_binary :: "kind \<Rightarrow> zexpr \<Rightarrow> zexpr \<Rightarrow> zexpr option" where
  "ser_binary k c1 c2 =
     (if k = rgd_Concat then zmk (ZConcat c2 c1)
      else if arith_kind k then zmk (ZOp k c1 c2)
      else if relational k then zmk (ZCmp k c1 c2)
      else if k \<in> {rgd_LOr, rgd_LAnd} then zmk (ZLog k c1 c2)
      else None)"

definition zunary :: "kind \<Rightarrow> bool" where
  "zunary k \<longleftrightarrow> k \<in> {rgd_Extract, rgd_ZExt, rgd_SExt, rgd_Neg, rgd_Not, rgd_LNot}"

fun serialize :: "AstNode \<Rightarrow> zcache \<Rightarrow> (zexpr \<times> zcache) option" where
  "serialize (AstNode k bo w v ix h cs l) c =
     (case (if l \<noteq> 0 then c l else None) of
        Some e \<Rightarrow> Some (e, c)
      | None \<Rightarrow>
         (if k = rgd_Bool then Some (cache_expr l (ZBool bo) c)
          else if k = rgd_Constant then map_option (\<lambda>e. cache_expr l e c) (ser_Constant w v)
          else if k = rgd_Read then Some (cache_expr l (ser_Read ix w) c)
          else if zunary k then
            (case cs of
               [] \<Rightarrow> None
             | n1 # _ \<Rightarrow> (case serialize n1 c of None \<Rightarrow> None
                 | Some (c1, c') \<Rightarrow> map_option (\<lambda>e. cache_expr l e c') (ser_unary k ix w (bits n1) c1)))
          else
            (case cs of
               n1 # n2 # _ \<Rightarrow> (case serialize n1 c of None \<Rightarrow> None
                 | Some (c1, c') \<Rightarrow> (case serialize n2 c' of None \<Rightarrow> None
                     | Some (c2, c'') \<Rightarrow> map_option (\<lambda>e. cache_expr l e c'') (ser_binary k c1 c2)))
             | _ \<Rightarrow> None)))"

section \<open>The solver\<close>

text \<open>
  What Z3 answers: a model, that is the values of the constants it mentions, no model, or an
  exception.
\<close>

datatype z3_answer = Sat "(u32 \<times> nat) list" | NotSat | Z3_exception

text \<open>\<open>expr::is_const\<close>: an application without arguments, literals included.\<close>

fun is_const :: "zexpr \<Rightarrow> bool" where
  "is_const (ZBool b) = True"
| "is_const (ZNum w n) = True"
| "is_const (ZByte i) = True"
| "is_const _ = False"

text \<open>The object \<open>Solver\<close>: the assertions of \<open>solver_\<close>; the statistics are not used.\<close>

type_synonym Solver = "zexpr list"

definition Solver_reset :: "Solver \<Rightarrow> Solver" where
  "Solver_reset s = []"

text \<open>\<open>Solver::add\<close>; asserting a term that is not a proposition raises an exception.\<close>

definition Solver_add :: "(zexpr \<Rightarrow> zexpr) \<Rightarrow> zexpr \<Rightarrow> Solver \<Rightarrow> Solver option" where
  "Solver_add simplify e s =
     (if is_const e then Some s else if zsort_of e = Some SBool then Some (s @ [simplify e]) else None)"

definition Solver_checkonly :: "(zexpr list \<Rightarrow> z3_answer) \<Rightarrow> Solver \<Rightarrow> bool" where
  "Solver_checkonly z3 s = (case z3 s of Sat _ \<Rightarrow> True | NotSat \<Rightarrow> False | Z3_exception \<Rightarrow> False)"

text \<open>
  \<open>Solver::check\<close> writes the model into the solution. After an exception the function ends without
  a return, which is undefined: \<open>None\<close>.
\<close>

definition Solver_check ::
  "(zexpr list \<Rightarrow> z3_answer) \<Rightarrow> Solver \<Rightarrow> (u32 \<rightharpoonup> u8) \<Rightarrow> (bool \<times> (u32 \<rightharpoonup> u8)) option" where
  "Solver_check z3 s solu =
     (case z3 s of
        Sat model \<Rightarrow> Some (True, foldl (\<lambda>sol (i, v). sol(i \<mapsto> of_nat v)) solu model)
      | NotSat \<Rightarrow> Some (False, solu)
      | Z3_exception \<Rightarrow> None)"

type_synonym session_cache = "u32 \<times> u32 \<rightharpoonup> zexpr"

text \<open>
  The loop over the constraints: a constraint in the session cache is asserted negated unless it
  is the first one; any other constraint is serialised, asserted as it is and cached. An exception
  of the API makes the function return false; the flag says whether the loop ran to its end.
\<close>

fun send_loop ::
  "(zexpr \<Rightarrow> zexpr) \<Rightarrow> u32 \<Rightarrow> nat \<Rightarrow> Constraint list \<Rightarrow> Solver \<Rightarrow> session_cache \<Rightarrow> bool \<times> Solver \<times> session_cache" where
  "send_loop simplify fid i [] s sc = (True, s, sc)"
| "send_loop simplify fid i (c # cs) s sc =
     (case sc (fid, clabel c) of
        Some e \<Rightarrow>
          (case Option.bind (if i \<noteq> 0 then zmk (ZNot e) else Some e) (\<lambda>e'. Solver_add simplify e' s) of
             None \<Rightarrow> (False, s, sc)
           | Some s' \<Rightarrow> send_loop simplify fid (Suc i) cs s' sc)
      | None \<Rightarrow>
          (case serialize (cnode c) Map.empty of
             None \<Rightarrow> (False, s, sc)
           | Some (e, _) \<Rightarrow>
               (case Solver_add simplify e s of
                  None \<Rightarrow> (False, s, sc)
                | Some s' \<Rightarrow> send_loop simplify fid (Suc i) cs s' (sc((fid, clabel c) \<mapsto> e)))))"

text \<open>With \<open>opti\<close> only the first constraint is sent; a task without constraints is then an error.\<close>

definition sendZ3Solver ::
  "(zexpr \<Rightarrow> zexpr) \<Rightarrow> (zexpr list \<Rightarrow> z3_answer) \<Rightarrow> bool \<Rightarrow> SearchTask \<Rightarrow> (u32 \<rightharpoonup> u8) \<Rightarrow> bool \<Rightarrow>
   Solver \<times> session_cache \<Rightarrow> ((bool \<times> (u32 \<rightharpoonup> u8)) \<times> Solver \<times> session_cache) option" where
  "sendZ3Solver simplify z3 opti task solu solve st =
     (if opti \<and> tconstraints task = [] then None
      else let s = Solver_reset (fst st);
               cs = (if opti then take 1 (tconstraints task) else tconstraints task);
               (ok, s, sc) = send_loop simplify (tfid task) 0 cs s (snd st)
           in if ok \<and> solve then map_option (\<lambda>r. (r, s, sc)) (Solver_check z3 s solu)
              else Some ((False, solu), s, sc))"

end
