(* ===== verification/Jit_Codegen.thy ===== *)
theory Jit_Codegen
  imports Ast
begin

text \<open>
  The code generator of \<open>fuzzer/cpp_core/jit.cc\<close>. The model records the calls that \<open>codegen\<close>
  makes on the \<open>IRBuilder\<close> of LLVM, in order; a call returns a handle to its result. What LLVM
  makes of the calls is not part of the sources. The definitions \<open>call_sem\<close> and \<open>exec\<close> give the
  documented meaning of the calls (the reference manual of the IR), undefined where the manual
  leaves the result undefined or poisoned, and the compiled function is a parameter that is
  assumed to follow it.
\<close>

section \<open>The interface of the builder\<close>

text \<open>
  A \<open>llvm::Value *\<close>: the result of a call, an integer constant (width and value) or the
  argument of the function under construction.
\<close>

datatype handle = Reg nat | CInt nat nat | Arg

text \<open>
  \<open>BinOp k\<close> and \<open>ICmp k\<close> are the instruction and the predicate named like the operator \<open>k\<close>
  (\<open>CreateAdd\<close>, \<open>CreateICmpULT\<close>); \<open>ShlC\<close> and \<open>LShrC\<close> are the overloads of \<open>CreateShl\<close> and
  \<open>CreateLShr\<close> that take a number.
\<close>

datatype call =
    GEP handle u32 | Load handle | Store handle handle
  | BinOp kind handle handle | ShlC handle nat | LShrC handle nat
  | Trunc handle nat | ZExt handle nat | SExt handle nat | ZExtOrTrunc handle nat
  | ICmp kind handle handle | Select handle handle handle
  | CNeg handle | CNot handle

text \<open>The builder, the cache of node values by label, and the map from offsets to slots.\<close>

record jstate =
  calls :: "call list"
  value_cache :: "u32 \<rightharpoonup> handle"
  lmap :: "(u32 \<times> u32) list"

definition emit :: "call \<Rightarrow> jstate \<Rightarrow> handle \<times> jstate" where
  "emit c s = (Reg (length (calls s)), s\<lparr>calls := calls s @ [c]\<rparr>)"

section \<open>Code generation\<close>

definition RET_OFFSET :: u32 where
  "RET_OFFSET = 2"

text \<open>A slot of the argument array.\<close>

definition gen_load :: "u32 \<Rightarrow> jstate \<Rightarrow> handle \<times> jstate" where
  "gen_load slot s = (let (p, s) = emit (GEP Arg (slot + RET_OFFSET)) s in emit (Load p) s)"

definition gen_Constant :: "u32 \<Rightarrow> u32 \<Rightarrow> jstate \<Rightarrow> handle \<times> jstate" where
  "gen_Constant ix w s = (let (r, s) = gen_load ix s in emit (Trunc r (unat w)) s)"

text \<open>\<open>operator[]\<close> of the local map, which inserts a zero for a missing offset.\<close>

definition lmap_index :: "u32 \<Rightarrow> jstate \<Rightarrow> u32 \<times> jstate" where
  "lmap_index ix s = (case map_of (lmap s) ix of Some a \<Rightarrow> (a, s) | None \<Rightarrow> (0, s\<lparr>lmap := (ix, 0) # lmap s\<rparr>))"

fun gen_bytes :: "u32 \<Rightarrow> nat \<Rightarrow> nat \<Rightarrow> handle \<Rightarrow> jstate \<Rightarrow> handle \<times> jstate" where
  "gen_bytes start k 0 r s = (r, s)"
| "gen_bytes start k (Suc n) r s =
     (let (tmp, s) = gen_load (start + of_nat k) s;
          (tmp, s) = emit (ShlC tmp (8 * k)) s;
          (r, s) = emit (BinOp rgd_Add r tmp) s
      in gen_bytes start (Suc k) n r s)"

definition gen_Read :: "u32 \<Rightarrow> u32 \<Rightarrow> jstate \<Rightarrow> handle \<times> jstate" where
  "gen_Read ix w s =
     (let (start, s) = lmap_index ix s;
          (r, s) = gen_load start s;
          (r, s) = gen_bytes start 1 (unat w div 8 - 1) r s
      in emit (Trunc r (unat w)) s)"

text \<open>
  Concatenation, with the first child in the low bits. The arguments of \<open>CreateOr\<close> are
  evaluated from left to right.
\<close>

definition gen_Concat :: "u32 \<Rightarrow> u32 \<Rightarrow> handle \<Rightarrow> handle \<Rightarrow> jstate \<Rightarrow> handle \<times> jstate" where
  "gen_Concat w1 w2 c1 c2 s =
     (let bits = unat (w1 + w2);
          (hi, s) = emit (ZExt c2 bits) s;
          (hi, s) = emit (ShlC hi (unat w1)) s;
          (lo, s) = emit (ZExt c1 bits) s
      in emit (BinOp rgd_Or hi lo) s)"

definition gen_Extract :: "u32 \<Rightarrow> u32 \<Rightarrow> handle \<Rightarrow> jstate \<Rightarrow> handle \<times> jstate" where
  "gen_Extract ix w c s =
     (let (t, s) = emit (LShrC c (unat ix)) s in emit (Trunc t (unat w)) s)"

text \<open>Division and remainder: a divisor of zero is replaced by one.\<close>

definition gen_div :: "kind \<Rightarrow> u32 \<Rightarrow> handle \<Rightarrow> handle \<Rightarrow> jstate \<Rightarrow> handle \<times> jstate" where
  "gen_div k w c1 c2 s =
     (let VA0 = CInt (unat w) 0; VA1 = CInt (unat w) 1;
          (cond, s) = emit (ICmp rgd_Equal c2 VA0) s;
          (divisor, s) = emit (Select cond VA1 c2) s
      in emit (BinOp k c1 divisor) s)"

text \<open>The remaining operators are one call each.\<close>

definition gen_unary :: "kind \<Rightarrow> u32 \<Rightarrow> u32 \<Rightarrow> handle \<Rightarrow> jstate \<Rightarrow> handle option \<times> jstate" where
  "gen_unary k ix w c s =
     (case k of
        rgd_Extract \<Rightarrow> apfst Some (gen_Extract ix w c s)
      | rgd_ZExt \<Rightarrow> apfst Some (emit (ZExtOrTrunc c (unat w)) s)
      | rgd_SExt \<Rightarrow> apfst Some (emit (SExt c (unat w)) s)
      | rgd_Neg \<Rightarrow> apfst Some (emit (CNeg c) s)
      | rgd_Not \<Rightarrow> apfst Some (emit (CNot c) s)
      | _ \<Rightarrow> (None, s))"

subsection \<open>Comparisons\<close>

text \<open>
  A comparison extends its operands to 64 bits, stores them in the first two slots and returns
  the distance to the other outcome.
\<close>

definition gen_ext :: "bool \<Rightarrow> handle \<Rightarrow> handle \<Rightarrow> jstate \<Rightarrow> handle \<times> handle \<times> jstate" where
  "gen_ext sx c1 c2 s =
     (let (c1e, s) = emit (if sx then SExt c1 64 else ZExt c1 64) s;
          (c2e, s) = emit (if sx then SExt c2 64 else ZExt c2 64) s
      in (c1e, c2e, s))"

definition gen_store :: "handle \<Rightarrow> handle \<Rightarrow> jstate \<Rightarrow> jstate" where
  "gen_store c1e c2e s =
     (let (p, s) = emit (GEP Arg 0) s; (_, s) = emit (Store c1e p) s;
          (p, s) = emit (GEP Arg 1) s; (_, s) = emit (Store c2e p) s
      in s)"

definition gen_Equal :: "handle \<Rightarrow> handle \<Rightarrow> jstate \<Rightarrow> handle \<times> jstate" where
  "gen_Equal c1 c2 s =
     (let (c1e, c2e, s) = gen_ext False c1 c2 s;
          s = gen_store c1e c2e s;
          (cond, s) = emit (ICmp rgd_Uge c1e c2e) s;
          (tv, s) = emit (BinOp rgd_Sub c1e c2e) s;
          (fv, s) = emit (BinOp rgd_Sub c2e c1e) s
      in emit (Select cond tv fv) s)"

definition gen_Distinct :: "handle \<Rightarrow> handle \<Rightarrow> jstate \<Rightarrow> handle \<times> jstate" where
  "gen_Distinct c1 c2 s =
     (let (c1e, c2e, s) = gen_ext False c1 c2 s;
          s = gen_store c1e c2e s;
          (cond, s) = emit (ICmp rgd_Equal c1e c2e) s
      in emit (Select cond (CInt 64 1) (CInt 64 0)) s)"

definition gen_Ult :: "handle \<Rightarrow> handle \<Rightarrow> jstate \<Rightarrow> handle \<times> jstate" where
  "gen_Ult c1 c2 s =
     (let (c1e, c2e, s) = gen_ext False c1 c2 s;
          s = gen_store c1e c2e s;
          (cond, s) = emit (ICmp rgd_Ult c1e c2e) s;
          (d, s) = emit (BinOp rgd_Sub c1e c2e) s;
          (fv, s) = emit (BinOp rgd_Add d (CInt 64 1)) s
      in emit (Select cond (CInt 64 0) fv) s)"

definition gen_Ule :: "handle \<Rightarrow> handle \<Rightarrow> jstate \<Rightarrow> handle \<times> jstate" where
  "gen_Ule c1 c2 s =
     (let (c1e, c2e, s) = gen_ext False c1 c2 s;
          (cond, s) = emit (ICmp rgd_Ule c1e c2e) s;
          s = gen_store c1e c2e s;
          (fv, s) = emit (BinOp rgd_Sub c1e c2e) s
      in emit (Select cond (CInt 64 0) fv) s)"

definition gen_Ugt :: "handle \<Rightarrow> handle \<Rightarrow> jstate \<Rightarrow> handle \<times> jstate" where
  "gen_Ugt c1 c2 s =
     (let (c1e, c2e, s) = gen_ext False c1 c2 s;
          (cond, s) = emit (ICmp rgd_Ugt c1e c2e) s;
          s = gen_store c1e c2e s;
          (d, s) = emit (BinOp rgd_Sub c2e c1e) s;
          (fv, s) = emit (BinOp rgd_Add d (CInt 64 1)) s
      in emit (Select cond (CInt 64 0) fv) s)"

definition gen_Uge :: "handle \<Rightarrow> handle \<Rightarrow> jstate \<Rightarrow> handle \<times> jstate" where
  "gen_Uge c1 c2 s =
     (let (c1e, c2e, s) = gen_ext False c1 c2 s;
          s = gen_store c1e c2e s;
          (cond, s) = emit (ICmp rgd_Uge c1e c2e) s;
          (fv, s) = emit (BinOp rgd_Sub c2e c1e) s
      in emit (Select cond (CInt 64 0) fv) s)"

definition gen_Slt :: "handle \<Rightarrow> handle \<Rightarrow> jstate \<Rightarrow> handle \<times> jstate" where
  "gen_Slt c1 c2 s =
     (let (c1e, c2e, s) = gen_ext True c1 c2 s;
          s = gen_store c1e c2e s;
          (cond, s) = emit (ICmp rgd_Slt c1e c2e) s;
          (d, s) = emit (BinOp rgd_Sub c1e c2e) s;
          (fv, s) = emit (BinOp rgd_Add d (CInt 64 1)) s
      in emit (Select cond (CInt 64 0) fv) s)"

definition gen_Sle :: "handle \<Rightarrow> handle \<Rightarrow> jstate \<Rightarrow> handle \<times> jstate" where
  "gen_Sle c1 c2 s =
     (let (c1e, c2e, s) = gen_ext True c1 c2 s;
          s = gen_store c1e c2e s;
          (cond, s) = emit (ICmp rgd_Sle c1e c2e) s;
          (fv, s) = emit (BinOp rgd_Sub c1e c2e) s
      in emit (Select cond (CInt 64 0) fv) s)"

definition gen_Sgt :: "handle \<Rightarrow> handle \<Rightarrow> jstate \<Rightarrow> handle \<times> jstate" where
  "gen_Sgt c1 c2 s =
     (let (c1e, c2e, s) = gen_ext True c1 c2 s;
          s = gen_store c1e c2e s;
          (cond, s) = emit (ICmp rgd_Sgt c1e c2e) s;
          (d, s) = emit (BinOp rgd_Sub c2e c1e) s;
          (fv, s) = emit (BinOp rgd_Add d (CInt 64 1)) s
      in emit (Select cond (CInt 64 0) fv) s)"

definition gen_Sge :: "handle \<Rightarrow> handle \<Rightarrow> jstate \<Rightarrow> handle \<times> jstate" where
  "gen_Sge c1 c2 s =
     (let (c1e, c2e, s) = gen_ext True c1 c2 s;
          s = gen_store c1e c2e s;
          (cond, s) = emit (ICmp rgd_Sge c1e c2e) s;
          (fv, s) = emit (BinOp rgd_Sub c2e c1e) s
      in emit (Select cond (CInt 64 0) fv) s)"

definition gen_cmp :: "kind \<Rightarrow> handle \<Rightarrow> handle \<Rightarrow> jstate \<Rightarrow> handle \<times> jstate" where
  "gen_cmp k =
     (case k of
        rgd_Equal \<Rightarrow> gen_Equal | rgd_Distinct \<Rightarrow> gen_Distinct
      | rgd_Ult \<Rightarrow> gen_Ult | rgd_Ule \<Rightarrow> gen_Ule | rgd_Ugt \<Rightarrow> gen_Ugt | rgd_Uge \<Rightarrow> gen_Uge
      | rgd_Slt \<Rightarrow> gen_Slt | rgd_Sle \<Rightarrow> gen_Sle | rgd_Sgt \<Rightarrow> gen_Sgt | _ \<Rightarrow> gen_Sge)"

definition gen_binary ::
  "kind \<Rightarrow> u32 \<Rightarrow> u32 \<Rightarrow> u32 \<Rightarrow> handle \<Rightarrow> handle \<Rightarrow> jstate \<Rightarrow> handle option \<times> jstate" where
  "gen_binary k w w1 w2 c1 c2 s =
     (if k = rgd_Concat then apfst Some (gen_Concat w1 w2 c1 c2 s)
      else if k \<in> {rgd_UDiv, rgd_SDiv, rgd_URem, rgd_SRem} then apfst Some (gen_div k w c1 c2 s)
      else if k \<in> {rgd_Add, rgd_Sub, rgd_Mul, rgd_And, rgd_Or, rgd_Xor, rgd_Shl, rgd_LShr, rgd_AShr}
      then apfst Some (emit (BinOp k c1 c2) s)
      else if relational k then apfst Some (gen_cmp k c1 c2 s)
      else (None, s))"

subsection \<open>The recursion\<close>

definition unary_kind :: "kind \<Rightarrow> bool" where
  "unary_kind k \<longleftrightarrow> k \<in> {rgd_Extract, rgd_ZExt, rgd_SExt, rgd_Neg, rgd_Not}"

definition binary_kind :: "kind \<Rightarrow> bool" where
  "binary_kind k \<longleftrightarrow> k \<in> {rgd_Concat, rgd_Add, rgd_Sub, rgd_Mul, rgd_UDiv, rgd_SDiv, rgd_URem, rgd_SRem,
     rgd_And, rgd_Or, rgd_Xor, rgd_Shl, rgd_LShr, rgd_AShr} \<or> relational k"

text \<open>\<open>value_cache.insert\<close> at the end of \<open>codegen\<close>: an entry that exists is kept.\<close>

fun cache_ret :: "u32 \<Rightarrow> handle option \<times> jstate \<Rightarrow> handle option \<times> jstate" where
  "cache_ret l (Some r, s) =
     (Some r, if l \<noteq> 0 \<and> value_cache s l = None then s\<lparr>value_cache := (value_cache s)(l \<mapsto> r)\<rparr> else s)"
| "cache_ret l (None, s) = (None, s)"

text \<open>
  \<open>codegen\<close>. The value is \<open>None\<close> where the source returns a null pointer, asserts (the logical
  operators and \<open>Ite\<close>) or reads a child that does not exist.
\<close>

fun codegen :: "AstNode \<Rightarrow> jstate \<Rightarrow> handle option \<times> jstate" where
  "codegen (AstNode k bo w v ix h cs l) s =
     (case (if l \<noteq> 0 then value_cache s l else None) of
        Some r \<Rightarrow> (Some r, s)
      | None \<Rightarrow> cache_ret l
         (if k = rgd_Bool then (Some (CInt 1 (of_bool bo)), s)
          else if k = rgd_Constant then apfst Some (gen_Constant ix w s)
          else if k = rgd_Read then apfst Some (gen_Read ix w s)
          else if unary_kind k then
            (case cs of
               [] \<Rightarrow> (None, s)
             | c # _ \<Rightarrow> (case codegen c s of (None, s1) \<Rightarrow> (None, s1)
                         | (Some r, s1) \<Rightarrow> gen_unary k ix w r s1))
          else if binary_kind k then
            (case cs of
               c1 # c2 # _ \<Rightarrow>
                 (case codegen c1 s of (None, s1) \<Rightarrow> (None, s1)
                  | (Some r1, s1) \<Rightarrow>
                      (case codegen c2 s1 of (None, s2) \<Rightarrow> (None, s2)
                       | (Some r2, s2) \<Rightarrow> gen_binary k w (bits c1) (bits c2) r1 r2 s2))
             | _ \<Rightarrow> (None, s))
          else (None, s)))"

text \<open>
  \<open>addFunction\<close>: the body of the new function and the handle it returns; the local map comes
  back as \<open>codegen\<close> leaves it.
\<close>

definition addFunction :: "AstNode \<Rightarrow> (u32 \<times> u32) list \<Rightarrow> (call list \<times> handle option) \<times> (u32 \<times> u32) list" where
  "addFunction request local_map =
     (let (body, s) = codegen request \<lparr>calls = [], value_cache = Map.empty, lmap = local_map\<rparr>
      in ((calls s, body), lmap s))"

section \<open>The documented meaning of the calls\<close>

text \<open>Integers with their width, pointers into the argument array, no value.\<close>

datatype rval = VInt nat nat | VPtr nat | VVoid

fun hval :: "rval list \<Rightarrow> handle \<Rightarrow> rval option" where
  "hval vs (Reg i) = (if i < length vs then Some (vs ! i) else None)"
| "hval vs (CInt w n) = Some (VInt w (n mod 2 ^ w))"
| "hval vs Arg = Some (VPtr 0)"

fun sem_bin :: "kind \<Rightarrow> rval option \<Rightarrow> rval option \<Rightarrow> rval option" where
  "sem_bin k (Some (VInt w a)) (Some (VInt w' b)) =
     (if w = w' \<and> \<not> in_corner k w a b then map_option (VInt w) (bv_op k w a b) else None)"
| "sem_bin k _ _ = None"

fun sem_cmp :: "kind \<Rightarrow> rval option \<Rightarrow> rval option \<Rightarrow> rval option" where
  "sem_cmp k (Some (VInt w a)) (Some (VInt w' b)) =
     (if w = w' then map_option (\<lambda>r. VInt 1 (of_bool r)) (bv_cmp k w a b) else None)"
| "sem_cmp k _ _ = None"

text \<open>Extension and truncation to a width; the builder returns the value itself at equal widths.\<close>

fun sem_trunc :: "nat \<Rightarrow> rval option \<Rightarrow> rval option" where
  "sem_trunc w' (Some (VInt w a)) = (if 0 < w' \<and> w' \<le> w then Some (VInt w' (a mod 2 ^ w')) else None)"
| "sem_trunc w' _ = None"

fun sem_zext :: "nat \<Rightarrow> rval option \<Rightarrow> rval option" where
  "sem_zext w' (Some (VInt w a)) = (if w \<le> w' then Some (VInt w' a) else None)"
| "sem_zext w' _ = None"

fun sem_sext :: "nat \<Rightarrow> rval option \<Rightarrow> rval option" where
  "sem_sext w' (Some (VInt w a)) = (if w \<le> w' then Some (VInt w' (of_sval w' (sval w a))) else None)"
| "sem_sext w' _ = None"

fun sem_select :: "rval option \<Rightarrow> rval option \<Rightarrow> rval option \<Rightarrow> rval option" where
  "sem_select (Some (VInt c n)) (Some (VInt w a)) (Some (VInt w' b)) =
     (if c = 1 \<and> w = w' then Some (VInt w (if n = 1 then a else b)) else None)"
| "sem_select _ _ _ = None"

fun sem_un :: "(nat \<Rightarrow> nat \<Rightarrow> nat) \<Rightarrow> rval option \<Rightarrow> rval option" where
  "sem_un f (Some (VInt w a)) = Some (VInt w (f w a))"
| "sem_un f _ = None"

fun width_of :: "rval option \<Rightarrow> nat" where
  "width_of (Some (VInt w a)) = w"
| "width_of _ = 0"

text \<open>The value of a call that does not touch memory.\<close>

fun pure_sem :: "rval list \<Rightarrow> call \<Rightarrow> rval option" where
  "pure_sem vs (GEP p i) = (case hval vs p of Some (VPtr j) \<Rightarrow> if unat i < 2 ^ 31 then Some (VPtr (j + unat i)) else None | _ \<Rightarrow> None)"
| "pure_sem vs (BinOp k x y) = sem_bin k (hval vs x) (hval vs y)"
| "pure_sem vs (ShlC x n) = sem_bin rgd_Shl (hval vs x) (hval vs (CInt (width_of (hval vs x)) n))"
| "pure_sem vs (LShrC x n) = sem_bin rgd_LShr (hval vs x) (hval vs (CInt (width_of (hval vs x)) n))"
| "pure_sem vs (Trunc x w) = sem_trunc w (hval vs x)"
| "pure_sem vs (ZExt x w) = sem_zext w (hval vs x)"
| "pure_sem vs (SExt x w) = sem_sext w (hval vs x)"
| "pure_sem vs (ZExtOrTrunc x w) =
     (if width_of (hval vs x) \<le> w then sem_zext w (hval vs x) else sem_trunc w (hval vs x))"
| "pure_sem vs (ICmp k x y) = sem_cmp k (hval vs x) (hval vs y)"
| "pure_sem vs (Select c x y) = sem_select (hval vs c) (hval vs x) (hval vs y)"
| "pure_sem vs (CNeg x) = sem_un (\<lambda>w a. of_sval w (- int a)) (hval vs x)"
| "pure_sem vs (CNot x) = sem_un (\<lambda>w a. 2 ^ w - 1 - a) (hval vs x)"
| "pure_sem vs _ = None"

definition call_sem :: "rval list \<Rightarrow> u64 list \<Rightarrow> call \<Rightarrow> (rval \<times> u64 list) option" where
  "call_sem vs mem c =
     (case c of
        Load p \<Rightarrow> (case hval vs p of
            Some (VPtr j) \<Rightarrow> if j < length mem then Some (VInt 64 (unat (mem ! j)), mem) else None
          | _ \<Rightarrow> None)
      | Store x p \<Rightarrow> (case (hval vs x, hval vs p) of
            (Some (VInt w a), Some (VPtr j)) \<Rightarrow>
              if w = 64 \<and> j < length mem then Some (VVoid, mem[j := of_nat a]) else None
          | _ \<Rightarrow> None)
      | _ \<Rightarrow> map_option (\<lambda>v. (v, mem)) (pure_sem vs c))"

fun exec :: "call list \<Rightarrow> rval list \<times> u64 list \<Rightarrow> (rval list \<times> u64 list) option" where
  "exec [] st = Some st"
| "exec (c # cs) (vs, mem) =
     (case call_sem vs mem c of None \<Rightarrow> None | Some (v, mem') \<Rightarrow> exec cs (vs @ [v], mem'))"

text \<open>Running a function on an argument array: the array afterwards and the value returned.\<close>

definition run_fn :: "call list \<times> handle option \<Rightarrow> u64 list \<Rightarrow> (u64 list \<times> u64) option" where
  "run_fn f mem =
     (case f of
        (cs, Some r) \<Rightarrow>
          (case exec cs ([], mem) of
             Some (vs, mem') \<Rightarrow>
               (case hval vs r of Some (VInt w a) \<Rightarrow> if w = 64 then Some (mem', of_nat a) else None | _ \<Rightarrow> None)
           | None \<Rightarrow> None)
      | _ \<Rightarrow> None)"

text \<open>
  The assumption on LLVM: where the manual defines the outcome, the compiled function has it.
\<close>

definition follows_langref :: "(call list \<times> handle option \<Rightarrow> u64 list \<Rightarrow> u64 list \<times> u64) \<Rightarrow> bool" where
  "follows_langref jit \<longleftrightarrow> (\<forall>f mem r. run_fn f mem = Some r \<longrightarrow> jit f mem = r)"

end
