(* ===== verification/Jit_Correct.thy ===== *)
theory Jit_Correct
  imports Jit_Codegen
begin

text \<open>
  Correctness of the code generator: the function built for a comparison stores the values of
  its two operands, extended to 64 bits, in the first two slots of the argument array, and
  touches nothing else.
\<close>

section \<open>Executing the calls emitted so far\<close>

definition runs :: "jstate \<Rightarrow> u64 list \<Rightarrow> rval list \<Rightarrow> u64 list \<Rightarrow> bool" where
  "runs s m0 vs m \<longleftrightarrow> exec (calls s) ([], m0) = Some (vs, m)"

lemma exec_append: "exec (xs @ ys) st = (case exec xs st of None \<Rightarrow> None | Some st' \<Rightarrow> exec ys st')"
  by (induction xs st rule: exec.induct) (simp_all split: option.split)

lemma exec_length: "exec cs (vs, m) = Some (vs', m') \<Longrightarrow> length vs' = length vs + length cs"
  by (induction cs "(vs, m)" arbitrary: vs m rule: exec.induct) (fastforce split: option.splits)+

lemma runs_length: "runs s m0 vs m \<Longrightarrow> length (calls s) = length vs"
  using exec_length unfolding runs_def by fastforce

lemma hval_append: "hval vs r = Some v \<Longrightarrow> hval (vs @ xs) r = Some v"
  by (cases r) (auto simp: nth_append split: if_splits)

text \<open>
  A generator that starts in \<open>s\<close>, where the calls so far have the values \<open>vs\<close> and the memory is
  \<open>m\<close>, ends with a handle to \<open>v\<close> and memory \<open>m'\<close>.
\<close>

definition yields ::
  "u64 list \<Rightarrow> rval list \<Rightarrow> jstate \<Rightarrow> handle \<times> jstate \<Rightarrow> rval \<Rightarrow> u64 list \<Rightarrow> bool" where
  "yields m0 vs s out v m' \<longleftrightarrow>
     (\<exists>xs. runs (snd out) m0 (vs @ xs) m' \<and> hval (vs @ xs) (fst out) = Some v
        \<and> value_cache (snd out) = value_cache s \<and> lmap (snd out) = lmap s)"

lemma yields_calls:
  assumes "runs s m0 vs m" "out = (r, s\<lparr>calls := calls s @ cs\<rparr>)"
    and "exec cs (vs, m) = Some (vs @ xs, m')" "hval (vs @ xs) r = Some v"
  shows "yields m0 vs s out v m'"
  using assms unfolding yields_def runs_def by (auto simp: exec_append intro!: exI [of _ xs])

lemma yields_emit:
  assumes "runs s m0 vs m" "call_sem vs m c = Some (v, m')"
  shows "yields m0 vs s (emit c s) v m'"
  by (rule yields_calls [OF assms(1), where cs = "[c]" and xs = "[v]" and r = "Reg (length vs)"])
    (simp_all add: emit_def runs_length [OF assms(1)] assms(2))

lemma yields_bind:
  assumes "yields m0 vs s out v m1"
    and "\<And>r s1 xs. out = (r, s1) \<Longrightarrow> runs s1 m0 (vs @ xs) m1 \<Longrightarrow> hval (vs @ xs) r = Some v \<Longrightarrow>
      yields m0 (vs @ xs) s1 (f r s1) v' m'"
  shows "yields m0 vs s (case out of (r, s1) \<Rightarrow> f r s1) v' m'"
proof -
  obtain xs where xs: "runs (snd out) m0 (vs @ xs) m1" "hval (vs @ xs) (fst out) = Some v"
    "value_cache (snd out) = value_cache s" "lmap (snd out) = lmap s"
    using assms(1) unfolding yields_def by blast
  from assms(2) [OF _ xs(1,2)] obtain ys where "runs (snd (f (fst out) (snd out))) m0 ((vs @ xs) @ ys) m'"
    "hval ((vs @ xs) @ ys) (fst (f (fst out) (snd out))) = Some v'"
    "value_cache (snd (f (fst out) (snd out))) = value_cache s"
    "lmap (snd (f (fst out) (snd out))) = lmap s"
    unfolding yields_def xs(3,4) by (metis prod.collapse)
  then show ?thesis unfolding yields_def by (auto simp: case_prod_beta)
qed

lemma yields_step:
  assumes "runs s m0 vs m" "call_sem vs m c = Some (v, m1)"
    and "\<And>s1. runs s1 m0 (vs @ [v]) m1 \<Longrightarrow> yields m0 (vs @ [v]) s1 (f (Reg (length vs)) s1) v' m'"
  shows "yields m0 vs s (case emit c s of (r, s1) \<Rightarrow> f r s1) v' m'"
proof -
  let ?s = "s\<lparr>calls := calls s @ [c]\<rparr>"
  have e: "emit c s = (Reg (length vs), ?s)" by (simp add: emit_def runs_length [OF assms(1)])
  have "runs ?s m0 (vs @ [v]) m1" using assms(1,2) by (simp add: runs_def exec_append)
  from assms(3) [OF this] obtain ys where
    "runs (snd (f (Reg (length vs)) ?s)) m0 ((vs @ [v]) @ ys) m'"
    "hval ((vs @ [v]) @ ys) (fst (f (Reg (length vs)) ?s)) = Some v'"
    "value_cache (snd (f (Reg (length vs)) ?s)) = value_cache s"
    "lmap (snd (f (Reg (length vs)) ?s)) = lmap s"
    unfolding yields_def by auto
  then show ?thesis unfolding yields_def e by auto
qed

section \<open>The generators\<close>

lemma call_sem_pure:
  assumes "pure_sem vs c = Some v"
  shows "call_sem vs m c = Some (v, m)"
  using assms by (cases c) (simp_all add: call_sem_def)

lemma gen_load_yields:
  assumes "runs s m0 vs m" "unat slot + 2 < length m" "unat slot + 2 < 2 ^ 31"
  shows "yields m0 vs s (gen_load slot s) (VInt 64 (unat (m ! (unat slot + 2)))) m"
proof -
  have "unat slot + 2 < 4294967296" using assms(2,3) by simp
  then have "unat (slot + RET_OFFSET) = unat slot + 2"
    by (simp add: RET_OFFSET_def unat_plus_simple [THEN iffD1] word_le_nat_alt unat_word_ariths)
  then show ?thesis
    using assms unfolding gen_load_def Let_def
    by - (rule yields_step, assumption, simp add: call_sem_def, rule yields_emit, assumption,
      simp add: call_sem_def)
qed

lemmas gen_sem = call_sem_def nth_append

lemma gen_div_yields:
  assumes "runs s m0 vs m" "hval vs c1 = Some (VInt w a)" "hval vs c2 = Some (VInt w b)" "w = unat w'" "0 < w"
    and "d = (if b = 0 then 1 else b)" "\<not> in_corner k w a d" "bv_op k w a d = Some c"
  shows "yields m0 vs s (gen_div k w' c1 c2 s) (VInt w c) m"
  using assms hval_append [OF assms(2)] hval_append [OF assms(3)] unfolding gen_div_def Let_def
  by - (rule yields_step, assumption, simp add: gen_sem, rule yields_step, assumption,
    simp add: gen_sem, rule yields_emit, assumption, simp add: gen_sem split: if_splits)

lemma or_low: "a < 2 ^ n \<Longrightarrow> b * 2 ^ n OR a = b * 2 ^ n + (a :: nat)"
proof -
  assume "a < 2 ^ n"
  then have "take_bit n a = a" by (simp add: take_bit_nat_eq_self)
  then have "push_bit n b AND a = 0"
    by (intro bit_eqI) (metis bit_0_eq bit_and_iff bit_push_bit_iff bit_take_bit_iff bot_apply bot_bool_def not_le)
  then show ?thesis
    by (simp add: disjunctive_add_eq_or push_bit_eq_mult)
qed

lemma gen_Concat_yields:
  assumes "runs s m0 vs m" "hval vs c1 = Some (VInt (unat w1) a)" "hval vs c2 = Some (VInt (unat w2) b)"
    and "a < 2 ^ unat w1" "b < 2 ^ unat w2" "0 < unat w2" "unat (w1 + w2) = unat w1 + unat w2"
  shows "yields m0 vs s (gen_Concat w1 w2 c1 c2 s) (VInt (unat w1 + unat w2) (b * 2 ^ unat w1 + a)) m"
proof -
  have "unat w1 < 2 ^ (unat w1 + unat w2)"
    by (meson le_add1 less_exp order_le_less_trans order_less_trans)
  moreover have "b * 2 ^ unat w1 < 2 ^ (unat w1 + unat w2)"
    using concat_bound [of 0 "unat w1" b "unat w2"] assms(5) by simp
  ultimately show ?thesis
    using assms hval_append [OF assms(2)] hval_append [OF assms(3)] unfolding gen_Concat_def Let_def
    by - (rule yields_step, assumption, simp add: gen_sem, rule yields_step, assumption, simp add: gen_sem,
      rule yields_step, assumption, simp add: gen_sem, rule yields_emit, assumption, simp add: gen_sem or_low)
qed

lemma gen_Extract_yields:
  assumes "runs s m0 vs m" "hval vs c = Some (VInt w1 a)" "0 < unat w" "unat ix + unat w \<le> w1"
  shows "yields m0 vs s (gen_Extract ix w c s) (VInt (unat w) ((a div 2 ^ unat ix) mod 2 ^ unat w)) m"
proof -
  have "unat ix < 2 ^ w1"
    using assms(3,4) less_exp [of w1] by linarith
  then show ?thesis
    using assms hval_append [OF assms(2)] unfolding gen_Extract_def Let_def
    by - (rule yields_step, assumption, simp add: gen_sem, rule yields_emit, assumption, simp add: gen_sem)
qed

lemma gen_Constant_yields:
  assumes "runs s m0 vs m" "unat ix + 2 < length m" "unat ix + 2 < 2 ^ 31" "0 < unat w" "unat w \<le> 64"
  shows "yields m0 vs s (gen_Constant ix w s) (VInt (unat w) (unat (m ! (unat ix + 2)) mod 2 ^ unat w)) m"
  unfolding gen_Constant_def Let_def
  by (rule yields_bind [OF gen_load_yields [OF assms(1-3)]], rule yields_emit, assumption)
    (use assms(4,5) in \<open>simp add: gen_sem\<close>)

text \<open>The cells of a read: slot \<open>start + k\<close> of the arguments shifted left by \<open>8 k\<close>.\<close>

definition cell :: "u64 list \<Rightarrow> u32 \<Rightarrow> nat \<Rightarrow> nat" where
  "cell m start k = unat (m ! (unat start + k + 2))"

lemma gen_bytes_yields:
  assumes "runs s m0 vs m" "hval vs r = Some (VInt 64 (acc mod 2 ^ 64))"
    and "unat start + k + n + 1 < length m" "unat start + k + n + 1 < 2 ^ 31" "k + n \<le> 8"
  shows "yields m0 vs s (gen_bytes start k n r s)
    (VInt 64 ((acc + (\<Sum>j = k..<k + n. cell m start j * 256 ^ j)) mod 2 ^ 64)) m"
  using assms
proof (induction n arbitrary: k r s vs acc)
  case 0
  then show ?case by (auto simp: yields_def intro!: exI [of _ "[]"])
next
  case (Suc n)
  let ?c = "cell m start k"
  let ?b = "(?c * 2 ^ (8 * k)) mod 2 ^ 64"
  have "unat start + k < 2 ^ 32" using Suc.prems(4) by simp
  then have u: "unat (start + of_nat k) = unat start + k"
    by (simp add: unat_word_ariths unat_of_nat)
  have slot: "unat (start + of_nat k) + 2 < length m" "unat (start + of_nat k) + 2 < 2 ^ 31"
    using Suc.prems(3,4) u by linarith+
  have c: "unat (m ! (unat (start + of_nat k) + 2)) = ?c" by (simp add: cell_def u)
  have sum: "(\<Sum>j = k..<k + Suc n. cell m start j * 256 ^ j) =
      ?c * 2 ^ (8 * k) + (\<Sum>j = Suc k..<Suc k + n. cell m start j * 256 ^ j)"
    by (simp add: sum.atLeast_Suc_lessThan power_mult)
  show ?case
    unfolding gen_bytes.simps Let_def
  proof (rule yields_bind [OF gen_load_yields [OF Suc.prems(1) slot]])
    fix tmp s1 xs
    assume s1: "runs s1 m0 (vs @ xs) m" and tmp: "hval (vs @ xs) tmp = Some (VInt 64 (unat (m ! (unat (start + of_nat k) + 2))))"
    have shl: "call_sem (vs @ xs) m (ShlC tmp (8 * k)) = Some (VInt 64 ?b, m)"
      using tmp [unfolded c] Suc.prems(5) by (simp add: call_sem_def)
    show "yields m0 (vs @ xs) s1
       (case emit (ShlC tmp (8 * k)) s1 of (tmp, s) \<Rightarrow>
          case emit (BinOp rgd_Add r tmp) s of (r, s) \<Rightarrow> gen_bytes start (Suc k) n r s)
       (VInt 64 ((acc + (\<Sum>j = k..<k + Suc n. cell m start j * 256 ^ j)) mod 2 ^ 64)) m"
    proof (rule yields_step [OF s1 shl])
      fix s2
      assume s2: "runs s2 m0 ((vs @ xs) @ [VInt 64 ?b]) m"
      have plus: "call_sem ((vs @ xs) @ [VInt 64 ?b]) m (BinOp rgd_Add r (Reg (length (vs @ xs)))) =
          Some (VInt 64 ((acc + ?c * 2 ^ (8 * k)) mod 2 ^ 64), m)"
        using hval_append [OF Suc.prems(2), of "xs @ [VInt 64 ?b]"]
        by (simp add: call_sem_def nth_append mod_simps)
      show "yields m0 ((vs @ xs) @ [VInt 64 ?b]) s2
         (case emit (BinOp rgd_Add r (Reg (length (vs @ xs)))) s2 of (r, s) \<Rightarrow> gen_bytes start (Suc k) n r s)
         (VInt 64 ((acc + (\<Sum>j = k..<k + Suc n. cell m start j * 256 ^ j)) mod 2 ^ 64)) m"
        unfolding sum add.assoc [symmetric]
      proof (rule yields_step [OF s2 plus], rule Suc.IH)
        show "unat start + Suc k + n + 1 < length m" "unat start + Suc k + n + 1 < 2 ^ 31" "Suc k + n \<le> 8"
          using Suc.prems(3-5) by simp_all
      qed (simp_all add: nth_append)
    qed
  qed
qed

lemma gen_Read_yields:
  assumes "runs s m0 vs m" "map_of (lmap s) ix = Some start"
    and "unat start + unat w div 8 + 1 < length m" "unat start + unat w div 8 + 1 < 2 ^ 31" "0 < unat w" "unat w \<le> 64" "8 dvd unat w"
  shows "yields m0 vs s (gen_Read ix w s)
    (VInt (unat w) ((\<Sum>j < unat w div 8. cell m start j * 256 ^ j) mod 2 ^ unat w)) m"
proof -
  let ?n = "unat w div 8"
  obtain n where n: "?n = Suc n" using assms(5,7) by (metis dvd_div_eq_0_iff gr0_conv_Suc less_numeral_extra(3) not_gr_zero)
  have len: "unat start + 2 < length m" "unat start + 1 + n + 1 < length m" "1 + n \<le> 8"
    "unat start + 2 < 2 ^ 31" "unat start + 1 + n + 1 < 2 ^ 31"
    using assms(3,4,6) n by auto
  have c: "hval vs r = Some (VInt 64 (unat (m ! (unat start + 2)))) \<Longrightarrow>
      hval vs r = Some (VInt 64 (cell m start 0 mod 2 ^ 64))" for vs r
    using unat_lt_u64 [of "m ! (unat start + 2)"] by (simp add: cell_def)
  have sum: "cell m start 0 + (\<Sum>j = 1..<1 + n. cell m start j * 256 ^ j) = (\<Sum>j < ?n. cell m start j * 256 ^ j)"
    unfolding n lessThan_atLeast0 by (simp add: sum.atLeast_Suc_lessThan)
  show ?thesis
    unfolding gen_Read_def Let_def lmap_index_def assms(2) n
  proof (simp only: option.case prod.case diff_Suc_1, rule yields_bind [OF gen_load_yields [OF assms(1) len(1,4)]])
    fix r s1 xs
    assume s1: "runs s1 m0 (vs @ xs) m" and r: "hval (vs @ xs) r = Some (VInt 64 (unat (m ! (unat start + 2))))"
    show "yields m0 (vs @ xs) s1 (case gen_bytes start 1 n r s1 of (r, s) \<Rightarrow> emit (Trunc r (unat w)) s)
       (VInt (unat w) ((\<Sum>j < Suc n. cell m start j * 256 ^ j) mod 2 ^ unat w)) m"
    proof (rule yields_bind [OF gen_bytes_yields [OF s1 c [OF r] len(2,5,3)]], rule yields_emit)
      fix r s2 ys
      assume "hval ((vs @ xs) @ ys) r = Some (VInt 64 ((cell m start 0 + (\<Sum>j = 1..<1 + n. cell m start j * 256 ^ j)) mod 2 ^ 64))"
      then show "call_sem ((vs @ xs) @ ys) m (Trunc r (unat w)) =
          Some (VInt (unat w) ((\<Sum>j < Suc n. cell m start j * 256 ^ j) mod 2 ^ unat w), m)"
        using assms(5,6) le_imp_power_dvd [OF assms(6), of "2 :: nat"] unfolding sum n
        by (simp add: call_sem_def mod_mod_cancel del: sum.lessThan_Suc)
    qed
  qed
qed

lemma gen_unary_yields:
  assumes "runs s m0 vs m" "hval vs c = Some (VInt w1 a)" "unary_kind k" "un_val k (unat w) (unat ix) w1 a = Some (w', a')"
  obtains out where "gen_unary k ix w c s = apfst Some out" "yields m0 vs s out (VInt w' a') m"
proof -
  from assms(3) consider "k = rgd_Extract" | "k = rgd_ZExt" | "k = rgd_SExt" | "k = rgd_Neg" | "k = rgd_Not"
    by (auto simp: unary_kind_def)
  then show thesis
  proof cases
    case 1
    with assms(4) have "0 < unat w" "unat ix + unat w \<le> w1" "w' = unat w" "a' = (a div 2 ^ unat ix) mod 2 ^ unat w"
      by (auto simp: un_val_def split: if_splits)
    with 1 gen_Extract_yields [OF assms(1,2)] that show thesis by (simp add: gen_unary_def)
  qed (rule that, simp add: gen_unary_def, rule yields_emit [OF assms(1)],
      use assms(2,4) in \<open>auto simp: un_val_def call_sem_def split: if_splits\<close>)+
qed

text \<open>What the generated code computes where the operators themselves are undefined.\<close>

definition jit_corner :: corner where
  "jit_corner k w a b =
     (if b \<noteq> 0 then None
      else if k = rgd_UDiv \<or> k = rgd_SDiv \<and> 1 < w then Some a
      else if k = rgd_URem \<or> k = rgd_SRem \<and> 1 < w then Some 0
      else None)"

lemma jit_corner_ok: "corner_ok jit_corner"
  by (auto simp: corner_ok_def jit_corner_def split: if_splits)

lemma sval_1: "1 < w \<Longrightarrow> sval w 1 = 1" "1 < w \<Longrightarrow> sval w (Suc 0) = 1"
  using power_increasing [of 2 w "2 :: nat"] by (simp_all add: sval_def)

lemma jit_corner_div:
  assumes "k \<in> {rgd_UDiv, rgd_SDiv, rgd_URem, rgd_SRem}" "0 < w" "a < 2 ^ w"
    and "(if in_corner k w a b then jit_corner k w a b else bv_op k w a b) = Some c"
  defines "d \<equiv> if b = 0 then 1 else b"
  shows "\<not> in_corner k w a d \<and> bv_op k w a d = Some c"
proof (cases "b = 0")
  case True
  with assms(1,4) have c: "jit_corner k w a 0 = Some c" by auto
  then have w: "k \<in> {rgd_SDiv, rgd_SRem} \<Longrightarrow> 1 < w" by (auto simp: jit_corner_def split: if_splits)
  have "bv_op k w a 1 = Some c" using assms(1) c
  proof (elim insertE)
    assume "k = rgd_SDiv"
    with c w of_sval_sval [OF assms(3)] show ?thesis by (simp add: jit_corner_def sval_1)
  next
    assume "k = rgd_SRem" with c w show ?thesis by (simp add: jit_corner_def sval_1 of_sval_def smod_int_alt_def)
  qed (simp_all add: jit_corner_def)
  moreover have "\<not> in_corner k w a 1" using assms(1) w by (auto simp: overflows_def sval_1)
  ultimately show ?thesis using True by (simp add: d_def)
next
  case False
  with assms(4) have "\<not> in_corner k w a b" by (auto simp: jit_corner_def split: if_splits)
  with False assms(4) show ?thesis by (simp add: d_def)
qed

lemma gen_binary_yields:
  assumes "runs s m0 vs m" "hval vs c1 = Some (VInt (unat w1) a)" "hval vs c2 = Some (VInt (unat w2) b)"
    and "a < 2 ^ unat w1" "0 < unat w1" "b < 2 ^ unat w2" "0 < unat w2" "kind_num k \<le> 21"
    and val: "bin_val jit_corner k (unat w) (unat w1) a (unat w2) b = Some (w', c)"
  obtains out where "gen_binary k w w1 w2 c1 c2 s = apfst Some out" "yields m0 vs s out (VInt w' c) m"
proof (cases "k = rgd_Concat")
  case True
  with val have "unat w = unat w1 + unat w2" "w' = unat w1 + unat w2" "c = b * 2 ^ unat w1 + a"
    by (simp_all add: bin_val_def split: if_splits)
  moreover from this have "unat (w1 + w2) = unat w1 + unat w2"
    using unat_lt_u32 [of w] by (simp add: unat_word_ariths)
  ultimately show thesis
    using gen_Concat_yields [OF assms(1-4,6,7)] True that by (simp add: gen_binary_def)
next
  case False
  have k: "k \<notin> {rgd_Concat, rgd_LOr, rgd_LAnd}" "\<not> relational k"
    using False assms(8) by (auto simp: relational_def)
  have w: "unat w2 = unat w1" "unat w = unat w1" "w' = unat w1"
    and v: "(if in_corner k (unat w) a b then jit_corner k (unat w) a b else bv_op k (unat w) a b) = Some c"
    using bin_val_bv [OF k(1) val] k(2) by metis+
  show thesis
  proof (cases "k \<in> {rgd_UDiv, rgd_SDiv, rgd_URem, rgd_SRem}")
    case True
    note d = jit_corner_div [OF True, of "unat w" a b c]
    have "yields m0 vs s (gen_div k w c1 c2 s) (VInt (unat w) c) m"
      by (rule gen_div_yields [OF assms(1), of c1 "unat w" a c2 b])
        (use assms(2-5) w v d in auto)
    with True False that w show thesis by (simp add: gen_binary_def)
  next
    case nodiv: False
    then have "jit_corner k (unat w) a b = None" by (simp add: jit_corner_def)
    with v have *: "\<not> in_corner k (unat w) a b" "bv_op k (unat w) a b = Some c" by (auto split: if_splits)
    then have "k \<in> {rgd_Add, rgd_Sub, rgd_Mul, rgd_And, rgd_Or, rgd_Xor, rgd_Shl, rgd_LShr, rgd_AShr}"
      using nodiv by (cases k) simp_all
    moreover have "yields m0 vs s (emit (BinOp k c1 c2) s) (VInt w' c) m"
      by (rule yields_emit [OF assms(1)]) (use * assms(2,3) w in \<open>simp add: call_sem_def\<close>)
    ultimately show thesis using False nodiv that by (simp add: gen_binary_def)
  qed
qed

section \<open>Trees\<close>

text \<open>
  The nodes that \<open>codegen\<close> translates, in order: a node whose label has been translated before
  is not visited again.
\<close>

fun visit :: "u32 list \<Rightarrow> AstNode \<Rightarrow> AstNode list \<times> u32 list"
  and visits :: "u32 list \<Rightarrow> AstNode list \<Rightarrow> AstNode list \<times> u32 list" where
  "visit seen (AstNode k bo w v ix h cs l) =
     (if l \<noteq> 0 \<and> l \<in> set seen then ([], seen)
      else let (ns, seen') = visits seen cs
           in (ns @ [AstNode k bo w v ix h cs l], if l \<noteq> 0 then l # seen' else seen'))"
| "visits seen [] = ([], seen)"
| "visits seen (c # cs) =
     (let (ns, seen1) = visit seen c; (ms, seen2) = visits seen1 cs in (ns @ ms, seen2))"

text \<open>
  What the metadata of a constraint must provide: the value of a constant in its slot, and a
  run of slots for the bytes of a read.
\<close>

definition slot_ok :: "u64 list \<Rightarrow> (u32 \<times> u32) list \<Rightarrow> AstNode \<Rightarrow> bool" where
  "slot_ok m lm n \<longleftrightarrow>
     (akind n = rgd_Constant \<longrightarrow> unat (index n) + 2 < length m \<and> unat (index n) + 2 < 2 ^ 31
        \<and> dec_val (avalue n) = Some (unat (m ! (unat (index n) + 2)))) \<and>
     (akind n = rgd_Read \<longrightarrow> (case map_of lm (index n) of None \<Rightarrow> False
        | Some start \<Rightarrow> unat start + width n div 8 + 1 < length m \<and> unat start + width n div 8 + 1 < 2 ^ 31))"

text \<open>Nodes below the comparison: no comparison or logical operator, leaves of at most 64 bits.\<close>

definition jit_node :: "AstNode \<Rightarrow> bool" where
  "jit_node n \<longleftrightarrow> kind_num (akind n) \<le> 21 \<and> (children n = [] \<longrightarrow> width n \<le> 64)
     \<and> (akind n = rgd_Bool \<longrightarrow> bits n = 1)"

text \<open>The values read through the local map.\<close>

definition cells :: "u64 list \<Rightarrow> (u32 \<times> u32) list \<Rightarrow> reads" where
  "cells m lm ix n = (case map_of lm ix of None \<Rightarrow> 0 | Some start \<Rightarrow> \<Sum>j < n. cell m start j * 256 ^ j)"

text \<open>A label stands for one value.\<close>

definition labels_agree :: "reads \<Rightarrow> AstNode list \<Rightarrow> bool" where
  "labels_agree rd R \<longleftrightarrow> (\<forall>n \<in> set R. \<forall>n' \<in> set R. label n = label n' \<longrightarrow> label n \<noteq> 0 \<longrightarrow>
     ast_val jit_corner rd n = ast_val jit_corner rd n')"

definition cache_ok :: "reads \<Rightarrow> AstNode list \<Rightarrow> jstate \<Rightarrow> rval list \<Rightarrow> u32 list \<Rightarrow> bool" where
  "cache_ok rd R s vs seen \<longleftrightarrow> dom (value_cache s) = set seen \<and>
     (\<forall>l r. value_cache s l = Some r \<longrightarrow> l \<noteq> 0 \<and> (\<forall>n \<in> set R. label n = l \<longrightarrow>
        (\<exists>w a. ast_val jit_corner rd n = Some (w, a) \<and> hval vs r = Some (VInt w a))))"

definition generates ::
  "u64 list \<Rightarrow> AstNode list \<Rightarrow> rval list \<Rightarrow> jstate \<Rightarrow> handle option \<times> jstate \<Rightarrow> u32 list \<Rightarrow> nat \<Rightarrow> nat \<Rightarrow> bool" where
  "generates m R vs s out seen w a \<longleftrightarrow>
     (\<exists>r s' xs. out = (Some r, s') \<and> runs s' m (vs @ xs) m \<and> hval (vs @ xs) r = Some (VInt w a)
        \<and> lmap s' = lmap s \<and> cache_ok (cells m (lmap s)) R s' (vs @ xs) seen)"

lemma cache_ok_append: "cache_ok rd R s vs seen \<Longrightarrow> cache_ok rd R s (vs @ xs) seen"
  unfolding cache_ok_def by (intro conjI; fastforce dest: hval_append)

lemma yields_generates:
  assumes "yields m vs s out (VInt w a) m" "cache_ok (cells m (lmap s)) R s vs seen"
  shows "generates m R vs s (apfst Some out) seen w a"
proof -
  from assms(1) obtain xs where xs: "runs (snd out) m (vs @ xs) m" "hval (vs @ xs) (fst out) = Some (VInt w a)"
    "value_cache (snd out) = value_cache s" "lmap (snd out) = lmap s"
    unfolding yields_def by blast
  moreover have "cache_ok (cells m (lmap s)) R (snd out) (vs @ xs) seen"
    using cache_ok_append [OF assms(2), of xs] xs(3) by (simp add: cache_ok_def)
  ultimately show ?thesis unfolding generates_def by (cases out) auto
qed

lemma generates_trans:
  assumes "generates m R (vs @ xs) s1 out seen w a" "lmap s1 = lmap s"
  shows "generates m R vs s out seen w a"
proof -
  from assms(1) obtain r s' ys where "out = (Some r, s')" "runs s' m ((vs @ xs) @ ys) m"
    "hval ((vs @ xs) @ ys) r = Some (VInt w a)" "lmap s' = lmap s1"
    "cache_ok (cells m (lmap s1)) R s' ((vs @ xs) @ ys) seen"
    unfolding generates_def by blast
  then show ?thesis
    unfolding generates_def assms(2) [symmetric]
    by (intro exI [of _ r] exI [of _ s'] exI [of _ "xs @ ys"]) simp
qed

lemma cache_ret_generates:
  assumes "generates m R vs s out seen w a" "n \<in> set R" "label n = l" "labels_agree (cells m (lmap s)) R"
    and "ast_val jit_corner (cells m (lmap s)) n = Some (w, a)"
  shows "generates m R vs s (cache_ret l out) (if l \<noteq> 0 then l # seen else seen) w a"
proof -
  let ?rd = "cells m (lmap s)"
  from assms(1) obtain r s' xs where o: "out = (Some r, s')" "runs s' m (vs @ xs) m"
    "hval (vs @ xs) r = Some (VInt w a)" "lmap s' = lmap s" and c: "cache_ok ?rd R s' (vs @ xs) seen"
    unfolding generates_def by blast
  show ?thesis
  proof (cases "l \<noteq> 0 \<and> value_cache s' l = None")
    case True
    let ?s = "s'\<lparr>value_cache := (value_cache s')(l \<mapsto> r)\<rparr>"
    have "\<exists>w a. ast_val jit_corner ?rd n' = Some (w, a) \<and> hval (vs @ xs) r = Some (VInt w a)"
      if "n' \<in> set R" "label n' = l" for n'
      using assms(2-5) that True o(3) unfolding labels_agree_def by metis
    then have "cache_ok ?rd R ?s (vs @ xs) (l # seen)" using c True unfolding cache_ok_def by auto
    with True o show ?thesis by (auto simp: generates_def runs_def)
  next
    case False
    have "l \<in> set seen" if "l \<noteq> 0" using False that c by (auto simp: cache_ok_def)
    then have "cache_ok ?rd R s' (vs @ xs) (if l \<noteq> 0 then l # seen else seen)"
      using c by (auto simp: cache_ok_def)
    with False o show ?thesis by (auto simp: generates_def)
  qed
qed

text \<open>A node that is translated before is a lookup; otherwise its children come first.\<close>

lemma codegen_cached:
  assumes "runs s m vs m" "cache_ok (cells m (lmap s)) R s vs seen" "n \<in> set R" "label n \<noteq> 0" "label n \<in> set seen"
    and "ast_val jit_corner (cells m (lmap s)) n = Some (w, a)"
  shows "generates m R vs s (codegen n s) seen w a"
proof -
  from assms(2,5) obtain r where r: "value_cache s (label n) = Some r" unfolding cache_ok_def by blast
  with assms(2,3,6) have "hval vs r = Some (VInt w a)" unfolding cache_ok_def by fastforce
  with r assms show ?thesis by (cases n) (auto simp: generates_def intro!: exI [of _ "[]"])
qed

lemma codegen_fresh:
  assumes "cache_ok rd R s vs seen" "\<not> (l \<noteq> 0 \<and> l \<in> set seen)"
  shows "(if l \<noteq> 0 then value_cache s l else None) = None"
  using assms by (auto simp: cache_ok_def)

lemma jit_width:
  assumes "ast_val co rd n = Some (w, a)" "jit_node n"
  shows "w = width n"
  using assms
proof (cases rule: ast_val_cases)
  case (leaf k bo w v ix h l)
  then show ?thesis using assms(2) by (cases k) (auto simp: leaf_val_def jit_node_def split: if_splits)
next
  case (un k bo w v ix h c l w1 a)
  then show ?thesis using assms(2) by (cases k) (auto simp: un_val_def jit_node_def split: if_splits)
next
  case (bin k bo w' v ix h c1 c2 l w1 a w2 b)
  then have "kind_num k \<le> 21" using assms(2) by (simp add: jit_node_def)
  then have k: "\<not> relational k" "k \<noteq> rgd_LOr" "k \<noteq> rgd_LAnd" by (auto simp: relational_def)
  show ?thesis
  proof (cases "k = rgd_Concat")
    case True
    with bin show ?thesis by (simp add: bin_val_def split: if_splits)
  next
    case False
    with bin bin_val_bv [of k co "unat w'" w1 a w2 b w] k show ?thesis by simp
  qed
qed

lemma leaf_generates:
  assumes "runs s m vs m" "cache_ok (cells m (lmap s)) R s vs seen"
    and "jit_node n" "slot_ok m (lmap s) n" "n = AstNode k bo w v ix h [] l"
    and "leaf_val (cells m (lmap s)) k bo (unat w) v ix = Some (w', a)"
  shows "generates m R vs s
    (if k = rgd_Bool then (Some (CInt 1 (of_bool bo)), s)
     else if k = rgd_Constant then apfst Some (gen_Constant ix w s)
     else apfst Some (gen_Read ix w s)) seen w' a \<and> k \<in> {rgd_Bool, rgd_Constant, rgd_Read}"
proof -
  have w: "unat w \<le> 64" using assms(3,5) by (simp add: jit_node_def)
  from assms(6) consider "k = rgd_Bool" | "k = rgd_Constant" | "k = rgd_Read"
    by (cases k) (simp_all add: leaf_val_def)
  then show ?thesis
  proof cases
    case 1
    with assms(6) have "w' = 1" "a = of_bool bo" by (simp_all add: leaf_val_def)
    with 1 assms(1,2) show ?thesis by (auto simp: generates_def of_bool_def intro!: exI [of _ "[]"])
  next
    case 2
    with assms(4,5) have ix: "unat ix + 2 < length m" "unat ix + 2 < 2 ^ 31" "dec_val v = Some (unat (m ! (unat ix + 2)))"
      by (simp_all add: slot_ok_def)
    with 2 assms(6) have "0 < unat w" "w' = unat w" "a = unat (m ! (unat ix + 2)) mod 2 ^ unat w"
      by (auto simp: leaf_val_def split: if_splits)
    with 2 yields_generates [OF gen_Constant_yields [OF assms(1) ix(1,2) _ w] assms(2)]
    show ?thesis by simp
  next
    case 3
    with assms(4,5) obtain start where st: "map_of (lmap s) ix = Some start" "unat start + unat w div 8 + 1 < length m"
        "unat start + unat w div 8 + 1 < 2 ^ 31"
      by (auto simp: slot_ok_def split: option.splits)
    with 3 assms(6) have "0 < unat w" "8 dvd unat w" "w' = unat w"
      "a = (\<Sum>j < unat w div 8. cell m start j * 256 ^ j) mod 2 ^ unat w"
      by (auto simp: leaf_val_def cells_def split: if_splits)
    with 3 yields_generates [OF gen_Read_yields [OF assms(1) st _ w] assms(2)]
    show ?thesis by simp
  qed
qed

text \<open>The hypotheses on a tree that is translated in state \<open>s\<close>.\<close>

definition ready :: "u64 list \<Rightarrow> AstNode list \<Rightarrow> jstate \<Rightarrow> rval list \<Rightarrow> u32 list \<Rightarrow> AstNode \<Rightarrow> bool" where
  "ready m R s vs seen n \<longleftrightarrow> runs s m vs m \<and> cache_ok (cells m (lmap s)) R s vs seen
     \<and> set (nodes n) \<subseteq> set R \<and> (\<forall>x \<in> set (nodes n). jit_node x)
     \<and> (\<forall>x \<in> set (fst (visit seen n)). slot_ok m (lmap s) x)"

lemma node_generates:
  assumes "ready m R s vs seen n" "n = AstNode k bo w v ix h cs l" "labels_agree (cells m (lmap s)) R"
    and "ast_val jit_corner (cells m (lmap s)) n = Some (w', a)"
    and "\<not> (l \<noteq> 0 \<and> l \<in> set seen) \<Longrightarrow> \<exists>out. codegen n s = cache_ret l out \<and>
          generates m R vs s out (snd (visits seen cs)) w' a"
  shows "generates m R vs s (codegen n s) (snd (visit seen n)) w' a"
proof (cases "l \<noteq> 0 \<and> l \<in> set seen")
  case True
  have "n \<in> set R" using assms(1,2) by (auto simp: ready_def)
  with codegen_cached [OF _ _ this _ _ assms(4)] True assms(1,2) show ?thesis by (simp add: ready_def)
next
  case False
  from assms(5) [OF False] obtain out where o: "codegen n s = cache_ret l out"
    "generates m R vs s out (snd (visits seen cs)) w' a" by blast
  have R: "n \<in> set R" "label n = l" using assms(1,2) by (auto simp: ready_def)
  have "snd (visit seen n) = (if l \<noteq> 0 then l # snd (visits seen cs) else snd (visits seen cs))"
    using False assms(2) by (auto simp: case_prod_beta Let_def)
  with cache_ret_generates [OF o(2) R assms(3,4)] o(1) show ?thesis by simp
qed

lemma codegen_leaf:
  assumes "ready m R s vs seen n" "n = AstNode k bo w v ix h [] l" "labels_agree (cells m (lmap s)) R"
    and "leaf_val (cells m (lmap s)) k bo (unat w) v ix = Some (w', a)"
  shows "generates m R vs s (codegen n s) (snd (visit seen n)) w' a"
proof (rule node_generates [OF assms(1-3)])
  assume fresh: "\<not> (l \<noteq> 0 \<and> l \<in> set seen)"
  have r: "runs s m vs m" "cache_ok (cells m (lmap s)) R s vs seen" "jit_node n" "slot_ok m (lmap s) n"
    using assms(1,2) fresh by (auto simp: ready_def)
  let ?out = "if k = rgd_Bool then (Some (CInt 1 (of_bool bo)), s)
     else if k = rgd_Constant then apfst Some (gen_Constant ix w s) else apfst Some (gen_Read ix w s)"
  have "generates m R vs s ?out seen w' a" "k \<in> {rgd_Bool, rgd_Constant, rgd_Read}"
    using leaf_generates [OF r assms(2,4)] by blast+
  moreover from this(2) have "codegen n s = cache_ret l ?out"
    unfolding assms(2) codegen.simps codegen_fresh [OF r(2) fresh] option.case by auto
  ultimately show "\<exists>out. codegen n s = cache_ret l out \<and> generates m R vs s out (snd (visits seen [])) w' a"
    by (metis snd_conv visits.simps(1))
qed (simp add: assms(2,4))

lemma codegen_unary:
  assumes "ready m R s vs seen n" "n = AstNode k bo w v ix h [c] l" "labels_agree (cells m (lmap s)) R"
    and "ast_val jit_corner (cells m (lmap s)) c = Some (w1, a)" "un_val k (unat w) (unat ix) w1 a = Some (w', b)"
    and "ready m R s vs seen c \<Longrightarrow> generates m R vs s (codegen c s) (snd (visit seen c)) w1 a"
  shows "generates m R vs s (codegen n s) (snd (visit seen n)) w' b"
proof (rule node_generates [OF assms(1-3)])
  assume fresh: "\<not> (l \<noteq> 0 \<and> l \<in> set seen)"
  have cache: "cache_ok (cells m (lmap s)) R s vs seen" and "kind_num k \<le> 21"
    using assms(1,2) by (simp_all add: ready_def jit_node_def)
  then have k: "unary_kind k" "k \<noteq> rgd_Bool" "k \<noteq> rgd_Constant" "k \<noteq> rgd_Read"
    using assms(5) by (cases k; simp add: un_val_def unary_kind_def)+
  have "ready m R s vs seen c"
    using assms(1,2) fresh unfolding ready_def by (auto simp: case_prod_beta Let_def)
  from assms(6) [OF this] obtain r1 s1 xs where
    g: "codegen c s = (Some r1, s1)" "runs s1 m (vs @ xs) m" "hval (vs @ xs) r1 = Some (VInt w1 a)" "lmap s1 = lmap s"
      "cache_ok (cells m (lmap s1)) R s1 (vs @ xs) (snd (visit seen c))" unfolding generates_def by auto
  obtain out where o: "gen_unary k ix w r1 s1 = apfst Some out" "yields m (vs @ xs) s1 out (VInt w' b) m"
    using gen_unary_yields [OF g(2,3) k(1) assms(5)] by blast
  have "generates m R vs s (gen_unary k ix w r1 s1) (snd (visits seen [c])) w' b"
    unfolding o(1) using generates_trans [OF yields_generates [OF o(2) g(5)] g(4)] by (simp add: case_prod_beta Let_def)
  moreover have "codegen n s = cache_ret l (gen_unary k ix w r1 s1)"
    unfolding assms(2) codegen.simps codegen_fresh [OF cache fresh] option.case using k g(1) by simp
  ultimately show "\<exists>out. codegen n s = cache_ret l out \<and> generates m R vs s out (snd (visits seen [c])) w' b"
    by blast
qed (simp add: assms(2,4,5))

text \<open>Both children of a node, one after the other.\<close>

lemma codegen_children:
  assumes "ready m R s vs seen n" "n = AstNode k bo w v ix h [c1, c2] l" "\<not> (l \<noteq> 0 \<and> l \<in> set seen)"
    and "ready m R s vs seen c1 \<Longrightarrow> generates m R vs s (codegen c1 s) (snd (visit seen c1)) w1 a"
    and "\<And>s1 xs. ready m R s1 (vs @ xs) (snd (visit seen c1)) c2 \<Longrightarrow> lmap s1 = lmap s \<Longrightarrow>
      generates m R (vs @ xs) s1 (codegen c2 s1) (snd (visit (snd (visit seen c1)) c2)) w2 b"
  obtains h1 s1 h2 s2 ys where "codegen c1 s = (Some h1, s1)" "codegen c2 s1 = (Some h2, s2)"
    "runs s2 m (vs @ ys) m" "hval (vs @ ys) h1 = Some (VInt w1 a)" "hval (vs @ ys) h2 = Some (VInt w2 b)"
    "lmap s2 = lmap s" "cache_ok (cells m (lmap s2)) R s2 (vs @ ys) (snd (visits seen [c1, c2]))"
proof -
  let ?seen1 = "snd (visit seen c1)"
  have "ready m R s vs seen c1"
    using assms(1-3) unfolding ready_def by (auto simp: case_prod_beta Let_def)
  from assms(4) [OF this] obtain h1 s1 xs where
    g: "codegen c1 s = (Some h1, s1)" "runs s1 m (vs @ xs) m" "hval (vs @ xs) h1 = Some (VInt w1 a)" "lmap s1 = lmap s"
      "cache_ok (cells m (lmap s1)) R s1 (vs @ xs) ?seen1" unfolding generates_def by auto
  have "ready m R s1 (vs @ xs) ?seen1 c2"
    using assms(1-3) g unfolding ready_def by (auto simp: case_prod_beta Let_def)
  from assms(5) [OF this g(4)] obtain h2 s2 ys where
    g': "codegen c2 s1 = (Some h2, s2)" "runs s2 m ((vs @ xs) @ ys) m" "hval ((vs @ xs) @ ys) h2 = Some (VInt w2 b)"
      "lmap s2 = lmap s1" "cache_ok (cells m (lmap s2)) R s2 ((vs @ xs) @ ys) (snd (visit ?seen1 c2))"
    unfolding generates_def by auto
  show thesis
    by (rule that [OF g(1) g'(1), of "xs @ ys"])
      (use g g' hval_append [OF g(3), of ys] in \<open>auto simp: case_prod_beta Let_def\<close>)
qed

lemma codegen_binary:
  assumes "ready m R s vs seen n" "n = AstNode k bo w v ix h [c1, c2] l" "labels_agree (cells m (lmap s)) R"
    and "ast_val jit_corner (cells m (lmap s)) c1 = Some (w1, a)" "ast_val jit_corner (cells m (lmap s)) c2 = Some (w2, b)"
    and "bin_val jit_corner k (unat w) w1 a w2 b = Some (w', c)"
    and "ready m R s vs seen c1 \<Longrightarrow> generates m R vs s (codegen c1 s) (snd (visit seen c1)) w1 a"
    and "\<And>s1 xs. ready m R s1 (vs @ xs) (snd (visit seen c1)) c2 \<Longrightarrow> lmap s1 = lmap s \<Longrightarrow>
      generates m R (vs @ xs) s1 (codegen c2 s1) (snd (visit (snd (visit seen c1)) c2)) w2 b"
  shows "generates m R vs s (codegen n s) (snd (visit seen n)) w' c"
proof (rule node_generates [OF assms(1-3)])
  assume fresh: "\<not> (l \<noteq> 0 \<and> l \<in> set seen)"
  have cache: "cache_ok (cells m (lmap s)) R s vs seen" using assms(1) by (simp add: ready_def)
  have j: "jit_node n" "jit_node c1" "jit_node c2" using assms(1,2) by (cases c1; cases c2; auto simp: ready_def)+
  then have k: "kind_num k \<le> 21" using assms(2) by (simp add: jit_node_def)
  then have k': "\<not> unary_kind k" "binary_kind k" "k \<noteq> rgd_Bool" "k \<noteq> rgd_Constant" "k \<noteq> rgd_Read"
    using assms(6) by (cases k; simp add: bin_val_def unary_kind_def binary_kind_def relational_def split: if_splits)+
  have w: "w1 = unat (bits c1)" "w2 = unat (bits c2)" using jit_width assms(4,5) j(2,3) by blast+
  have bnd: "a < 2 ^ w1" "0 < w1" "b < 2 ^ w2" "0 < w2"
    using ast_val_bound [OF jit_corner_ok] assms(4,5) by blast+
  obtain h1 s1 h2 s2 ys where g: "codegen c1 s = (Some h1, s1)" "codegen c2 s1 = (Some h2, s2)"
    "runs s2 m (vs @ ys) m" "hval (vs @ ys) h1 = Some (VInt w1 a)" "hval (vs @ ys) h2 = Some (VInt w2 b)"
    "lmap s2 = lmap s" "cache_ok (cells m (lmap s2)) R s2 (vs @ ys) (snd (visits seen [c1, c2]))"
    using codegen_children [OF assms(1,2) fresh assms(7,8)] by blast
  obtain out where o: "gen_binary k w (bits c1) (bits c2) h1 h2 s2 = apfst Some out"
    "yields m (vs @ ys) s2 out (VInt w' c) m"
    using gen_binary_yields [OF g(3) g(4,5) [unfolded w] bnd [unfolded w] k assms(6) [unfolded w]] by blast
  have "generates m R vs s (gen_binary k w (bits c1) (bits c2) h1 h2 s2) (snd (visits seen [c1, c2])) w' c"
    unfolding o(1) by (rule generates_trans [OF yields_generates [OF o(2) g(7)] g(6)])
  moreover have "codegen n s = cache_ret l (gen_binary k w (bits c1) (bits c2) h1 h2 s2)"
    unfolding assms(2) codegen.simps codegen_fresh [OF cache fresh] option.case using k' g(1,2) by simp
  ultimately show "\<exists>out. codegen n s = cache_ret l out \<and> generates m R vs s out (snd (visits seen [c1, c2])) w' c"
    by blast
qed (simp add: assms(2,4-6))

lemma codegen_generates:
  assumes "ast_val jit_corner rd n = Some r" "rd = cells m (lmap s)" "labels_agree rd R"
    and "ready m R s vs seen n"
  shows "generates m R vs s (codegen n s) (snd (visit seen n)) (fst r) (snd r)"
  using assms
proof (induction arbitrary: s vs seen rule: ast_val_induct)
  case (leaf k bo w v ix h l r)
  then show ?case using codegen_leaf [OF leaf.prems(3) refl, of "fst r" "snd r"] by simp
next
  case (un k bo w v ix h c l w1 a r)
  then show ?case using codegen_unary [OF un.prems(3) refl, of w1 a "fst r" "snd r"] by simp
next
  case (bin k bo w v ix h c1 c2 l w1 a w2 b r)
  then show ?case using codegen_binary [OF bin.prems(3) refl, of w1 a w2 b "fst r" "snd r"] by simp
qed

end
