(* ===== verification/Jit_Props.thy ===== *)
theory Jit_Props
  imports Jit_Correct
begin

text \<open>
  The compiled comparison as a whole: what it stores, what it returns, and how its two operands
  relate to the comparison at the width of the constraint.
\<close>

section \<open>The operands and the distance\<close>

definition signed_kind :: "kind \<Rightarrow> bool" where
  "signed_kind k \<longleftrightarrow> k \<in> {rgd_Slt, rgd_Sle, rgd_Sgt, rgd_Sge}"

definition ext64 :: "kind \<Rightarrow> nat \<Rightarrow> nat \<Rightarrow> u64" where
  "ext64 k w a = (if signed_kind k then word_of_int (sval w a) else of_nat a)"

text \<open>The value returned: the distance, with wrap-around.\<close>

fun jit_dist :: "kind \<Rightarrow> u64 \<Rightarrow> u64 \<Rightarrow> u64" where
  "jit_dist rgd_Equal a b = (if b \<le> a then a - b else b - a)"
| "jit_dist rgd_Distinct a b = (if a = b then 1 else 0)"
| "jit_dist rgd_Ult a b = (if a < b then 0 else a - b + 1)"
| "jit_dist rgd_Ule a b = (if a \<le> b then 0 else a - b)"
| "jit_dist rgd_Ugt a b = (if b < a then 0 else b - a + 1)"
| "jit_dist rgd_Uge a b = (if b \<le> a then 0 else b - a)"
| "jit_dist rgd_Slt a b = (if sint a < sint b then 0 else a - b + 1)"
| "jit_dist rgd_Sle a b = (if sint a \<le> sint b then 0 else a - b)"
| "jit_dist rgd_Sgt a b = (if sint b < sint a then 0 else b - a + 1)"
| "jit_dist rgd_Sge a b = (if sint b \<le> sint a then 0 else b - a)"
| "jit_dist _ a b = 0"

lemma sval_unat: "sval 64 (unat x) = sint (x :: u64)"
proof -
  let ?u = "int (unat x)"
  have s: "sint x = (?u + 9223372036854775808) mod 18446744073709551616 - 9223372036854775808"
    by (simp add: sint_uint signed_take_bit_eq_take_bit_shift take_bit_eq_mod)
  have lt: "?u < 18446744073709551616" using unat_lt_u64 [of x] by linarith
  show ?thesis
  proof (cases "?u < 9223372036854775808")
    case True
    then have "(?u + 9223372036854775808) mod 18446744073709551616 = ?u + 9223372036854775808"
      by (intro mod_pos_pos_trivial) linarith+
    moreover have "unat x < 9223372036854775808" using True by linarith
    ultimately show ?thesis using s by (simp add: sval_def)
  next
    case False
    have "(?u + 9223372036854775808) mod 18446744073709551616 =
        (?u - 9223372036854775808 + 18446744073709551616) mod 18446744073709551616" by (simp add: algebra_simps)
    also have "\<dots> = ?u - 9223372036854775808"
      unfolding mod_add_self2 using False lt by (intro mod_pos_pos_trivial) linarith+
    moreover have "\<not> unat x < 9223372036854775808" using False by linarith
    ultimately show ?thesis using s by (simp add: sval_def add.commute)
  qed
qed

lemma bv_sub_word: "of_sval 64 (uint x - uint y) = unat (x - y :: u64)"
  by (simp add: of_sval_def uint_word_ariths flip: nat_uint_eq)

lemma bv_suc_word: "Suc (unat x) mod 18446744073709551616 = unat (x + 1 :: u64)"
  by (simp add: unat_word_ariths)

lemma unat_rel: "(unat x < unat y) = (x < y)" "(unat x \<le> unat y) = (x \<le> y)" "(unat x = unat y) = (x = (y :: u64))"
  by (simp_all add: word_less_nat_alt word_le_nat_alt word_unat_eq_iff)

lemmas cmp_defs = gen_Equal_def gen_Distinct_def gen_Ult_def gen_Ule_def gen_Ugt_def gen_Uge_def
  gen_Slt_def gen_Sle_def gen_Sgt_def gen_Sge_def gen_ext_def gen_store_def emit_def Let_def gen_cmp_def

lemma ext64_operand:
  assumes "a < 2 ^ w" "w \<le> 64"
  shows "signed_kind k \<Longrightarrow> of_sval 64 (sval w a) = unat (ext64 k w a)"
    "\<not> signed_kind k \<Longrightarrow> a = unat (ext64 k w a)"
proof -
  have "of_sval 64 (sval w a) = unat (word_of_int (sval w a) :: u64)"
    by (simp add: of_sval_def unsigned_of_int take_bit_eq_mod)
  then show "signed_kind k \<Longrightarrow> of_sval 64 (sval w a) = unat (ext64 k w a)" by (simp add: ext64_def)
  have "a < 2 ^ 64" using assms dvd_pow_bound by blast
  then show "\<not> signed_kind k \<Longrightarrow> a = unat (ext64 k w a)" by (simp add: ext64_def unat_of_nat)
qed

lemmas cmp_sem = call_sem_def nth_append bv_sub_word bv_suc_word unat_rel sval_unat

lemma gen_cmp_yields:
  assumes "runs s m0 vs m" "hval vs c1 = Some (VInt w1 a)" "hval vs c2 = Some (VInt w2 b)" "w1 \<le> 64" "w2 \<le> 64"
    and "a < 2 ^ w1" "b < 2 ^ w2" "2 \<le> length m" "relational k"
  defines "x \<equiv> ext64 k w1 a" and "y \<equiv> ext64 k w2 b"
  shows "yields m0 vs s (gen_cmp k c1 c2 s) (VInt 64 (unat (jit_dist k x y))) (m[0 := x, 1 := y])"
proof -
  note h = assms(2-5) hval_append [OF assms(2)] hval_append [OF assms(3)] runs_length [OF assms(1)]
  have m: "m \<noteq> []" "Suc 0 < length m" using assms(8) by auto
  have u: "\<not> signed_kind k \<Longrightarrow> a = unat x" "\<not> signed_kind k \<Longrightarrow> b = unat y"
    and v: "signed_kind k \<Longrightarrow> of_sval 64 (sval w1 a) = unat x" "signed_kind k \<Longrightarrow> of_sval 64 (sval w2 b) = unat y"
    unfolding x_def y_def using ext64_operand [OF assms(6,4), of k] ext64_operand [OF assms(7,5), of k] by blast+
  show ?thesis
  proof (cases "signed_kind k")
    case True
    from True consider "k = rgd_Slt" | "k = rgd_Sle" | "k = rgd_Sgt" | "k = rgd_Sge"
      by (auto simp: signed_kind_def)
    then show ?thesis
    proof cases
    qed (rule yields_calls [OF assms(1)], simp add: cmp_defs,
        simp add: h m v [OF True] cmp_sem split del: if_split, simp add: h(7) nth_append)+
  next
    case False
    with assms(9) consider "k = rgd_Equal" | "k = rgd_Distinct" | "k = rgd_Ult" | "k = rgd_Ule" | "k = rgd_Ugt" | "k = rgd_Uge"
      by (cases k) (simp_all add: relational_def signed_kind_def)
    then show ?thesis
    proof cases
    qed (rule yields_calls [OF assms(1)], simp add: cmp_defs,
        simp add: h m u [OF False] cmp_sem split del: if_split, simp add: h(7) nth_append)+
  qed
qed

text \<open>Comparing the extended operands is comparing the operands.\<close>

lemma sint_ext64:
  assumes "a < 2 ^ w" "0 < w" "w \<le> 64"
  shows "sint (word_of_int (sval w a) :: u64) = sval w a"
proof -
  have "(2 :: int) ^ (w - 1) \<le> 2 ^ 63" using assms(3) by (intro power_increasing) simp_all
  then have "- (2 ^ 63) \<le> sval w a" "sval w a < 2 ^ 63"
    using sval_bounds [OF assms(1,2)] by linarith+
  then show ?thesis by (simp add: signed_of_int signed_take_bit_int_eq_self)
qed

lemma rel_holds_ext64:
  assumes "a < 2 ^ w" "b < 2 ^ w" "0 < w" "w \<le> 64" "relational k"
  shows "bv_cmp k w a b = Some (rel_holds k (ext64 k w a) (ext64 k w b))"
proof (cases "signed_kind k")
  case True
  have "sint (ext64 k w a) = sval w a" "sint (ext64 k w b) = sval w b"
    using True sint_ext64 assms by (simp_all add: ext64_def)
  with True show ?thesis by (auto simp: signed_kind_def)
next
  case False
  have "a = unat (ext64 k w a)" "b = unat (ext64 k w b)"
    using ext64_operand(2) [OF _ assms(4) False] assms(1,2) by blast+
  then have "uint (ext64 k w a) = int a" "uint (ext64 k w b) = int b"
    by (metis uint_nat)+
  with False assms(5) show ?thesis
    by (cases k) (auto simp: relational_def signed_kind_def word_uint_eq_iff)
qed

section \<open>Properties\<close>

text \<open>
  What a request must satisfy to be compiled: operands of the same width of at most 64 bits with
  no comparison inside, metadata that fits the argument array, labels that stand for one value.
\<close>

definition jit_request :: "u64 list \<Rightarrow> (u32 \<times> u32) list \<Rightarrow> AstNode \<Rightarrow> bool" where
  "jit_request m lm n \<longleftrightarrow>
     relational (akind n) \<and> length (children n) = 2 \<and> 2 \<le> length m
     \<and> (\<forall>c \<in> set (children n). width c \<le> 64 \<and> (\<forall>x \<in> set (nodes c). jit_node x))
     \<and> (\<forall>x \<in> set (fst (visits [] (children n))). slot_ok m lm x)
     \<and> labels_agree (cells m lm) (concat (map nodes (children n)))"

lemma jit_request_run:
  assumes "jit_request m lm n"
    and "ast_val jit_corner (cells m lm) (children n ! 0) = Some (w, a)"
    and "ast_val jit_corner (cells m lm) (children n ! 1) = Some (w, b)"
  defines "x \<equiv> ext64 (akind n) w a" and "y \<equiv> ext64 (akind n) w b"
  obtains f where "addFunction n lm = (f, lm)"
    "run_fn f m = Some (m[0 := x, 1 := y], jit_dist (akind n) x y)"
proof -
  let ?k = "akind n" and ?s = "\<lparr>calls = [], value_cache = Map.empty, lmap = lm\<rparr>"
  obtain bo w0 v ix h c1 c2 l where n: "n = AstNode ?k bo w0 v ix h [c1, c2] l"
    using assms(1) unfolding jit_request_def
    by (cases n) (auto simp: numeral_2_eq_2 length_Suc_conv)
  let ?R = "nodes c1 @ nodes c2"
  have hyp: "relational ?k" "2 \<le> length m" "width c1 \<le> 64" "labels_agree (cells m lm) ?R"
    "\<forall>x \<in> set ?R. jit_node x" "\<forall>x \<in> set (fst (visits [] [c1, c2])). slot_ok m lm x"
    using assms(1) by (subst (asm) n; simp add: jit_request_def ball_Un)+
  have val: "ast_val jit_corner (cells m lm) c1 = Some (w, a)" "ast_val jit_corner (cells m lm) c2 = Some (w, b)"
    using assms(2,3) by (subst (asm) n; simp)+
  have w: "w \<le> 64" using jit_width [OF val(1)] hyp(3,5) by (cases c1) auto
  have bnd: "a < 2 ^ w" "b < 2 ^ w" using ast_val_bound [OF jit_corner_ok] val by blast+
  have init: "runs ?s m [] m" "cache_ok (cells m lm) ?R ?s [] []" by (simp_all add: runs_def cache_ok_def)
  have "ready m ?R ?s [] [] c1"
    using init hyp(5,6) by (auto simp: ready_def case_prod_beta Let_def)
  from codegen_generates [OF val(1) _ hyp(4) this] obtain h1 s1 xs where
    g: "codegen c1 ?s = (Some h1, s1)" "runs s1 m xs m" "hval xs h1 = Some (VInt w a)" "lmap s1 = lm"
      "cache_ok (cells m lm) ?R s1 xs (snd (visit [] c1))" unfolding generates_def by auto
  have "ready m ?R s1 xs (snd (visit [] c1)) c2"
    using g hyp(5,6) by (auto simp: ready_def case_prod_beta Let_def)
  from codegen_generates [OF val(2) _ hyp(4) this] g(4) obtain h2 s2 ys where
    g': "codegen c2 s1 = (Some h2, s2)" "runs s2 m (xs @ ys) m" "hval (xs @ ys) h2 = Some (VInt w b)" "lmap s2 = lm"
    unfolding generates_def by auto
  from gen_cmp_yields [OF g'(2) hval_append [OF g(3)] g'(3) w w bnd hyp(2,1)] obtain zs r s3 where
    c: "gen_cmp ?k h1 h2 s2 = (r, s3)" "runs s3 m ((xs @ ys) @ zs) (m[0 := x, 1 := y])"
      "hval ((xs @ ys) @ zs) r = Some (VInt 64 (unat (jit_dist ?k x y)))" "lmap s3 = lm"
    unfolding yields_def x_def y_def g'(4) by (cases "gen_cmp ?k h1 h2 s2") auto
  have k: "\<not> unary_kind ?k" "binary_kind ?k" "?k \<notin> {rgd_Bool, rgd_Constant, rgd_Read}"
    "gen_binary ?k w0 (bits c1) (bits c2) h1 h2 s2 = (Some r, s3)"
    using hyp(1) c(1) by (cases ?k; simp add: relational_def unary_kind_def binary_kind_def gen_binary_def)+
  have "codegen n ?s = cache_ret l (Some r, s3)"
    by (subst n) (use k g(1) g'(1) in simp)
  then have "addFunction n lm = ((calls s3, Some r), lm)"
    using c(4) by (simp add: addFunction_def)
  moreover have "run_fn (calls s3, Some r) m = Some (m[0 := x, 1 := y], jit_dist ?k x y)"
    using c(2,3) by (simp add: run_fn_def runs_def)
  ultimately show thesis by (rule that)
qed

lemma jit_request_bounds:
  assumes "jit_request m lm n"
    and "ast_val jit_corner (cells m lm) (children n ! 0) = Some (w, a)"
    and "ast_val jit_corner (cells m lm) (children n ! 1) = Some (w, b)"
  shows "a < 2 ^ w" "b < 2 ^ w" "0 < w" "w \<le> 64" "relational (akind n)"
proof -
  show "a < 2 ^ w" "b < 2 ^ w" "0 < w" using ast_val_bound [OF jit_corner_ok] assms(2,3) by blast+
  let ?c = "children n ! 0"
  have "?c \<in> set (children n)" "relational (akind n)"
    using assms(1) by (auto simp: jit_request_def)
  moreover have "?c \<in> set (nodes ?c)" by (cases ?c) simp
  ultimately show "w \<le> 64" "relational (akind n)"
    using assms(1) jit_width [OF assms(2)] unfolding jit_request_def by metis+
qed

lemma jit_request_jit:
  assumes "follows_langref jit" "jit_request m lm n"
    and "ast_val jit_corner (cells m lm) (children n ! 0) = Some (w, a)"
    and "ast_val jit_corner (cells m lm) (children n ! 1) = Some (w, b)"
  defines "x \<equiv> ext64 (akind n) w a" and "y \<equiv> ext64 (akind n) w b"
  obtains f where "addFunction n lm = (f, lm)" "jit f m = (m[0 := x, 1 := y], jit_dist (akind n) x y)"
proof -
  obtain f where "addFunction n lm = (f, lm)" "run_fn f m = Some (m[0 := x, 1 := y], jit_dist (akind n) x y)"
    using jit_request_run [OF assms(2-4)] unfolding x_def y_def .
  with assms(1) that show thesis unfolding follows_langref_def by blast
qed

text \<open>
  C4. The function \<open>addFunction\<close> builds for a comparison stores its two operands in the first two
  slots and changes no other slot, whatever LLVM makes of the calls as long as it follows its
  manual. The first slot holds the first operand and the second slot the second one: for a signed
  comparison as the 64-bit integers with the signed values of the operands, for any other
  comparison as those with the unsigned values. The 64-bit comparison of the two slots is then
  the comparison of the operands at their own width.
\<close>

theorem jit_operands:
  assumes "follows_langref jit" "jit_request m lm n"
    and "ast_val jit_corner (cells m lm) (children n ! 0) = Some (w, a)"
    and "ast_val jit_corner (cells m lm) (children n ! 1) = Some (w, b)"
  shows "\<exists>f d x y. addFunction n lm = (f, lm) \<and> jit f m = (m[0 := x, 1 := y], d)
    \<and> (if akind n \<in> {rgd_Slt, rgd_Sle, rgd_Sgt, rgd_Sge} then sint x = sval w a \<and> sint y = sval w b
        else unat x = a \<and> unat y = b)
    \<and> bv_cmp (akind n) w a b = Some (rel_holds (akind n) x y)"
proof -
  let ?x = "ext64 (akind n) w a" and ?y = "ext64 (akind n) w b"
  note bnd = jit_request_bounds [OF assms(2-4)]
  obtain f where f: "addFunction n lm = (f, lm)" "jit f m = (m[0 := ?x, 1 := ?y], jit_dist (akind n) ?x ?y)"
    by (rule jit_request_jit [OF assms])
  have "if akind n \<in> {rgd_Slt, rgd_Sle, rgd_Sgt, rgd_Sge} then sint ?x = sval w a \<and> sint ?y = sval w b
      else unat ?x = a \<and> unat ?y = b"
  proof (cases "signed_kind (akind n)")
    case True
    then have "sint ?x = sval w a" "sint ?y = sval w b" using sint_ext64 bnd by (simp_all add: ext64_def)
    with True show ?thesis by (simp add: signed_kind_def)
  next
    case False
    then have "unat ?x = a" "unat ?y = b" using ext64_operand(2) bnd(1,2,4) by metis+
    with False show ?thesis by (simp add: signed_kind_def)
  qed
  moreover have "bv_cmp (akind n) w a b = Some (rel_holds (akind n) ?x ?y)" by (rule rel_holds_ext64 [OF bnd])
  ultimately show ?thesis using f by blast
qed

text \<open>
  A request: the 16-bit field at offset 3 is below 300. The field is in the slots 0 and 1 of the
  arguments, the constant in slot 2.
\<close>

definition sample_read :: AstNode where
  "sample_read = AstNode rgd_Read False 16 [] 3 0 [] 7"

definition sample_const :: AstNode where
  "sample_const = AstNode rgd_Constant False 16 ''300'' 2 0 [] 0"

definition sample_request :: AstNode where
  "sample_request = AstNode rgd_Ult False 1 [] 0 0 [sample_read, sample_const] 8"

text \<open>An execution that follows the manual: the manual itself, with a fixed outcome elsewhere.\<close>

definition ref_jit :: "call list \<times> handle option \<Rightarrow> u64 list \<Rightarrow> u64 list \<times> u64" where
  "ref_jit f m = (case run_fn f m of None \<Rightarrow> (m, 0) | Some r \<Rightarrow> r)"

lemma ref_jit_follows: "follows_langref ref_jit"
  by (simp add: follows_langref_def ref_jit_def)

lemma sample_dec: "dec_val ''300'' = Some 300"
  by (simp add: dec_val_def digit_def of_char_def)

lemma sum_two: "(\<Sum>j < (2 :: nat). f j) = f 0 + (f 1 :: nat)"
  by (simp add: numeral_2_eq_2)

lemma sample_vals:
  "ast_val co (cells [0, 0, 44, 2, 300] [(3, 0)]) sample_read = Some (16, 556)"
  "ast_val co (cells [0, 0, 44, 2, 300] [(3, 0)]) sample_const = Some (16, 300)"
  by (simp_all add: sample_read_def sample_const_def sample_dec leaf_val_def cells_def cell_def sum_two)

lemma sample_jit_request: "jit_request [0, 0, 44, 2, 300] [(3, 0)] sample_request"
  by (simp add: jit_request_def sample_request_def sample_read_def sample_const_def sample_dec relational_def
      jit_node_def slot_ok_def labels_agree_def)

theorem jit_operands_witness:
  "\<exists>f d. addFunction sample_request [(3, 0)] = (f, [(3, 0)])
     \<and> ref_jit f [0, 0, 44, 2, 300] = ([556, 300, 44, 2, 300], d) \<and> bv_cmp rgd_Ult 16 556 300 = Some (rel_holds rgd_Ult 556 300)"
proof -
  have c: "children sample_request ! 0 = sample_read" "children sample_request ! 1 = sample_const"
    "akind sample_request = rgd_Ult" by (simp_all add: sample_request_def)
  obtain f d and x y :: u64 where "addFunction sample_request [(3, 0)] = (f, [(3, 0)])"
    "ref_jit f [0, 0, 44, 2, 300] = ([x, y, 44, 2, 300], d)" "unat x = 556" "unat y = 300"
    using jit_operands [OF ref_jit_follows sample_jit_request, unfolded c, OF sample_vals] by auto
  moreover from this have "x = 556" "y = 300" by (simp_all add: word_unat_eq_iff)
  ultimately show ?thesis by auto
qed

lemma sat_inc_one: "sat_inc z 1 = (if uint z + 1 = 18446744073709551616 then - 1 else z + 1)"
    "uint z + 1 = 18446744073709551616 \<Longrightarrow> z + 1 = 0"
proof -
  have *: "uint z + 1 = 18446744073709551616 \<longleftrightarrow> z = - 1" by (auto simp: word_uint_eq_iff)
  show "sat_inc z 1 = (if uint z + 1 = 18446744073709551616 then - 1 else z + 1)"
  proof (cases "uint z + 1 = 18446744073709551616")
    case False
    with uint_lt_u64 [of z] have "uint z + 1 < 18446744073709551616" by linarith
    then have "uint (sat_inc z 1) = uint (z + 1)"
      by (simp add: uint_sat_inc uint_plus_if')
    with False show ?thesis by (simp add: word_uint_eq_iff)
  qed (simp add: word_uint_eq_iff uint_sat_inc)
  show "uint z + 1 = 18446744073709551616 \<Longrightarrow> z + 1 = 0" unfolding * by simp
qed

lemma jit_dist_distance:
  assumes "getDistance k a b = Some d"
  shows "jit_dist k a b = (if rel_gap k a b = 2 ^ 64 then 0 else d) \<and> (rel_gap k a b = 2 ^ 64 \<longrightarrow> d = - 1)"
proof -
  have lt: "uint a < 18446744073709551616" "uint b < 18446744073709551616" "0 \<le> uint a" "0 \<le> uint b"
    by simp_all
  note sr = sint_range_u64 [of a] sint_range_u64 [of b]
  have ne: "uint z \<noteq> 18446744073709551616" for z :: u64
    using uint_lt_u64 [of z] by linarith
  show ?thesis
    using assms lt sr sat_inc_one [of "a - b"] sat_inc_one [of "b - a"]
    by (cases k) (simp_all add: ne uint_sub_signed uint_sub_unsigned word_rel_uint max_def not_less not_le split: if_splits)
qed

text \<open>
  C37. The value the compiled function returns is the distance that \<open>getDistance\<close> computes from the
  two slots it has stored, except that it wraps around to zero where the latter saturates at
  \<open>2^64 - 1\<close>, that is where the gap between the operands is \<open>2^64\<close>: there the compiled function
  reports an unsatisfied comparison as satisfied.
\<close>

theorem jit_dist_wraps:
  assumes "follows_langref jit" "jit_request m lm n"
    and "ast_val jit_corner (cells m lm) (children n ! 0) = Some (w, a)"
    and "ast_val jit_corner (cells m lm) (children n ! 1) = Some (w, b)"
  shows "\<exists>f d x y g. addFunction n lm = (f, lm) \<and> jit f m = (m[0 := x, 1 := y], d)
    \<and> getDistance (akind n) x y = Some g
    \<and> (if rel_gap (akind n) x y = 2 ^ 64 then d = 0 \<and> g = - 1 else d = g)"
proof -
  let ?x = "ext64 (akind n) w a" and ?y = "ext64 (akind n) w b"
  obtain f where f: "addFunction n lm = (f, lm)" "jit f m = (m[0 := ?x, 1 := ?y], jit_dist (akind n) ?x ?y)"
    by (rule jit_request_jit [OF assms])
  obtain g where g: "getDistance (akind n) ?x ?y = Some g"
    using getDistance_relational jit_request_bounds(5) [OF assms(2-4)] by blast
  have "if rel_gap (akind n) ?x ?y = 2 ^ 64 then jit_dist (akind n) ?x ?y = 0 \<and> g = - 1 else jit_dist (akind n) ?x ?y = g"
    using jit_dist_distance [OF g] by (simp split: if_splits)
  with f g show ?thesis by blast
qed

text \<open>The largest 64-bit number is not below zero, by a gap of \<open>2^64\<close>.\<close>

definition widest_request :: AstNode where
  "widest_request = AstNode rgd_Ult False 1 [] 0 0
     [AstNode rgd_Constant False 64 ''18446744073709551615'' 0 0 [] 0, AstNode rgd_Constant False 64 ''0'' 1 0 [] 0] 0"

lemma widest_dec: "dec_val ''18446744073709551615'' = Some 18446744073709551615" "dec_val ''0'' = Some 0"
  by (simp_all add: dec_val_def digit_def of_char_def)

lemma unat_max_u64: "unat (- 1 :: u64) = 18446744073709551615"
  by (simp add: unsigned_minus_1_eq_mask mask_eq_exp_minus_1)

lemma widest_vals:
  "ast_val co (cells [0, 0, - 1, 0] []) (children widest_request ! 0) = Some (64, 18446744073709551615)"
  "ast_val co (cells [0, 0, - 1, 0] []) (children widest_request ! 1) = Some (64, 0)"
  by (simp_all add: widest_request_def widest_dec leaf_val_def)

lemma widest_jit_request: "jit_request [0, 0, - 1, 0] [] widest_request"
  by (simp add: jit_request_def widest_request_def widest_dec unat_max_u64 relational_def jit_node_def slot_ok_def labels_agree_def)

theorem jit_dist_wraps_witness:
  "\<exists>f. addFunction widest_request [] = (f, []) \<and> ref_jit f [0, 0, - 1, 0] = ([- 1, 0, - 1, 0], 0)
     \<and> getDistance rgd_Ult (- 1) 0 = Some (- 1)"
proof -
  have k: "akind widest_request = rgd_Ult" by (simp add: widest_request_def)
  obtain f d x y g where f: "addFunction widest_request [] = (f, [])" "ref_jit f [0, 0, - 1, 0] = ([x, y, - 1, 0], d)"
    "getDistance rgd_Ult x y = Some g" "if rel_gap rgd_Ult x y = 2 ^ 64 then d = 0 \<and> g = - 1 else d = g"
    using jit_dist_wraps [OF ref_jit_follows widest_jit_request widest_vals] unfolding k by auto
  obtain f' where f': "addFunction widest_request [] = (f', [])"
    "ref_jit f' [0, 0, - 1, 0] = ([0, 0, - 1, 0][0 := ext64 rgd_Ult 64 18446744073709551615, 1 := ext64 rgd_Ult 64 0],
       jit_dist rgd_Ult (ext64 rgd_Ult 64 18446744073709551615) (ext64 rgd_Ult 64 0))"
    using jit_request_jit [OF ref_jit_follows widest_jit_request widest_vals] unfolding k by blast
  have "ext64 rgd_Ult 64 18446744073709551615 = - 1" "ext64 rgd_Ult 64 0 = 0" by (simp_all add: ext64_def signed_kind_def)
  with f f' have "x = - 1" "y = 0" by auto
  with f show ?thesis by simp
qed

end
