(* ===== verification/Z3_Sound.thy ===== *)
theory Z3_Sound
  imports Z3_Props
begin

text \<open>
  The properties of the SMT back end: typing, soundness of the solutions, and agreement with the
  code the JIT back end generates.
\<close>

section \<open>Typing\<close>

text \<open>The sort a tree is translated to, from the fields of its nodes alone.\<close>

definition leaf_sort :: "kind \<Rightarrow> u32 \<Rightarrow> string \<Rightarrow> zsort option" where
  "leaf_sort k w v =
     (case k of
        rgd_Bool \<Rightarrow> Some SBool
      | rgd_Constant \<Rightarrow> if w = 1 then Some SBool else if w = 0 \<or> dec_val v = None then None else Some (SBV (unat w))
      | rgd_Read \<Rightarrow> Some (SBV (8 * max 1 (unat w div 8)))
      | _ \<Rightarrow> None)"

definition un_sort :: "kind \<Rightarrow> u32 \<Rightarrow> u32 \<Rightarrow> u32 \<Rightarrow> zsort \<Rightarrow> zsort option" where
  "un_sort k ix w w1 t =
     (case t of
        SBool \<Rightarrow> (case k of rgd_ZExt \<Rightarrow> Some (SBV (1 + unat (w - w1))) | rgd_LNot \<Rightarrow> Some SBool | _ \<Rightarrow> None)
      | SBV v \<Rightarrow>
         (case k of
            rgd_Extract \<Rightarrow> if 0 < unat w \<and> unat ix + unat w \<le> v \<and> v < 2 ^ 32 then Some (SBV (unat w)) else None
          | rgd_ZExt \<Rightarrow> Some (SBV (v + unat (w - w1)))
          | rgd_SExt \<Rightarrow> Some (SBV (v + unat (w - w1)))
          | rgd_Neg \<Rightarrow> Some (SBV v)
          | rgd_Not \<Rightarrow> Some (SBV v)
          | _ \<Rightarrow> None))"

definition bin_sort :: "kind \<Rightarrow> zsort \<Rightarrow> zsort \<Rightarrow> zsort option" where
  "bin_sort k t1 t2 =
     (case (t1, t2) of
        (SBV v, SBV w) \<Rightarrow>
          if k = rgd_Concat then Some (SBV (w + v))
          else if v \<noteq> w then None
          else if relational k then Some SBool
          else if arith_kind k then Some (SBV v) else None
      | (SBool, SBool) \<Rightarrow> if k \<in> {rgd_Equal, rgd_Distinct, rgd_LOr, rgd_LAnd} then Some SBool else None
      | _ \<Rightarrow> None)"

fun ast_sort :: "AstNode \<Rightarrow> zsort option" where
  "ast_sort (AstNode k bo w v ix h cs l) =
     (case cs of
        [] \<Rightarrow> leaf_sort k w v
      | [n] \<Rightarrow> (case ast_sort n of None \<Rightarrow> None | Some t \<Rightarrow> un_sort k ix w (bits n) t)
      | [n1, n2] \<Rightarrow> (case ast_sort n1 of None \<Rightarrow> None
          | Some t1 \<Rightarrow> (case ast_sort n2 of None \<Rightarrow> None | Some t2 \<Rightarrow> bin_sort k t1 t2))
      | _ \<Rightarrow> None)"

lemma ser_bytes_sort:
  "zsort_of out = Some (SBV w) \<Longrightarrow> zsort_of (ser_bytes ix i n out) = Some (SBV (8 * n + w))"
  by (induction n arbitrary: i out w) simp_all

lemma leaf_sort_ok:
  assumes "leaf_sort k w v = Some t"
  shows "k \<in> {rgd_Bool, rgd_Constant, rgd_Read} \<and> (\<exists>e. zsort_of e = Some t \<and>
    (if k = rgd_Bool then Some (ZBool bo) else if k = rgd_Constant then ser_Constant w v else Some (ser_Read ix w)) = Some e)"
proof -
  from assms consider "k = rgd_Bool" | "k = rgd_Constant" | "k = rgd_Read"
    by (cases k) (simp_all add: leaf_sort_def)
  then show ?thesis
  proof cases
    case 1
    with assms show ?thesis by (simp add: leaf_sort_def)
  next
    case 2
    with assms show ?thesis
      by (auto simp: leaf_sort_def ser_Constant_def zmk_def unat_gt_0 split: if_splits)
  next
    case 3
    have "8 * (unat w div 8 - 1) + 8 = 8 * max 1 (unat w div 8)" by simp
    with 3 assms ser_bytes_sort [of "ZByte ix" 8 ix 1 "unat w div 8 - 1"] show ?thesis
      by (simp add: leaf_sort_def ser_Read_def)
  qed
qed

lemma un_sort_ok:
  assumes "un_sort k ix w w1 t1 = Some t" "zsort_of c1 = Some t1"
  shows "zunary k \<and> (\<exists>e. ser_unary k ix w w1 c1 = Some e \<and> zsort_of e = Some t)"
proof -
  show ?thesis
  proof (cases "k = rgd_Extract")
    case True
    with assms(1) obtain v where t: "t1 = SBV v" "0 < unat w" "unat ix + unat w \<le> v" "v < 2 ^ 32" "t = SBV (unat w)"
      by (cases t1) (auto simp: un_sort_def split: if_splits)
    then have "unat (ix + w) = unat ix + unat w" by (simp add: unat_word_ariths)
    with t have "unat (ix + w - 1) = unat ix + unat w - 1" by (simp add: unat_sub_if')
    with True t assms(2) show ?thesis
      by (simp add: ser_unary_def zmk_def zunary_def) arith
  next
    case False
    with assms show ?thesis
      by (cases k; cases t1) (auto simp: un_sort_def zunary_def ser_unary_def ser_ZExt_def zmk_def)
  qed
qed

lemma bin_sort_ok:
  assumes "bin_sort k t1 t2 = Some t" "zsort_of c1 = Some t1" "zsort_of c2 = Some t2"
  shows "\<not> zunary k \<and> k \<notin> {rgd_Bool, rgd_Constant, rgd_Read} \<and> (\<exists>e. ser_binary k c1 c2 = Some e \<and> zsort_of e = Some t)"
  using assms
  by (cases t1; cases t2; cases k)
    (simp_all add: bin_sort_def zunary_def ser_binary_def zmk_def relational_def arith_kind_def split: if_splits)

text \<open>Labels agree on sorts, and the cache holds terms of the sort of their label.\<close>

definition sorts_agree :: "AstNode list \<Rightarrow> bool" where
  "sorts_agree R \<longleftrightarrow> (\<forall>n \<in> set R. \<forall>n' \<in> set R. label n = label n' \<longrightarrow> label n \<noteq> 0 \<longrightarrow> ast_sort n = ast_sort n')"

definition cache_sorted :: "AstNode list \<Rightarrow> zcache \<Rightarrow> bool" where
  "cache_sorted R c \<longleftrightarrow> (\<forall>l e. c l = Some e \<longrightarrow> (\<forall>n \<in> set R. label n = l \<longrightarrow> zsort_of e = ast_sort n))"

lemma cache_expr_sorted:
  assumes "cache_sorted R c" "sorts_agree R" "n \<in> set R" "label n = l" "ast_sort n = zsort_of e"
  shows "cache_sorted R (snd (cache_expr l e c)) \<and> fst (cache_expr l e c) = e"
proof -
  have "zsort_of e = ast_sort n'" if "l \<noteq> 0" "n' \<in> set R" "label n' = l" for n'
    using assms(2-5) that unfolding sorts_agree_def by metis
  with assms(1) show ?thesis by (auto simp: cache_expr_def cache_sorted_def split: if_splits)
qed

lemma typed_node:
  assumes "cache_sorted R c" "sorts_agree R" "n \<in> set R" "ast_sort n = Some t" "n = AstNode k bo w v ix h cs l"
    and "(if l \<noteq> 0 then c l else None) = None \<Longrightarrow>
      \<exists>e0 c0. zsort_of e0 = Some t \<and> cache_sorted R c0 \<and> serialize n c = Some (cache_expr l e0 c0)"
  shows "\<exists>e c'. serialize n c = Some (e, c') \<and> zsort_of e = Some t \<and> cache_sorted R c'"
proof (cases "if l \<noteq> 0 then c l else None")
  case None
  from assms(6) [OF None] obtain e0 c0 where "zsort_of e0 = Some t" "cache_sorted R c0"
    and e: "serialize n c = Some (cache_expr l e0 c0)" by blast
  with cache_expr_sorted [of R c0 n l e0] assms(2-5) show ?thesis
    by (cases "cache_expr l e0 c0") auto
next
  case (Some e')
  then have c: "c (label n) = Some e'" using assms(5) by (auto split: if_splits)
  have "zsort_of e' = Some t"
    using assms(1) [unfolded cache_sorted_def, rule_format, OF c assms(3) refl] assms(4) by simp
  moreover have "serialize n c = Some (e', c)" unfolding assms(5) serialize.simps Some option.case by simp
  ultimately show ?thesis using assms(1) by blast
qed

lemma ast_sort_cases [consumes 1, case_names leaf un bin]:
  assumes "ast_sort (AstNode k bo w v ix h cs l) = Some t"
  obtains (leaf) "cs = []" "leaf_sort k w v = Some t"
  | (un) n1 t1 where "cs = [n1]" "ast_sort n1 = Some t1" "un_sort k ix w (bits n1) t1 = Some t"
  | (bin) n1 n2 t1 t2 where "cs = [n1, n2]" "ast_sort n1 = Some t1" "ast_sort n2 = Some t2" "bin_sort k t1 t2 = Some t"
proof -
  consider "cs = []" | n1 where "cs = [n1]" | n1 n2 where "cs = [n1, n2]" | n1 n2 n3 cs' where "cs = n1 # n2 # n3 # cs'"
    by (metis list.exhaust)
  then show thesis
    by cases (use assms that in \<open>auto split: option.splits\<close>)
qed

lemma serialize_sorted:
  assumes "ast_sort n = Some t" "sorts_agree R" "cache_sorted R c" "set (nodes n) \<subseteq> set R"
  shows "\<exists>e c'. serialize n c = Some (e, c') \<and> zsort_of e = Some t \<and> cache_sorted R c'"
  using assms
proof (induction n arbitrary: t c)
  case (AstNode k bo w v ix h cs l)
  let ?n = "AstNode k bo w v ix h cs l"
  have R: "?n \<in> set R" using AstNode.prems(4) by simp
  show ?case
  proof (rule typed_node [OF AstNode.prems(3,2) R AstNode.prems(1) refl])
    assume fresh: "(if l \<noteq> 0 then c l else None) = None"
    from AstNode.prems(1) show "\<exists>e0 c0. zsort_of e0 = Some t \<and> cache_sorted R c0 \<and> serialize ?n c = Some (cache_expr l e0 c0)"
    proof (cases rule: ast_sort_cases)
      case leaf
      from leaf_sort_ok [OF leaf(2), of bo ix] obtain e where e: "k \<in> {rgd_Bool, rgd_Constant, rgd_Read}" "zsort_of e = Some t"
        "(if k = rgd_Bool then Some (ZBool bo) else if k = rgd_Constant then ser_Constant w v else Some (ser_Read ix w)) = Some e"
        by blast
      then have "serialize ?n c = Some (cache_expr l e c)" unfolding serialize.simps fresh option.case by auto
      with e(2) AstNode.prems(3) show ?thesis by blast
    next
      case (un n1 t1)
      with AstNode.IH [of n1 t1 c] AstNode.prems obtain c1 c' where
        s: "serialize n1 c = Some (c1, c')" "zsort_of c1 = Some t1" "cache_sorted R c'" by auto
      from un_sort_ok [OF un(3) s(2)] obtain e where e: "zunary k" "ser_unary k ix w (bits n1) c1 = Some e" "zsort_of e = Some t"
        by blast
      then have "k \<notin> {rgd_Bool, rgd_Constant, rgd_Read}" by (auto simp: zunary_def)
      with e s un(1) show ?thesis unfolding serialize.simps fresh option.case by auto
    next
      case (bin n1 n2 t1 t2)
      with AstNode.IH [of n1 t1 c] AstNode.prems obtain c1 c' where
        s: "serialize n1 c = Some (c1, c')" "zsort_of c1 = Some t1" "cache_sorted R c'" by auto
      with bin AstNode.IH [of n2 t2 c'] AstNode.prems obtain c2 c'' where
        s2: "serialize n2 c' = Some (c2, c'')" "zsort_of c2 = Some t2" "cache_sorted R c''" by auto
      from bin_sort_ok [OF bin(4) s(2) s2(2)] obtain e where e: "\<not> zunary k" "k \<notin> {rgd_Bool, rgd_Constant, rgd_Read}"
        "ser_binary k c1 c2 = Some e" "zsort_of e = Some t" by blast
      with s s2 bin(1) show ?thesis unfolding serialize.simps fresh option.case by auto
    qed
  qed
qed

text \<open>
  C19. A tree that is well-typed is translated without an exception of the API, the term has the
  sort of the tree, and under every input it has a value of that sort.
\<close>

theorem serialize_typed:
  assumes "ast_sort n = Some t" "sorts_agree (nodes n)"
  shows "\<exists>e c. serialize n Map.empty = Some (e, c) \<and> zsort_of e = Some t \<and> (\<forall>m. \<exists>v. zeval m e = Some v \<and> vsort v t)"
  using serialize_sorted [OF assms, of Map.empty] zeval_sort by (fastforce simp: cache_sorted_def)

theorem serialize_typed_witness:
  "\<exists>e c. serialize sample_request Map.empty = Some (e, c) \<and> zsort_of e = Some SBool"
proof -
  have "ast_sort sample_request = Some SBool" "sorts_agree (nodes sample_request)"
    by (simp_all add: sample_request_def sample_read_def sample_const_def sample_dec leaf_sort_def bin_sort_def
        relational_def sorts_agree_def)
  from serialize_typed [OF this] show ?thesis by blast
qed

section \<open>Solutions\<close>

text \<open>
  What is assumed of Z3: a model names each constant once, its values are bytes, and every input
  that extends it makes all assertions true; simplification keeps the meaning of a term.
\<close>

definition z3_sound :: "(zexpr list \<Rightarrow> z3_answer) \<Rightarrow> bool" where
  "z3_sound z3 \<longleftrightarrow> (\<forall>as model. z3 as = Sat model \<longrightarrow> distinct (map fst model) \<and> (\<forall>(i, v) \<in> set model. v < 256)
     \<and> (\<forall>m. (\<forall>(i, v) \<in> set model. unat (m i) = v) \<longrightarrow> (\<forall>a \<in> set as. zeval m a = Some (BB True))))"

definition simplify_sound :: "(zexpr \<Rightarrow> zexpr) \<Rightarrow> bool" where
  "simplify_sound simplify \<longleftrightarrow> (\<forall>m e. zeval m (simplify e) = zeval m e)"

text \<open>The cache of a session holds, for the constraints of a task, their translations.\<close>

definition session_ok :: "SearchTask \<Rightarrow> session_cache \<Rightarrow> bool" where
  "session_ok task sc \<longleftrightarrow> (\<forall>c \<in> set (tconstraints task). case sc (tfid task, clabel c) of None \<Rightarrow> True
     | Some e \<Rightarrow> map_option fst (serialize (cnode c) Map.empty) = Some e)"

lemma Solver_addD:
  "Solver_add simplify e s = Some s' \<Longrightarrow> set s \<subseteq> set s' \<and> (is_const e \<or> simplify e \<in> set s')"
  by (auto simp: Solver_add_def split: if_splits)

lemma send_loop_mono: "send_loop simplify fid i cs s sc = (ok, s', sc') \<Longrightarrow> set s \<subseteq> set s'"
proof (induction simplify fid i cs s sc rule: send_loop.induct)
  case (2 simplify fid i c cs s sc)
  then show ?case
    by (fastforce dest: Solver_addD split: option.splits if_splits simp: bind_eq_Some_conv)
qed simp

lemma send_loop_asserts:
  assumes "send_loop simplify fid i cs s sc = (True, s', sc')" "j < length cs"
    and "distinct (map clabel cs)"
    and "\<forall>c \<in> set cs. case sc (fid, clabel c) of None \<Rightarrow> True | Some e \<Rightarrow> map_option fst (serialize (cnode c) Map.empty) = Some e"
  shows "\<exists>e c'. serialize (cnode (cs ! j)) Map.empty = Some (e, c')
    \<and> (let e' = (if i + j \<noteq> 0 \<and> sc (fid, clabel (cs ! j)) \<noteq> None then ZNot e else e)
       in is_const e' \<or> simplify e' \<in> set s')"
  using assms
proof (induction cs arbitrary: i j s sc)
  case (Cons c cs)
  show ?case
  proof (cases "sc (fid, clabel c)")
    case (Some e)
    with Cons.prems(4) obtain c' where e: "serialize (cnode c) Map.empty = Some (e, c')" by auto
    let ?e = "if i \<noteq> 0 then ZNot e else e"
    from Some Cons.prems(1) obtain s1 where s1: "Solver_add simplify ?e s = Some s1"
      "send_loop simplify fid (Suc i) cs s1 sc = (True, s', sc')"
      by (auto simp: bind_eq_Some_conv zmk_def split: option.splits if_splits)
    have "is_const ?e \<or> simplify ?e \<in> set s'" using Solver_addD [OF s1(1)] send_loop_mono [OF s1(2)] by auto
    with Some e Cons.IH [OF s1(2), of "j - 1"] Cons.prems(2-4) show ?thesis by (cases j) simp_all
  next
    case None
    with Cons.prems(1) obtain e c' s1 where e: "serialize (cnode c) Map.empty = Some (e, c')"
      and s1: "Solver_add simplify e s = Some s1"
        "send_loop simplify fid (Suc i) cs s1 (sc((fid, clabel c) \<mapsto> e)) = (True, s', sc')"
      by (auto split: option.splits)
    have now: "is_const e \<or> simplify e \<in> set s'" using Solver_addD [OF s1(1)] send_loop_mono [OF s1(2)] by auto
    have other: "(sc((fid, clabel c) \<mapsto> e)) (fid, clabel d) = sc (fid, clabel d)" if "d \<in> set cs" for d
      using imageI [OF that, of clabel] Cons.prems(3) by auto
    show ?thesis
    proof (cases j)
      case 0
      with None e now show ?thesis by simp
    next
      case (Suc j')
      with Cons.prems(2) have "j' < length cs" by simp
      with Cons.IH [OF s1(2) this] Cons.prems(3,4) other [OF nth_mem] other Suc show ?thesis by simp
    qed
  qed
qed simp

lemma model_solution:
  fixes model :: "(u32 \<times> nat) list"
  assumes "distinct (map fst model)" "(i, v) \<in> set model"
  shows "foldl (\<lambda>sol (i, v). sol(i \<mapsto> of_nat v)) solu model i = Some (of_nat v :: u8)"
  using assms
proof (induction model arbitrary: solu)
  case (Cons p model)
  have keep: "foldl (\<lambda>sol (i, v). sol(i \<mapsto> of_nat v)) f model i = f i"
    if "i \<notin> fst ` set model" for f :: "u32 \<rightharpoonup> u8"
    using that by (induction model arbitrary: f) (auto split: prod.splits)
  show ?case
  proof (cases "p = (i, v)")
    case True
    then have "i \<notin> fst ` set model" using Cons.prems(1) by simp
    from keep [OF this, of "solu(i \<mapsto> of_nat v)"] True show ?thesis
      unfolding foldl_Cons True prod.case by (simp only: fun_upd_same)
  next
    case False
    with Cons show ?thesis by (cases p) auto
  qed
qed simp

lemma serialize_relational:
  assumes "serialize n c = Some (e, c')" "relational (akind n)" "label n = 0 \<or> c (label n) = None"
  shows "\<not> is_const e \<and> zsort_of e = Some SBool"
proof (cases n)
  case (AstNode k bo w v ix h cs l)
  with assms(2) have k: "k \<notin> {rgd_Bool, rgd_Constant, rgd_Read, rgd_Concat}" "\<not> zunary k" "\<not> arith_kind k" "relational k"
    by (auto simp: relational_def zunary_def arith_kind_def)
  have fresh: "(if l \<noteq> 0 then c l else None) = None" using assms(3) AstNode by auto
  from assms(1) k obtain c1 c2 c3 e0 where "ser_binary k c1 c2 = Some e0" "cache_expr l e0 c3 = (e, c')"
    unfolding AstNode serialize.simps fresh option.case by (auto split: option.splits list.splits)
  then have "zmk (ZCmp k c1 c2) = Some e" using k by (auto simp: ser_binary_def cache_expr_def)
  then obtain t where "e = ZCmp k c1 c2" "zsort_of e = Some t" using zmkD by blast
  then show ?thesis by (auto split: if_splits option.splits zsort.splits)
qed

text \<open>The hypotheses on a tree under an input.\<close>

definition z3_tree :: "(u32 \<Rightarrow> u8) \<Rightarrow> AstNode \<Rightarrow> bool" where
  "z3_tree m n \<longleftrightarrow> (\<forall>x \<in> set (nodes n). z3_node m x) \<and> zlabels_agree m (nodes n)"

lemma serialize_meaning:
  assumes "z3_tree m n" "ast_val smt_corner (bytes_val m) n = Some r" "serialize n Map.empty = Some (e, c)"
  shows "denotes m e r"
  using serialize_denotes [OF assms(2), of "nodes n" Map.empty e c] assms(1,3)
  by (simp add: z3_tree_def zcache_ok_def)

lemma comparison_truth:
  assumes "z3_tree m n" "ast_val smt_corner (bytes_val m) n = Some (1, a)" "serialize n Map.empty = Some (e, c)"
    and "relational (akind n)" "zeval m e = Some (BB b)"
  shows "a = of_bool b"
  using serialize_meaning [OF assms(1-3)] assms(5) by (auto simp: denotes_def)

text \<open>
  C5. When \<open>sendZ3Solver\<close> reports success, every input that extends the solution gives each
  comparison of the task the truth value that was asked for: true for the first one and for all
  that were sent for the first time, false for those found in the session cache.
\<close>

theorem z3_solution_sound:
  assumes "z3_sound z3" "simplify_sound simplify" "session_ok task sc" "distinct (map clabel (tconstraints task))"
    and "sendZ3Solver simplify z3 False task Map.empty True (s0, sc) = Some ((True, sol), st')"
    and "\<forall>j v. sol j = Some v \<longrightarrow> m j = v" "i < length (tconstraints task)"
  defines "c \<equiv> tconstraints task ! i"
  assumes "relational (akind (cnode c))" "z3_tree m (cnode c)" "ast_val smt_corner (bytes_val m) (cnode c) = Some (1, a)"
  shows "a = (if i = 0 \<or> sc (tfid task, clabel c) = None then 1 else 0)"
proof -
  obtain ok s sc' where loop: "send_loop simplify (tfid task) 0 (tconstraints task) [] sc = (ok, s, sc')"
    by (metis prod.exhaust)
  with assms(5) obtain model where ok: "ok" "z3 s = Sat model" "sol = foldl (\<lambda>sol (i, v). sol(i \<mapsto> of_nat v)) Map.empty model"
    by (auto simp: sendZ3Solver_def Solver_reset_def Solver_check_def split: if_splits z3_answer.splits)
  have z3: "distinct (map fst model)" "\<forall>(i, v) \<in> set model. v < 256"
    "(\<forall>(i, v) \<in> set model. unat (m i) = v) \<Longrightarrow> \<forall>a \<in> set s. zeval m a = Some (BB True)"
    using assms(1) ok(2) unfolding z3_sound_def by blast+
  have "unat (m i) = v" if "(i, v) \<in> set model" for i v
    using model_solution [OF z3(1) that, of Map.empty] assms(6) ok(3) z3(2) that by (fastforce simp: unat_of_nat)
  then have all: "\<forall>a \<in> set s. zeval m a = Some (BB True)" using z3(3) by blast
  let ?neg = "i \<noteq> 0 \<and> sc (tfid task, clabel c) \<noteq> None"
  from send_loop_asserts [OF loop [unfolded eqTrueI [OF ok(1)]] assms(7,4)] assms(3) obtain e c' where
    e: "serialize (cnode c) Map.empty = Some (e, c')" "is_const (if ?neg then ZNot e else e) \<or> simplify (if ?neg then ZNot e else e) \<in> set s"
    unfolding session_ok_def c_def by (auto simp: Let_def)
  have "\<not> is_const e" using serialize_relational [OF e(1) assms(9)] by simp
  with e(2) have "simplify (if ?neg then ZNot e else e) \<in> set s" by (auto split: if_splits)
  with all assms(2) have "zeval m (if ?neg then ZNot e else e) = Some (BB True)" unfolding simplify_sound_def by metis
  then have "zeval m e = Some (BB (\<not> ?neg))" by (auto split: if_splits option.splits zval.splits)
  from comparison_truth [OF assms(10,11) e(1) assms(9) this] show ?thesis by auto
qed

definition sample_term :: zexpr where
  "sample_term = ZCmp rgd_Ult (ZConcat (ZByte 4) (ZByte 3)) (ZNum 16 300)"

text \<open>A solver that knows one model: 44 in byte 3, zero in byte 4.\<close>

definition sample_z3 :: "zexpr list \<Rightarrow> z3_answer" where
  "sample_z3 as = (if as = [sample_term] then Sat [(3, 44), (4, 0)] else NotSat)"

definition sample_bytes :: "u32 \<Rightarrow> u8" where
  "sample_bytes j = (if j = 3 then 44 else 0)"

definition sample_task :: SearchTask where
  "sample_task = \<lparr>tconstraints = [\<lparr>cnode = sample_request, cmeta = \<lparr>meta_map = [(3, 0), (4, 1)],
       meta_args = [(True, 0), (True, 0), (False, 300)], meta_inputs = [(3, 9), (4, 1)], meta_shape = [(3, 2), (4, 0)],
       meta_const_num = 1\<rparr>, clabel = 8\<rparr>],
     tfid = 5, taddr = 0, tctx = 0, torder = 0, tdirection = 0\<rparr>"

lemma sample_z3_sound: "z3_sound sample_z3"
  by (auto simp: z3_sound_def sample_z3_def sample_term_def split: if_splits)

lemma sample_serialize: "\<exists>c. serialize sample_request Map.empty = Some (sample_term, c)"
  by (simp add: sample_request_def sample_read_def sample_const_def sample_dec sample_term_def cache_expr_def
      ser_Read_def ser_Constant_def zmk_def zunary_def ser_binary_def relational_def arith_kind_def)

lemma sample_z3_tree: "z3_tree m sample_request"
  by (simp add: z3_tree_def sample_request_def sample_read_def sample_const_def z3_node_def zlabels_agree_def)

lemma sample_meaning:
  "ast_val co (bytes_val sample_bytes) sample_request = Some (1, 1)"
  by (simp add: sample_request_def sample_read_def sample_const_def sample_dec leaf_val_def bytes_val_def sum_two
      sample_bytes_def bin_val_def relational_def)

theorem z3_solution_sound_witness:
  "\<exists>a. ast_val smt_corner (bytes_val sample_bytes) sample_request = Some (1, a) \<and> a = 1"
proof -
  obtain c where c: "serialize sample_request Map.empty = Some (sample_term, c)" using sample_serialize by blast
  let ?sol = "[3 \<mapsto> 44, 4 \<mapsto> (0 :: u8)]"
  have run: "sendZ3Solver id sample_z3 False sample_task Map.empty True ([], Map.empty) =
      Some ((True, ?sol), [sample_term], [(5, 8) \<mapsto> sample_term])"
    by (simp add: sendZ3Solver_def sample_task_def c Solver_reset_def Solver_add_def Solver_check_def sample_z3_def)
      (simp add: sample_term_def relational_def)
  have "session_ok sample_task Map.empty" "distinct (map clabel (tconstraints sample_task))" "0 < length (tconstraints sample_task)"
    "cnode (tconstraints sample_task ! 0) = sample_request" "relational (akind sample_request)" "simplify_sound id"
    by (simp_all add: session_ok_def sample_task_def sample_request_def relational_def simplify_sound_def)
  moreover have "\<forall>j v. ?sol j = Some v \<longrightarrow> sample_bytes j = v" by (simp add: sample_bytes_def)
  ultimately have "(1 :: nat) = (if (0 :: nat) = 0 \<or> Map.empty (tfid sample_task, clabel (tconstraints sample_task ! 0)) = (None :: zexpr option) then 1 else 0)"
    using z3_solution_sound [of sample_z3 id sample_task Map.empty "[]" ?sol _ sample_bytes 0 1, OF sample_z3_sound _ _ _ run]
      sample_z3_tree sample_meaning by simp
  with sample_meaning show ?thesis by simp
qed

section \<open>Agreement of the two back ends\<close>

lemma ast_val_reads:
  assumes "ast_val co rd n = Some r"
    and "\<forall>x \<in> set (nodes n). akind x = rgd_Read \<longrightarrow> rd (index x) (width x div 8) = rd' (index x) (width x div 8)"
  shows "ast_val co rd' n = Some r"
  using assms
proof (induction rule: ast_val_induct)
  case (leaf k bo w v ix h l r)
  then show ?case by (cases k) (simp_all add: leaf_val_def split: if_splits)
qed simp_all

text \<open>
  C10. The two back ends agree: for a comparison that divides by no zero, shifts by less than the
  width and does not overflow in a signed division, the term that Z3 receives has, under an
  input, the truth value of the 64-bit comparison of the two operands that the compiled function
  stores when its slots hold that input.
\<close>

theorem backends_agree:
  assumes "follows_langref jit" "jit_request m lm n" "z3_tree b n" "serialize n Map.empty = Some (e, c)"
    and "\<forall>x \<in> set (nodes n). akind x = rgd_Read \<longrightarrow>
      cells m lm (index x) (width x div 8) = bytes_val b (index x) (width x div 8)"
    and "ast_val no_corner (bytes_val b) n = Some r"
  shows "\<exists>f d x y. addFunction n lm = (f, lm) \<and> jit f m = (m[0 := x, 1 := y], d)
    \<and> zeval b e = Some (BB (rel_holds (akind n) x y))"
proof -
  have k: "relational (akind n)" "length (children n) = 2" using assms(2) by (simp_all add: jit_request_def)
  from assms(6) obtain w a v q where val: "ast_val no_corner (bytes_val b) (children n ! 0) = Some (w, a)"
    "ast_val no_corner (bytes_val b) (children n ! 1) = Some (w, v)" "bv_cmp (akind n) w a v = Some q" "r = (1, of_bool q)"
  proof (cases rule: ast_val_cases)
    case (bin k' bo w v ix h c1 c2 l w1 a w2 b)
    with k(1) show ?thesis using that by (auto simp: bin_val_def relational_def split: if_splits)
  qed (use k(2) in simp_all)
  have child: "set (nodes (children n ! i)) \<subseteq> set (nodes n)" if "i < 2" for i
    using that k(2) by (cases n) (auto intro!: bexI [OF _ nth_mem])
  have jit: "ast_val jit_corner (cells m lm) (children n ! i) = Some p"
    if "ast_val no_corner (bytes_val b) (children n ! i) = Some p" "i < 2" for i p
    by (rule ast_val_reads [OF ast_val_no_corner [OF that(1)]]) (use assms(5) child [OF that(2)] in auto)
  from jit_operands [OF assms(1,2) jit [OF val(1)] jit [OF val(2)]] val(3) obtain f d x y where
    f: "addFunction n lm = (f, lm)" "jit f m = (m[0 := x, 1 := y], d)" "q = rel_holds (akind n) x y" by auto
  have "denotes b e r"
    by (rule serialize_meaning [OF assms(3) ast_val_no_corner [OF assms(6)] assms(4)])
  moreover have "zsort_of e = Some SBool" using serialize_relational [OF assms(4) k(1)] by simp
  ultimately obtain q' where "(of_bool q :: nat) = of_bool q'" "zeval b e = Some (BB q')"
    using denotes_sort(2) [of b e 1 "of_bool q"] val(4) by blast
  then have "zeval b e = Some (BB q)" by (simp add: of_bool_eq_iff)
  with f show ?thesis by blast
qed

text \<open>The field of the sample request holds 44 in its first byte and zero in its second.\<close>

theorem backends_agree_witness:
  "\<exists>f d x y. addFunction sample_request [(3, 0)] = (f, [(3, 0)]) \<and> ref_jit f [0, 0, 44, 0, 300] = ([x, y, 44, 0, 300], d)
    \<and> zeval sample_bytes sample_term = Some (BB (rel_holds rgd_Ult x y))"
proof -
  obtain c where c: "serialize sample_request Map.empty = Some (sample_term, c)" using sample_serialize by blast
  have req: "jit_request [0, 0, 44, 0, 300] [(3, 0)] sample_request"
    by (simp add: jit_request_def sample_request_def sample_read_def sample_const_def sample_dec relational_def
      jit_node_def slot_ok_def labels_agree_def)
  have "\<forall>x \<in> set (nodes sample_request). akind x = rgd_Read \<longrightarrow>
      cells [0, 0, 44, 0, 300] [(3, 0)] (index x) (width x div 8) = bytes_val sample_bytes (index x) (width x div 8)"
    by (simp add: sample_request_def sample_read_def sample_const_def cells_def cell_def bytes_val_def sum_two sample_bytes_def)
  from backends_agree [OF ref_jit_follows req sample_z3_tree c this sample_meaning] show ?thesis
    by (simp add: sample_request_def)
qed

end
