(* ===== verification/Probe_Table.thy ===== *)
theory Probe_Table
  imports Fg_Prelude
begin

text \<open>
  The open-addressing hash table \<open>pbbs::Table\<close> of \<open>lprobe/hash_table.h\<close>, with the operations of
  its template argument as a record. The solver uses the table from one thread, so every
  compare-and-swap of a cell that has just been read succeeds.
\<close>

section \<open>The table\<close>

text \<open>The template argument; \<open>empty()\<close> is \<open>None\<close>.\<close>

record ('e, 'k) HASH =
  getKey :: "'e \<Rightarrow> 'k"
  khash :: "'k \<Rightarrow> 32 word"
  kcmp :: "'k \<Rightarrow> 'k \<Rightarrow> int"
  replaceQ :: "'e \<Rightarrow> 'e \<Rightarrow> bool"
  eupdate :: "'e \<Rightarrow> 'e \<Rightarrow> 'e"

type_synonym 'e cells_array = "'e option list"

text \<open>The constructor; the number of cells is the value of \<open>(size_t) 100.0 + load * size\<close>.\<close>

definition Table_new :: "nat \<Rightarrow> 'e cells_array" where
  "Table_new m = replicate m None"

text \<open>\<open>(int) h % (uint) m\<close> converts the hash to an unsigned number.\<close>

definition hashToRange :: "nat \<Rightarrow> 32 word \<Rightarrow> nat" where
  "hashToRange m h = unat (h mod of_nat m)"

definition firstIndex :: "('e, 'k) HASH \<Rightarrow> nat \<Rightarrow> 'k \<Rightarrow> nat" where
  "firstIndex H m v = hashToRange m (khash H v)"

definition incrementIndex :: "nat \<Rightarrow> nat \<Rightarrow> nat" where
  "incrementIndex m h = (if h + 1 = m then 0 else h + 1)"

text \<open>The loops; a probe that never meets an empty or an equal cell does not return.\<close>

partial_function (option) insert_probe ::
  "('e, 'k) HASH \<Rightarrow> nat \<Rightarrow> 'e \<Rightarrow> 'e cells_array \<Rightarrow> (bool \<times> 'e cells_array) option" where
  "insert_probe H i v TA =
     (case TA ! i of
        None \<Rightarrow> Some (True, TA[i := Some v])
      | Some c \<Rightarrow>
          (let r = kcmp H (getKey H v) (getKey H c)
           in if r = 0 then if \<not> replaceQ H v c then Some (False, TA) else Some (True, TA[i := Some v])
              else if r < 0 then insert_probe H (incrementIndex (length TA) i) v TA
              else insert_probe H (incrementIndex (length TA) i) c (TA[i := Some v])))"

definition insert_entry :: "('e, 'k) HASH \<Rightarrow> 'e \<Rightarrow> 'e cells_array \<Rightarrow> (bool \<times> 'e cells_array) option" where
  "insert_entry H v TA = insert_probe H (firstIndex H (length TA) (getKey H v)) v TA"

partial_function (option) update_probe ::
  "('e, 'k) HASH \<Rightarrow> nat \<Rightarrow> 'e \<Rightarrow> 'e cells_array \<Rightarrow> (bool \<times> 'e cells_array) option" where
  "update_probe H i v TA =
     (case TA ! i of
        None \<Rightarrow> Some (True, TA[i := Some v])
      | Some c \<Rightarrow>
          (let r = kcmp H (getKey H v) (getKey H c)
           in if r = 0 then if \<not> replaceQ H v c then Some (False, TA)
                            else Some (True, TA[i := Some (eupdate H c v)])
              else if r < 0 then update_probe H (incrementIndex (length TA) i) v TA
              else update_probe H (incrementIndex (length TA) i) c (TA[i := Some v])))"

definition update_entry :: "('e, 'k) HASH \<Rightarrow> 'e \<Rightarrow> 'e cells_array \<Rightarrow> (bool \<times> 'e cells_array) option" where
  "update_entry H v TA = update_probe H (firstIndex H (length TA) (getKey H v)) v TA"

partial_function (option) find_probe ::
  "('e, 'k) HASH \<Rightarrow> nat \<Rightarrow> 'k \<Rightarrow> 'e cells_array \<Rightarrow> 'e option option" where
  "find_probe H h v TA =
     (case TA ! h of
        None \<Rightarrow> Some None
      | Some c \<Rightarrow>
          (let r = kcmp H v (getKey H c)
           in if 0 \<le> r then if 0 < r then Some None else Some (Some c)
              else find_probe H (incrementIndex (length TA) h) v TA))"

definition find_entry :: "('e, 'k) HASH \<Rightarrow> 'k \<Rightarrow> 'e cells_array \<Rightarrow> 'e option option" where
  "find_entry H v TA = find_probe H (firstIndex H (length TA) v) v TA"

partial_function (option) findIndex_probe ::
  "('e, 'k) HASH \<Rightarrow> nat \<Rightarrow> 'k \<Rightarrow> 'e cells_array \<Rightarrow> int option" where
  "findIndex_probe H h v TA =
     (case TA ! h of
        None \<Rightarrow> Some (- 1)
      | Some c \<Rightarrow>
          (let r = kcmp H v (getKey H c)
           in if 0 \<le> r then if 0 < r then Some (- 1) else Some (int h)
              else findIndex_probe H (incrementIndex (length TA) h) v TA))"

definition findIndex :: "('e, 'k) HASH \<Rightarrow> 'k \<Rightarrow> 'e cells_array \<Rightarrow> int option" where
  "findIndex H v TA = findIndex_probe H (firstIndex H (length TA) v) v TA"

definition count_entries :: "'e cells_array \<Rightarrow> nat" where
  "count_entries TA = sum_list (map (\<lambda>c. if c = None then 0 else 1) TA)"

definition entries :: "'e cells_array \<Rightarrow> 'e list" where
  "entries TA = map the (filter (\<lambda>c. c \<noteq> None) TA)"

declare insert_probe.simps [code] update_probe.simps [code] find_probe.simps [code] findIndex_probe.simps [code]

section \<open>Probing\<close>

text \<open>The cell reached after \<open>n\<close> increments.\<close>

definition probe_at :: "nat \<Rightarrow> nat \<Rightarrow> nat \<Rightarrow> nat" where
  "probe_at m i n = (i + n) mod m"

lemma firstIndex_less: "0 < m \<Longrightarrow> m < 2 ^ 32 \<Longrightarrow> firstIndex H m v < m"
  by (simp add: firstIndex_def hashToRange_def unat_mod unat_of_nat)

lemma probe_at_0 [simp]: "i < m \<Longrightarrow> probe_at m i 0 = i"
  by (simp add: probe_at_def)

lemma probe_at_less [simp]: "0 < m \<Longrightarrow> probe_at m i n < m"
  by (simp add: probe_at_def)

lemma incrementIndex_probe: "i < m \<Longrightarrow> incrementIndex m (probe_at m i n) = probe_at m i (Suc n)"
  by (simp add: incrementIndex_def probe_at_def mod_Suc)

lemma probe_at_covers: "i < m \<Longrightarrow> j < m \<Longrightarrow> \<exists>n < m. probe_at m i n = j"
proof -
  assume i: "i < m" and j: "j < m"
  have "(i + (j + m - i) mod m) mod m = (i + (j + m - i)) mod m" by (simp add: mod_add_right_eq)
  also have "\<dots> = j" using i j by simp
  finally show ?thesis using i by (intro exI [of _ "(j + m - i) mod m"]) (simp add: probe_at_def)
qed

text \<open>
  Keys without an order, as the code cache has them: two keys are equal or the first is put
  behind the second, and an equal entry is never replaced.
\<close>

definition unordered :: "('e, 'k) HASH \<Rightarrow> bool" where
  "unordered H \<longleftrightarrow> (\<forall>a b. kcmp H a b \<le> 0) \<and> (\<forall>v c. \<not> replaceQ H v c)"

text \<open>The probe for a key from a start: the cells up to \<open>n\<close> are taken by other keys.\<close>

definition passes :: "('e, 'k) HASH \<Rightarrow> 'k \<Rightarrow> 'e cells_array \<Rightarrow> nat \<Rightarrow> nat \<Rightarrow> bool" where
  "passes H k TA i n \<longleftrightarrow> (\<forall>p < n. \<exists>c. TA ! probe_at (length TA) i p = Some c \<and> kcmp H k (getKey H c) \<noteq> 0)"

definition stops :: "('e, 'k) HASH \<Rightarrow> 'k \<Rightarrow> 'e option \<Rightarrow> bool" where
  "stops H k x \<longleftrightarrow> (case x of None \<Rightarrow> True | Some c \<Rightarrow> kcmp H k (getKey H c) = 0)"

lemma probe_stops:
  assumes "i < length TA" "None \<in> set TA"
  obtains n where "n < length TA" "passes H k TA i n" "stops H k (TA ! probe_at (length TA) i n)"
proof -
  let ?m = "length TA" and ?P = "\<lambda>n. stops H k (TA ! probe_at (length TA) i n)"
  from assms obtain j where "j < ?m" "TA ! j = None" by (metis in_set_conv_nth)
  moreover from this(1) obtain n where "n < ?m" "probe_at ?m i n = j" using probe_at_covers [OF assms(1)] by blast
  ultimately have n: "n < ?m" "?P n" by (simp_all add: stops_def)
  define l where "l = (LEAST n. ?P n)"
  have l: "?P l" "l \<le> n" unfolding l_def using n(2) by (auto intro: LeastI Least_le)
  have "\<exists>c. TA ! probe_at ?m i p = Some c \<and> kcmp H k (getKey H c) \<noteq> 0" if "p < l" for p
    using not_less_Least [of p ?P] that by (cases "TA ! probe_at ?m i p") (auto simp: l_def stops_def)
  then have "passes H k TA i l" by (simp add: passes_def)
  then show thesis by (rule that [rotated]) (use l n(1) in simp_all)
qed

lemma find_probe_runs:
  assumes "unordered H" "i < length TA" "passes H k TA i n" "stops H k (TA ! probe_at (length TA) i n)"
  shows "p \<le> n \<Longrightarrow> find_probe H (probe_at (length TA) i p) k TA = Some (TA ! probe_at (length TA) i n)"
proof (induction "n - p" arbitrary: p)
  case 0
  then have "p = n" by simp
  with assms(4) show ?case by (subst find_probe.simps) (auto simp: stops_def Let_def split: option.splits)
next
  case (Suc d)
  then have "p < n" by simp
  then obtain c where c: "TA ! probe_at (length TA) i p = Some c" "kcmp H k (getKey H c) \<noteq> 0"
    using assms(3) by (auto simp: passes_def)
  moreover have "kcmp H k (getKey H c) \<le> 0" using assms(1) by (simp add: unordered_def)
  moreover have "find_probe H (probe_at (length TA) i (Suc p)) k TA = Some (TA ! probe_at (length TA) i n)"
    using Suc by simp
  ultimately show ?case
    by (subst find_probe.simps) (simp add: Let_def incrementIndex_probe [OF assms(2)])
qed

lemma insert_probe_runs:
  assumes "unordered H" "i < length TA" "passes H (getKey H v) TA i n"
    and "stops H (getKey H v) (TA ! probe_at (length TA) i n)"
  shows "p \<le> n \<Longrightarrow> insert_probe H (probe_at (length TA) i p) v TA =
    Some (if TA ! probe_at (length TA) i n = None then (True, TA[probe_at (length TA) i n := Some v]) else (False, TA))"
proof (induction "n - p" arbitrary: p)
  case 0
  then have "p = n" by simp
  moreover have "\<not> replaceQ H v c" for c using assms(1) by (simp add: unordered_def)
  ultimately show ?case
    using assms(4) by (subst insert_probe.simps) (auto simp: stops_def Let_def split: option.splits)
next
  case (Suc d)
  then have "p < n" by simp
  then obtain c where c: "TA ! probe_at (length TA) i p = Some c" "kcmp H (getKey H v) (getKey H c) \<noteq> 0"
    using assms(3) by (auto simp: passes_def)
  moreover have "kcmp H (getKey H v) (getKey H c) \<le> 0" using assms(1) by (simp add: unordered_def)
  ultimately have "insert_probe H (probe_at (length TA) i p) v TA = insert_probe H (probe_at (length TA) i (Suc p)) v TA"
    by (subst insert_probe.simps) (simp add: Let_def incrementIndex_probe [OF assms(2)])
  then show ?case using Suc by simp
qed

text \<open>The two operations on a table with an empty cell.\<close>

definition table_ok :: "'e cells_array \<Rightarrow> bool" where
  "table_ok TA \<longleftrightarrow> length TA < 2 ^ 32 \<and> None \<in> set TA"

lemma probe_exists:
  assumes "table_ok TA"
  obtains i n where "i = firstIndex H (length TA) k" "i < length TA" "n < length TA" "passes H k TA i n"
    "stops H k (TA ! probe_at (length TA) i n)"
proof -
  from assms have n: "None \<in> set TA" "length TA < 2 ^ 32" by (simp_all add: table_ok_def)
  then have "firstIndex H (length TA) k < length TA" by (intro firstIndex_less) (auto intro: length_pos_if_in_set)
  with probe_stops [OF this n(1)] that show thesis by metis
qed

lemma find_entry_eq:
  assumes "unordered H" "i = firstIndex H (length TA) k" "i < length TA" "passes H k TA i n"
    and "stops H k (TA ! probe_at (length TA) i n)"
  shows "find_entry H k TA = Some (TA ! probe_at (length TA) i n)"
  using find_probe_runs [OF assms(1,3-5), of 0] assms(2,3) by (simp add: find_entry_def)

lemma find_entry_returns:
  assumes "unordered H" "table_ok TA"
  obtains r where "find_entry H k TA = Some r" "\<And>c. r = Some c \<Longrightarrow> Some c \<in> set TA \<and> kcmp H k (getKey H c) = 0"
proof -
  obtain i n where i: "i = firstIndex H (length TA) k" "i < length TA" "n < length TA" "passes H k TA i n"
    "stops H k (TA ! probe_at (length TA) i n)" by (rule probe_exists [OF assms(2)])
  have "TA ! probe_at (length TA) i n \<in> set TA" using i(2) by (intro nth_mem probe_at_less) linarith
  then show thesis
    by (intro that [OF find_entry_eq [OF assms(1) i(1,2,4,5)]]) (use i(5) in \<open>simp add: stops_def\<close>)
qed

text \<open>What an insertion does: it keeps the table or fills the empty cell at the end of its probe.\<close>

lemma insert_entry_cases:
  assumes "unordered H" "table_ok TA"
  obtains (found) c where "insert_entry H v TA = Some (False, TA)" "find_entry H (getKey H v) TA = Some (Some c)"
  | (new) i n where "insert_entry H v TA = Some (True, TA[probe_at (length TA) i n := Some v])"
      "find_entry H (getKey H v) TA = Some None"
      "i = firstIndex H (length TA) (getKey H v)" "i < length TA" "n < length TA" "passes H (getKey H v) TA i n"
      "TA ! probe_at (length TA) i n = None"
proof -
  obtain i n where i: "i = firstIndex H (length TA) (getKey H v)" "i < length TA" "n < length TA"
    "passes H (getKey H v) TA i n" "stops H (getKey H v) (TA ! probe_at (length TA) i n)"
    by (rule probe_exists [OF assms(2)])
  note f = find_entry_eq [OF assms(1) i(1,2,4,5)]
  have r: "insert_entry H v TA =
    Some (if TA ! probe_at (length TA) i n = None then (True, TA[probe_at (length TA) i n := Some v]) else (False, TA))"
    using insert_probe_runs [OF assms(1) i(2,4,5), of 0] i(1,2) by (simp add: insert_entry_def)
  show thesis
  proof (cases "TA ! probe_at (length TA) i n")
    case None
    with r f i new show thesis by simp
  next
    case (Some c)
    with r f found show thesis by simp
  qed
qed

lemma passes_fill:
  assumes "passes H k TA i n" "TA ! j = None"
  shows "passes H k (TA[j := x]) i n"
proof -
  have "TA[j := x] ! q = TA ! q" if "TA ! q = Some c" for q c
    using that assms(2) by (cases "q = j") auto
  with assms(1) show ?thesis unfolding passes_def length_list_update by metis
qed

text \<open>An insertion does not disturb a probe that finds an entry.\<close>

lemma find_after_fill:
  assumes "unordered H" "table_ok TA" "TA ! j = None" "find_entry H k TA = Some (Some c)"
  shows "find_entry H k (TA[j := Some v]) = Some (Some c)"
proof -
  let ?m = "length TA" and ?T = "TA[j := Some v]"
  obtain i n where i: "i = firstIndex H ?m k" "i < ?m" "n < ?m" "passes H k TA i n" "stops H k (TA ! probe_at ?m i n)"
    by (rule probe_exists [OF assms(2)])
  have same: "?T ! x = TA ! x" if "TA ! x \<noteq> None" for x using that assms(3) by (cases "x = j") auto
  have c: "TA ! probe_at ?m i n = Some c" using find_entry_eq [OF assms(1) i(1,2,4,5)] assms(4) by simp
  have "passes H k ?T i n" by (rule passes_fill [OF i(4) assms(3)])
  moreover have "stops H k (?T ! probe_at ?m i n)" using i(5) c same by simp
  ultimately show ?thesis using find_entry_eq [OF assms(1), of i ?T k n] i c same by simp
qed

lemma find_after_insert:
  assumes "unordered H" "i = firstIndex H (length TA) (getKey H v)" "i < length TA" "passes H (getKey H v) TA i n"
    and "TA ! probe_at (length TA) i n = None" "kcmp H (getKey H v) (getKey H v) = 0"
  shows "find_entry H (getKey H v) (TA[probe_at (length TA) i n := Some v]) = Some (Some v)"
proof -
  let ?j = "probe_at (length TA) i n"
  have "?j < length TA" using assms(3) by (intro probe_at_less) linarith
  moreover have "passes H (getKey H v) (TA[?j := Some v]) i n"
    by (rule passes_fill [OF assms(4,5)])
  ultimately show ?thesis
    using find_entry_eq [OF assms(1), of i "TA[?j := Some v]" "getKey H v" n] assms(2,3,6) by (simp add: stops_def)
qed

section \<open>Properties\<close>

text \<open>
  C15. As long as a cell is empty, insertion and search return. An insertion reports whether the
  key was absent; if so the new entry is found under its key afterwards, if not the table is as
  before. Every entry that was found under some key is still found under it.
\<close>

theorem table_insert_find:
  assumes "unordered H" "table_ok TA" "kcmp H (getKey H v) (getKey H v) = 0"
  shows "\<exists>r b TA'. find_entry H (getKey H v) TA = Some r \<and> insert_entry H v TA = Some (b, TA')
    \<and> length TA' = length TA \<and> (b \<longleftrightarrow> r = None)
    \<and> (if b then find_entry H (getKey H v) TA' = Some (Some v) else TA' = TA)
    \<and> (\<forall>k c. find_entry H k TA = Some (Some c) \<longrightarrow> find_entry H k TA' = Some (Some c))"
  using assms(1,2)
proof (cases rule: insert_entry_cases [where v = v])
  case (found c)
  then show ?thesis by auto
next
  case (new i n)
  note * = find_after_fill [OF assms(1,2) new(7)] find_after_insert [OF assms(1) new(3,4,6,7) assms(3)]
  from new * show ?thesis by (intro exI [of _ None] exI [of _ True]) auto
qed

text \<open>A table of three cells for numbers under their residue; 7 collides with 4.\<close>

definition mod_hash :: "(nat, nat) HASH" where
  "mod_hash = \<lparr>getKey = (\<lambda>x. x), khash = of_nat, kcmp = (\<lambda>a b. if a = b then 0 else - 1),
     replaceQ = (\<lambda>_ _. False), eupdate = (\<lambda>v _. v)\<rparr>"

theorem table_insert_find_witness:
  "\<exists>TA'. insert_entry mod_hash 7 [None, Some 4, None] = Some (True, TA')
     \<and> find_entry mod_hash 7 TA' = Some (Some 7) \<and> find_entry mod_hash 4 TA' = Some (Some 4)"
proof -
  have f: "find_entry mod_hash 7 [None, Some 4, None] = Some None" "find_entry mod_hash 4 [None, Some 4, None] = Some (Some 4)"
    by (simp_all add: find_entry_def firstIndex_def hashToRange_def mod_hash_def find_probe.simps incrementIndex_def)
  have h: "unordered mod_hash" "table_ok [None, Some (4 :: nat), None]" "kcmp mod_hash (getKey mod_hash 7) (getKey mod_hash 7) = 0"
    "getKey mod_hash 7 = 7" by (simp_all add: unordered_def mod_hash_def table_ok_def)
  from table_insert_find [OF h(1-3)] f show ?thesis unfolding h(4) by auto
qed

end
