(* ===== verification/Code_Cache.thy ===== *)
theory Code_Cache
  imports Probe_Table Search_Task Jit_Props
begin

text \<open>
  The parser of \<open>parser.cc\<close>: it turns a search task into the two tasks of the search engine and
  compiles the constraints, taking a function from the cache \<open>Expr2Func\<close> when a constraint that
  \<open>recursive_equal\<close> identifies with the requested one has been compiled before.
\<close>

section \<open>Equality of requests\<close>

definition between :: "kind \<Rightarrow> kind \<Rightarrow> AstNode \<Rightarrow> bool" where
  "between lo hi n \<longleftrightarrow> kind_num lo \<le> kind_num (akind n) \<and> kind_num (akind n) \<le> kind_num hi"

fun recursive_equal :: "AstNode \<Rightarrow> AstNode \<Rightarrow> bool"
  and children_equal :: "AstNode list \<Rightarrow> AstNode list \<Rightarrow> bool" where
  "recursive_equal (AstNode k b w v i h cs l) (AstNode k' b' w' v' i' h' cs' l') =
     (let lhs = AstNode k b w v i h cs l; rhs = AstNode k' b' w' v' i' h' cs' l'
      in if between rgd_Ult rgd_Uge lhs \<and> between rgd_Ult rgd_Uge rhs then
           if length cs \<noteq> length cs' then False else children_equal cs cs'
         else if between rgd_Slt rgd_Sge lhs \<and> between rgd_Slt rgd_Sge rhs then
           if length cs \<noteq> length cs' then False else children_equal cs cs'
         else if between rgd_Equal rgd_Distinct lhs \<and> between rgd_Equal rgd_Distinct rhs then
           if length cs \<noteq> length cs' then False else children_equal cs cs'
         else if h \<noteq> h' then False
         else if k \<noteq> k' then False
         else if w \<noteq> w' then False
         else if length cs \<noteq> length cs' then False else children_equal cs cs')"
| "children_equal (c # cs) (d # ds) = (if \<not> recursive_equal c d then False else children_equal cs ds)"
| "children_equal _ _ = True"

definition isEqual :: "AstNode \<Rightarrow> AstNode \<Rightarrow> bool" where
  "isEqual lhs rhs = recursive_equal lhs rhs"

record myKV =
  req :: AstNode
  kfn :: test_fn

definition myHash :: "(myKV, AstNode) HASH" where
  "myHash = \<lparr>getKey = req, khash = ahash, kcmp = (\<lambda>v b. if isEqual v b then 0 else - 1),
     replaceQ = (\<lambda>_ _. False), eupdate = (\<lambda>v _. v)\<rparr>"

section \<open>Constraints and tasks\<close>

text \<open>\<open>insert\<close> of an \<open>unordered_map\<close>: an entry that exists is kept.\<close>

definition map_ins :: "'k \<times> 'v \<Rightarrow> ('k \<rightharpoonup> 'v) \<Rightarrow> 'k \<rightharpoonup> 'v" where
  "map_ins p m = (case m (fst p) of None \<Rightarrow> m(fst p \<mapsto> snd p) | Some _ \<Rightarrow> m)"

definition alist_ins :: "'k \<times> 'v \<Rightarrow> ('k \<times> 'v) list \<Rightarrow> ('k \<times> 'v) list" where
  "alist_ins p xs = (if fst p \<in> fst ` set xs then xs else xs @ [p])"

text \<open>
  \<open>append_meta\<close>. The list order of \<open>local_map\<close> stands for the iteration order of the map.
\<close>

definition append_meta :: "Cons \<Rightarrow> Constraint \<Rightarrow> Cons" where
  "append_meta cons c =
     (let m = cmeta c
      in cons\<lparr>local_map := fold alist_ins (meta_map m) (local_map cons),
              input_args := input_args cons @ meta_args m,
              cinputs := fold map_ins (map (\<lambda>(off, iv). (off, ucast iv)) (meta_inputs m)) (cinputs cons),
              cshape := fold map_ins (meta_shape m) (cshape cons),
              comparison := akind (cnode c), const_num := meta_const_num m\<rparr>)"

text \<open>\<open>std::make_shared<Cons>()\<close>; the function pointer, the comparison and the count are not initialised.\<close>

definition Cons_new :: "test_fn \<Rightarrow> kind \<Rightarrow> u32 \<Rightarrow> Cons" where
  "Cons_new f k n = \<lparr>fn = f, comparison = k, local_map = [], input_args = [], cinputs = Map.empty,
     cshape = Map.empty, const_num = n\<rparr>"

text \<open>The global variables of \<open>parser.cc\<close> and the functions added to the JIT.\<close>

record globals =
  cons_cache :: "u32 \<times> u32 \<rightharpoonup> Constraint"
  Expr2Func :: "myKV cells_array"
  uuid :: u64
  miss :: u64
  hit :: u64
  modules :: "u64 \<rightharpoonup> call list \<times> handle option"

text \<open>\<open>addFunction\<close> and \<open>performJit\<close> under a fresh name; \<open>jit\<close> is the execution of a function by LLVM.\<close>

type_synonym jit_engine = "call list \<times> handle option \<Rightarrow> test_fn"

definition performJit :: "jit_engine \<Rightarrow> u64 \<Rightarrow> globals \<Rightarrow> test_fn option" where
  "performJit jit i g = map_option jit (modules g i)"

definition compile_node ::
  "jit_engine \<Rightarrow> AstNode \<Rightarrow> (u32 \<times> u32) list \<Rightarrow> globals \<Rightarrow> (test_fn \<times> (u32 \<times> u32) list \<times> globals) option" where
  "compile_node jit n lm g =
     (let i = uuid g;
          (f, lm') = addFunction n lm;
          g' = g\<lparr>uuid := i + 1, modules := (modules g)(i \<mapsto> f)\<rparr>
      in case performJit jit i g' of None \<Rightarrow> None | Some t \<Rightarrow> Some (t, lm', g'))"

text \<open>The function of a constraint; \<open>None\<close> if a probe of the cache does not return.\<close>

definition cached_fn ::
  "jit_engine \<Rightarrow> bool \<Rightarrow> AstNode \<Rightarrow> (u32 \<times> u32) list \<Rightarrow> globals
     \<Rightarrow> (test_fn \<times> (u32 \<times> u32) list \<times> globals) option" where
  "cached_fn jit USE_CODECACHE n lm g =
     (if USE_CODECACHE then
        (case find_entry myHash n (Expr2Func g) of
           None \<Rightarrow> None
         | Some None \<Rightarrow>
             (case compile_node jit n lm (g\<lparr>miss := miss g + 1\<rparr>) of
                None \<Rightarrow> None
              | Some (t, lm', g') \<Rightarrow>
                  (case insert_entry myHash \<lparr>req = n, kfn = t\<rparr> (Expr2Func g') of
                     None \<Rightarrow> None
                   | Some (_, T) \<Rightarrow> Some (t, lm', g'\<lparr>Expr2Func := T\<rparr>)))
         | Some (Some kv) \<Rightarrow> Some (kfn kv, lm, g\<lparr>hit := hit g + 1\<rparr>))
      else compile_node jit n lm g)"

text \<open>The constraint of the turn \<open>i\<close> of the loop; \<open>None\<close> continues with the next one.\<close>

definition pick_constraint :: "SearchTask \<Rightarrow> nat \<Rightarrow> globals \<Rightarrow> Constraint option \<times> globals" where
  "pick_constraint task i g =
     (if i = 0 then
        (let c = tconstraints task ! 0
         in (Some c, g\<lparr>cons_cache := map_ins ((tfid task, clabel c), c) (cons_cache g)\<rparr>))
      else (cons_cache g (tfid task, clabel (tconstraints task ! i)), g))"

text \<open>The constraint objects of the tasks are shared, so they live in a store.\<close>

record 'r builder =
  glob :: globals
  cstore :: "nat \<Rightarrow> Cons"
  cnext :: nat
  bfut :: "'r FUT"
  bfut_opt :: "'r FUT"

definition push_constraint :: "nat \<Rightarrow> 'r FUT \<Rightarrow> 'r FUT" where
  "push_constraint r f = f\<lparr>constraints := constraints f @ [r]\<rparr>"

definition add_constraint ::
  "jit_engine \<Rightarrow> bool \<Rightarrow> Cons \<Rightarrow> nat \<Rightarrow> Constraint \<Rightarrow> 'r builder \<Rightarrow> 'r builder option" where
  "add_constraint jit use junk i c b =
     (if akind (cnode c) = rgd_Constant then Some b
      else
        (let cons = append_meta (Cons_new (fn junk) (comparison junk) (const_num junk)) c
         in case cached_fn jit use (cnode c) (local_map cons) (glob b) of
              None \<Rightarrow> None
            | Some (t, lm, g) \<Rightarrow>
                Some (b\<lparr>glob := g, cstore := (cstore b)(cnext b := cons\<lparr>local_map := lm, fn := t\<rparr>),
                        cnext := cnext b + 1, bfut := push_constraint (cnext b) (bfut b),
                        bfut_opt := (if i = 0 then push_constraint (cnext b) (bfut_opt b) else bfut_opt b)\<rparr>)))"

fun construct_loop ::
  "jit_engine \<Rightarrow> bool \<Rightarrow> Cons \<Rightarrow> SearchTask \<Rightarrow> nat list \<Rightarrow> 'r builder \<Rightarrow> 'r builder option" where
  "construct_loop jit use junk task [] b = Some b"
| "construct_loop jit use junk task (i # is) b =
     (case pick_constraint task i (glob b) of
        (None, g) \<Rightarrow> construct_loop jit use junk task is (b\<lparr>glob := g\<rparr>)
      | (Some c, g) \<Rightarrow>
          (case add_constraint jit use junk i c (b\<lparr>glob := g\<rparr>) of
             None \<Rightarrow> None
           | Some b' \<Rightarrow> construct_loop jit use junk task is b'))"

definition construct_task ::
  "jit_engine \<Rightarrow> bool \<Rightarrow> Cons \<Rightarrow> 'r alloc_env \<Rightarrow> 'r alloc_env \<Rightarrow> SearchTask \<Rightarrow> 'r builder \<Rightarrow> 'r builder option" where
  "construct_task jit use junk env env_opt task b =
     (case construct_loop jit use junk task [0..<length (tconstraints task)] b of
        None \<Rightarrow> None
      | Some b' \<Rightarrow>
          (let (st, f) = finalize env (cstore b') (bfut b');
               (st', f') = finalize env_opt st (bfut_opt b')
           in Some (b'\<lparr>cstore := st', bfut := f, bfut_opt := f'\<rparr>)))"

text \<open>The parser between two tasks: the globals, and the constraint objects allocated so far.\<close>

record parser =
  pglob :: globals
  pstore :: "nat \<Rightarrow> Cons"
  pnext :: nat

definition lookup_or_construct ::
  "jit_engine \<Rightarrow> bool \<Rightarrow> Cons \<Rightarrow> 'r SContext \<Rightarrow> iheap \<Rightarrow> 'r alloc_env \<Rightarrow> 'r alloc_env \<Rightarrow> SearchTask \<Rightarrow> parser
     \<Rightarrow> 'r builder option" where
  "lookup_or_construct jit use junk jctx h env env_opt task p =
     construct_task jit use junk env env_opt task
       \<lparr>glob = pglob p, cstore = pstore p, cnext = pnext p, bfut = FUT_new jctx h, bfut_opt = FUT_new jctx h\<rparr>"

definition addCons :: "SearchTask \<Rightarrow> globals \<Rightarrow> globals option" where
  "addCons task g =
     (case tconstraints task of
        [] \<Rightarrow> None
      | c # _ \<Rightarrow> Some (g\<lparr>cons_cache := map_ins ((tfid task, clabel c), c) (cons_cache g)\<rparr>))"

section \<open>The relation \<open>recursive_equal\<close> decides\<close>

text \<open>The three groups of comparisons that are not told apart; 0 for the other kinds.\<close>

definition cmp_group :: "kind \<Rightarrow> nat" where
  "cmp_group k =
     (if kind_num k \<in> {24..27} then 1 else if kind_num k \<in> {28..31} then 2
      else if kind_num k \<in> {22, 23} then 3 else 0)"

definition same_head :: "AstNode \<Rightarrow> AstNode \<Rightarrow> bool" where
  "same_head a b \<longleftrightarrow> cmp_group (akind a) = cmp_group (akind b)
     \<and> (cmp_group (akind a) = 0 \<longrightarrow> ahash a = ahash b \<and> akind a = akind b \<and> bits a = bits b)"

lemma between_group:
  "between rgd_Ult rgd_Uge n \<longleftrightarrow> cmp_group (akind n) = 1"
  "between rgd_Slt rgd_Sge n \<longleftrightarrow> cmp_group (akind n) = 2"
  "between rgd_Equal rgd_Distinct n \<longleftrightarrow> cmp_group (akind n) = 3"
  by (auto simp: between_def cmp_group_def)

lemma cmp_group_cases: "cmp_group k = 0 \<or> cmp_group k = 1 \<or> cmp_group k = 2 \<or> cmp_group k = 3"
  by (simp add: cmp_group_def)

lemma recursive_equal_iff:
  "recursive_equal a b \<longleftrightarrow> same_head a b \<and> length (children a) = length (children b) \<and> children_equal (children a) (children b)"
  using cmp_group_cases [of "akind a"]
  by (cases a; cases b) (auto simp: same_head_def between_group)

lemma children_equal_iff:
  "length cs = length ds \<Longrightarrow> children_equal cs ds \<longleftrightarrow> list_all2 recursive_equal cs ds"
  by (induction cs ds rule: list_induct2) simp_all

lemma recursive_equal_step:
  "recursive_equal a b \<longleftrightarrow> same_head a b \<and> list_all2 recursive_equal (children a) (children b)"
  by (metis recursive_equal_iff children_equal_iff list_all2_lengthD)

lemma same_head_refl: "same_head a a"
  by (simp add: same_head_def)

lemma same_head_sym: "same_head a b \<Longrightarrow> same_head b a"
  unfolding same_head_def by metis

lemma same_head_trans: "same_head a b \<Longrightarrow> same_head b c \<Longrightarrow> same_head a c"
  unfolding same_head_def by metis

lemma recursive_equal_refl: "recursive_equal a a"
proof (induction a)
  case (AstNode k b w v i h cs l)
  then show ?case
    unfolding recursive_equal_step [of "AstNode k b w v i h cs l"]
    by (simp add: same_head_refl list.rel_refl_strong del: recursive_equal.simps)
qed

lemma recursive_equal_sym: "recursive_equal a b \<Longrightarrow> recursive_equal b a"
proof (induction a arbitrary: b)
  case (AstNode k bo w v i h cs l)
  let ?a = "AstNode k bo w v i h cs l"
  have h: "same_head ?a b" "list_all2 recursive_equal cs (children b)"
    using AstNode.prems unfolding recursive_equal_step [of ?a b] by simp_all
  then have "list_all2 recursive_equal (children b) cs"
    using AstNode.IH by (simp add: list_all2_conv_all_nth)
  with same_head_sym [OF h(1)] show ?case unfolding recursive_equal_step [of b ?a] by simp
qed

lemma recursive_equal_trans: "recursive_equal a b \<Longrightarrow> recursive_equal b c \<Longrightarrow> recursive_equal a c"
proof (induction a arbitrary: b c)
  case (AstNode k bo w v i h cs l)
  let ?a = "AstNode k bo w v i h cs l"
  have h: "same_head ?a b" "list_all2 recursive_equal cs (children b)"
    using AstNode.prems(1) unfolding recursive_equal_step [of ?a b] by simp_all
  have g: "same_head b c" "list_all2 recursive_equal (children b) (children c)"
    using AstNode.prems(2) unfolding recursive_equal_step [of b c] by simp_all
  have "recursive_equal (cs ! j) (children c ! j)" if "j < length cs" for j
    by (rule AstNode.IH [OF nth_mem [OF that], of "children b ! j"])
      (use h(2) g(2) that in \<open>auto simp: list_all2_conv_all_nth\<close>)
  then have "list_all2 recursive_equal cs (children c)"
    using h(2) g(2) by (simp add: list_all2_conv_all_nth)
  with same_head_trans [OF h(1) g(1)] show ?case unfolding recursive_equal_step [of ?a c] by simp
qed

lemma myHash_simps [simp]:
  "getKey myHash = req" "khash myHash = ahash" "kcmp myHash a b = (if isEqual a b then 0 else - 1)"
  by (simp_all add: myHash_def)

lemma myHash_unordered: "unordered myHash"
  by (simp add: unordered_def myHash_def)

end
