(* ===== verification/Code_Share.thy ===== *)
theory Code_Share
  imports Code_Cache
begin

text \<open>
  When a function compiled for one request may serve another: the generated code depends on the
  slots of the leaves, the widths and the operators, not on the offsets, constants and labels.
\<close>

section \<open>Requests with the same code\<close>

text \<open>
  Trees that differ in constants, offsets, hashes and, along the renaming \<open>\<rho>\<close>, in labels only,
  with their leaves in the same slots.
\<close>

fun alike :: "(u32 \<Rightarrow> u32) \<Rightarrow> (u32 \<times> u32) list \<Rightarrow> (u32 \<times> u32) list \<Rightarrow> AstNode \<Rightarrow> AstNode \<Rightarrow> bool"
  and alikes :: "(u32 \<Rightarrow> u32) \<Rightarrow> (u32 \<times> u32) list \<Rightarrow> (u32 \<times> u32) list \<Rightarrow> AstNode list \<Rightarrow> AstNode list \<Rightarrow> bool" where
  "alike \<rho> lm lm' (AstNode k bo w v ix h cs l) (AstNode k' bo' w' v' ix' h' cs' l') \<longleftrightarrow>
     k' = k \<and> bo' = bo \<and> w' = w \<and> l' = \<rho> l
     \<and> (k = rgd_Constant \<or> k = rgd_Extract \<longrightarrow> ix' = ix)
     \<and> (k = rgd_Read \<longrightarrow> map_of lm ix \<noteq> None \<and> map_of lm' ix' = map_of lm ix)
     \<and> alikes \<rho> lm lm' cs cs'"
| "alikes \<rho> lm lm' (c # cs) (d # ds) \<longleftrightarrow> alike \<rho> lm lm' c d \<and> alikes \<rho> lm lm' cs ds"
| "alikes \<rho> lm lm' [] [] \<longleftrightarrow> True"
| "alikes \<rho> lm lm' _ _ \<longleftrightarrow> False"

text \<open>States of the generator with the same calls and the same cache up to the renaming.\<close>

definition like ::
  "(u32 \<Rightarrow> u32) \<Rightarrow> (u32 \<times> u32) list \<Rightarrow> (u32 \<times> u32) list \<Rightarrow> jstate \<Rightarrow> jstate \<Rightarrow> bool" where
  "like \<rho> lm lm' s s' \<longleftrightarrow> calls s = calls s' \<and> (\<forall>l. value_cache s l = value_cache s' (\<rho> l))
     \<and> lmap s = lm \<and> lmap s' = lm'"

definition out_like ::
  "(u32 \<Rightarrow> u32) \<Rightarrow> (u32 \<times> u32) list \<Rightarrow> (u32 \<times> u32) list \<Rightarrow> 'a \<times> jstate \<Rightarrow> 'a \<times> jstate \<Rightarrow> bool" where
  "out_like \<rho> lm lm' x y \<longleftrightarrow> fst x = fst y \<and> like \<rho> lm lm' (snd x) (snd y)"

lemma out_likeI: "r = r' \<Longrightarrow> like \<rho> lm lm' s s' \<Longrightarrow> out_like \<rho> lm lm' (r, s) (r', s')"
  by (simp add: out_like_def)

lemma out_like_some: "out_like \<rho> lm lm' x y \<Longrightarrow> out_like \<rho> lm lm' (apfst Some x) (apfst Some y)"
  by (simp add: out_like_def)

lemma out_like_bind:
  assumes "out_like \<rho> lm lm' x y" "\<And>r s s'. like \<rho> lm lm' s s' \<Longrightarrow> out_like \<rho> lm lm' (f r s) (f r s')"
  shows "out_like \<rho> lm lm' (case x of (r, s) \<Rightarrow> f r s) (case y of (r, s) \<Rightarrow> f r s)"
  using assms by (cases x; cases y) (simp add: out_like_def)

lemma emit_like [intro]: "like \<rho> lm lm' s s' \<Longrightarrow> out_like \<rho> lm lm' (emit c s) (emit c s')"
  by (simp add: emit_def out_like_def like_def)

lemma gen_load_like: "like \<rho> lm lm' s s' \<Longrightarrow> out_like \<rho> lm lm' (gen_load a s) (gen_load a s')"
  by (simp add: gen_load_def emit_def out_like_def like_def)

lemma gen_bytes_like:
  "like \<rho> lm lm' s s' \<Longrightarrow> out_like \<rho> lm lm' (gen_bytes st k n r s) (gen_bytes st k n r s')"
proof (induction n arbitrary: k r s s')
  case (Suc n)
  show ?case
    unfolding gen_bytes.simps Let_def
    by (intro out_like_bind gen_load_like emit_like Suc.IH Suc.prems)
qed (simp add: out_likeI)

lemma gen_Read_like:
  assumes "like \<rho> lm lm' s s'" "map_of lm ix = Some a" "map_of lm' ix' = Some a"
  shows "out_like \<rho> lm lm' (gen_Read ix w s) (gen_Read ix' w s')"
proof -
  have i: "lmap_index ix s = (a, s)" "lmap_index ix' s' = (a, s')"
    using assms by (simp_all add: lmap_index_def like_def)
  show ?thesis
    unfolding gen_Read_def i Let_def prod.case
    by (intro out_like_bind gen_load_like gen_bytes_like emit_like assms(1))
qed

lemma gen_Constant_like: "like \<rho> lm lm' s s' \<Longrightarrow> out_like \<rho> lm lm' (gen_Constant ix w s) (gen_Constant ix w s')"
  by (simp add: gen_Constant_def gen_load_def emit_def out_like_def like_def)

lemma gen_unary_like:
  "like \<rho> lm lm' s s' \<Longrightarrow> (k = rgd_Extract \<Longrightarrow> ix' = ix) \<Longrightarrow> out_like \<rho> lm lm' (gen_unary k ix w r s) (gen_unary k ix' w r s')"
  by (cases k) (simp_all add: gen_unary_def gen_Extract_def emit_def out_like_def like_def)

lemma gen_cmp_like: "like \<rho> lm lm' s s' \<Longrightarrow> out_like \<rho> lm lm' (gen_cmp k c1 c2 s) (gen_cmp k c1 c2 s')"
  by (cases k) (simp_all add: cmp_defs out_like_def like_def)

lemma gen_binary_like:
  assumes "like \<rho> lm lm' s s'"
  shows "out_like \<rho> lm lm' (gen_binary k w w1 w2 c1 c2 s) (gen_binary k w w1 w2 c1 c2 s')"
proof -
  have "out_like \<rho> lm lm' (gen_Concat w1 w2 c1 c2 s) (gen_Concat w1 w2 c1 c2 s')"
    "out_like \<rho> lm lm' (gen_div k w c1 c2 s) (gen_div k w c1 c2 s')"
    using assms by (simp_all add: gen_Concat_def gen_div_def emit_def Let_def out_like_def like_def)
  with assms show ?thesis
    by (simp add: gen_binary_def out_like_some emit_like gen_cmp_like out_likeI)
qed

lemma cache_ret_like:
  assumes "out_like \<rho> lm lm' x y" "inj \<rho>" "\<rho> 0 = 0"
  shows "out_like \<rho> lm lm' (cache_ret l x) (cache_ret (\<rho> l) y)"
proof -
  have z: "\<rho> l = 0 \<longleftrightarrow> l = 0" for l using assms(2,3) by (metis injD)
  obtain r s s' where x: "x = (r, s)" "y = (r, s')" "like \<rho> lm lm' s s'"
    using assms(1) by (cases x; cases y) (simp add: out_like_def)
  show ?thesis
    using x(3) by (cases r) (auto simp: x(1,2) z out_like_def like_def inj_eq [OF assms(2)])
qed

text \<open>The generator does the same on trees that are alike.\<close>

lemma out_like_opt:
  assumes "out_like \<rho> lm lm' x y" "\<And>r s s'. like \<rho> lm lm' s s' \<Longrightarrow> out_like \<rho> lm lm' (f r s) (g r s')"
  shows "out_like \<rho> lm lm' (case x of (None, s) \<Rightarrow> (None, s) | (Some r, s) \<Rightarrow> f r s)
    (case y of (None, s) \<Rightarrow> (None, s) | (Some r, s) \<Rightarrow> g r s)"
proof -
  obtain r s s' where "x = (r, s)" "y = (r, s')" "like \<rho> lm lm' s s'"
    using assms(1) by (cases x; cases y) (simp add: out_like_def)
  with assms(2) show ?thesis by (cases r) (simp_all add: out_likeI)
qed

lemma alike_bits: "alike \<rho> lm lm' n n' \<Longrightarrow> bits n' = bits n"
  by (cases n; cases n') simp

lemma alikes_split:
  "alikes \<rho> lm lm' cs ds \<Longrightarrow> cs = [] \<and> ds = [] \<or>
     (\<exists>c cs' d ds'. cs = c # cs' \<and> ds = d # ds' \<and> alike \<rho> lm lm' c d \<and> alikes \<rho> lm lm' cs' ds')"
  by (cases cs; cases ds) simp_all

definition node_body :: "kind \<Rightarrow> bool \<Rightarrow> u32 \<Rightarrow> u32 \<Rightarrow> AstNode list \<Rightarrow> jstate \<Rightarrow> handle option \<times> jstate" where
  "node_body k bo w ix cs s =
     (if k = rgd_Bool then (Some (CInt 1 (of_bool bo)), s)
      else if k = rgd_Constant then apfst Some (gen_Constant ix w s)
      else if k = rgd_Read then apfst Some (gen_Read ix w s)
      else if unary_kind k then
        (case cs of
           [] \<Rightarrow> (None, s)
         | c # _ \<Rightarrow> (case codegen c s of (None, s1) \<Rightarrow> (None, s1) | (Some r, s1) \<Rightarrow> gen_unary k ix w r s1))
      else if binary_kind k then
        (case cs of
           c1 # c2 # _ \<Rightarrow>
             (case codegen c1 s of (None, s1) \<Rightarrow> (None, s1)
              | (Some r1, s1) \<Rightarrow>
                  (case codegen c2 s1 of (None, s2) \<Rightarrow> (None, s2)
                   | (Some r2, s2) \<Rightarrow> gen_binary k w (bits c1) (bits c2) r1 r2 s2))
         | _ \<Rightarrow> (None, s))
      else (None, s))"

lemma codegen_body:
  "codegen (AstNode k bo w v ix h cs l) s =
     (case (if l \<noteq> 0 then value_cache s l else None) of
        Some r \<Rightarrow> (Some r, s) | None \<Rightarrow> cache_ret l (node_body k bo w ix cs s))"
  unfolding codegen.simps node_body_def ..

lemma unary_body_like:
  assumes "like \<rho> lm lm' s s'" "k = rgd_Extract \<longrightarrow> ix' = ix" "alikes \<rho> lm lm' cs cs'"
    and "\<And>c d s s'. c \<in> set cs \<Longrightarrow> alike \<rho> lm lm' c d \<Longrightarrow> like \<rho> lm lm' s s' \<Longrightarrow> out_like \<rho> lm lm' (codegen c s) (codegen d s')"
  shows "out_like \<rho> lm lm'
    (case cs of [] \<Rightarrow> (None, s) | c # _ \<Rightarrow> (case codegen c s of (None, s1) \<Rightarrow> (None, s1) | (Some r, s1) \<Rightarrow> gen_unary k ix w r s1))
    (case cs' of [] \<Rightarrow> (None, s') | c # _ \<Rightarrow> (case codegen c s' of (None, s1) \<Rightarrow> (None, s1) | (Some r, s1) \<Rightarrow> gen_unary k ix' w r s1))"
proof (cases cs)
  case Nil
  then have "cs' = []" using assms(3) by (cases cs') simp_all
  with Nil show ?thesis by (simp add: out_likeI assms(1))
next
  case (Cons c cs1)
  then obtain d cs2 where d: "cs' = d # cs2" "alike \<rho> lm lm' c d" using alikes_split [OF assms(3)] by auto
  have "out_like \<rho> lm lm' (codegen c s) (codegen d s')" using assms(4) [OF _ d(2) assms(1)] Cons by simp
  then show ?thesis
    unfolding Cons d(1) list.case by (rule out_like_opt) (rule gen_unary_like, simp_all add: assms(2))
qed

lemma binary_body_like:
  assumes "like \<rho> lm lm' s s'" "alikes \<rho> lm lm' cs cs'"
    and "\<And>c d s s'. c \<in> set cs \<Longrightarrow> alike \<rho> lm lm' c d \<Longrightarrow> like \<rho> lm lm' s s' \<Longrightarrow> out_like \<rho> lm lm' (codegen c s) (codegen d s')"
  shows "out_like \<rho> lm lm'
    (case cs of c1 # c2 # _ \<Rightarrow> (case codegen c1 s of (None, s1) \<Rightarrow> (None, s1) | (Some r1, s1) \<Rightarrow>
        (case codegen c2 s1 of (None, s2) \<Rightarrow> (None, s2) | (Some r2, s2) \<Rightarrow> gen_binary k w (bits c1) (bits c2) r1 r2 s2))
      | _ \<Rightarrow> (None, s))
    (case cs' of c1 # c2 # _ \<Rightarrow> (case codegen c1 s' of (None, s1) \<Rightarrow> (None, s1) | (Some r1, s1) \<Rightarrow>
        (case codegen c2 s1 of (None, s2) \<Rightarrow> (None, s2) | (Some r2, s2) \<Rightarrow> gen_binary k w (bits c1) (bits c2) r1 r2 s2))
      | _ \<Rightarrow> (None, s'))"
proof -
  consider "cs = []" "cs' = []" | c d where "cs = [c]" "cs' = [d]"
    | (two) c1 c2 cs1 d1 d2 cs2 where "cs = c1 # c2 # cs1" "cs' = d1 # d2 # cs2" "alike \<rho> lm lm' c1 d1" "alike \<rho> lm lm' c2 d2"
    using assms(2) alikes_split by metis
  then show ?thesis
  proof cases
    case two
    have "out_like \<rho> lm lm' (codegen c1 s) (codegen d1 s')" using assms(3) [OF _ two(3) assms(1)] two(1) by simp
    moreover have "out_like \<rho> lm lm' (codegen c2 s1) (codegen d2 s1')" if "like \<rho> lm lm' s1 s1'" for s1 s1'
      using assms(3) [OF _ two(4) that] two(1) by simp
    ultimately show ?thesis
      unfolding two(1,2) list.case alike_bits [OF two(3)] alike_bits [OF two(4)]
      by (intro out_like_opt gen_binary_like)
  qed (simp_all add: out_likeI assms(1))
qed

lemma codegen_like:
  assumes "inj \<rho>" "\<rho> 0 = 0"
  shows "alike \<rho> lm lm' n n' \<Longrightarrow> like \<rho> lm lm' s s' \<Longrightarrow> out_like \<rho> lm lm' (codegen n s) (codegen n' s')"
proof (induction n arbitrary: n' s s')
  case (AstNode k bo w v ix h cs l)
  have z: "\<rho> l = 0 \<longleftrightarrow> l = 0" using assms by (metis injD)
  obtain v' ix' h' cs' where n': "n' = AstNode k bo w v' ix' h' cs' (\<rho> l)"
    and ix: "k = rgd_Constant \<longrightarrow> ix' = ix" "k = rgd_Extract \<longrightarrow> ix' = ix"
      "k = rgd_Read \<longrightarrow> map_of lm ix \<noteq> None \<and> map_of lm' ix' = map_of lm ix"
    and cs: "alikes \<rho> lm lm' cs cs'"
    using AstNode.prems(1) by (cases n') auto
  note s = AstNode.prems(2)
  have vc: "(if \<rho> l \<noteq> 0 then value_cache s' (\<rho> l) else None) = (if l \<noteq> 0 then value_cache s l else None)"
    using s z by (simp add: like_def)
  have c: "k = rgd_Constant \<Longrightarrow> out_like \<rho> lm lm' (gen_Constant ix w s) (gen_Constant ix' w s')"
    using ix(1) gen_Constant_like [OF s] by simp
  have r: "k = rgd_Read \<Longrightarrow> out_like \<rho> lm lm' (gen_Read ix w s) (gen_Read ix' w s')"
    using ix(3) gen_Read_like [OF s] by auto
  have "out_like \<rho> lm lm' (node_body k bo w ix cs s) (node_body k bo w ix' cs' s')"
    unfolding node_body_def
    using unary_body_like [OF s ix(2) cs AstNode.IH] binary_body_like [OF s cs AstNode.IH] c r
    by (simp add: out_likeI s out_like_some)
  from cache_ret_like [OF this assms, of l] show ?case
    unfolding n' codegen_body vc using s
    by (cases "if l \<noteq> 0 then value_cache s l else None") (simp_all only: option.case out_likeI)
qed

lemma addFunction_alike:
  assumes "inj \<rho>" "\<rho> 0 = 0" "alike \<rho> lm lm' n n'"
  shows "fst (addFunction n lm) = fst (addFunction n' lm')"
proof -
  have "like \<rho> lm lm' \<lparr>calls = [], value_cache = Map.empty, lmap = lm\<rparr> \<lparr>calls = [], value_cache = Map.empty, lmap = lm'\<rparr>"
    by (simp add: like_def)
  from codegen_like [OF assms this] show ?thesis
    by (simp add: addFunction_def out_like_def like_def case_prod_beta)
qed

section \<open>What a function computes for a request\<close>

text \<open>The operands of the comparison, extended to 64 bits, in the first two slots.\<close>

definition computes :: "test_fn \<Rightarrow> AstNode \<Rightarrow> (u32 \<times> u32) list \<Rightarrow> bool" where
  "computes t n lm \<longleftrightarrow> (\<forall>m w a b. jit_request m lm n \<longrightarrow>
     ast_val jit_corner (cells m lm) (children n ! 0) = Some (w, a) \<longrightarrow>
     ast_val jit_corner (cells m lm) (children n ! 1) = Some (w, b) \<longrightarrow>
     fst (t m) = m[0 := ext64 (akind n) w a, 1 := ext64 (akind n) w b])"

lemma jit_computes:
  assumes "follows_langref jit"
  shows "computes (jit (fst (addFunction n lm))) n lm"
  unfolding computes_def
proof (intro allI impI)
  fix m w a b
  assume r: "jit_request m lm n" "ast_val jit_corner (cells m lm) (children n ! 0) = Some (w, a)"
    "ast_val jit_corner (cells m lm) (children n ! 1) = Some (w, b)"
  obtain f where f: "addFunction n lm = (f, lm)"
    "run_fn f m = Some (m[0 := ext64 (akind n) w a, 1 := ext64 (akind n) w b],
        jit_dist (akind n) (ext64 (akind n) w a) (ext64 (akind n) w b))"
    by (rule jit_request_run [OF r])
  have "jit f m = (m[0 := ext64 (akind n) w a, 1 := ext64 (akind n) w b],
      jit_dist (akind n) (ext64 (akind n) w a) (ext64 (akind n) w b))"
    using assms f(2) unfolding follows_langref_def by blast
  then show "fst (jit (fst (addFunction n lm)) m) = m[0 := ext64 (akind n) w a, 1 := ext64 (akind n) w b]"
    by (simp add: f(1))
qed

text \<open>
  The function of the request \<open>n0\<close> may serve \<open>n\<close>: comparisons of one group, which extend their
  operands in the same way, with operands that are alike.
\<close>

definition serves :: "(u32 \<times> u32) list \<Rightarrow> AstNode \<Rightarrow> (u32 \<times> u32) list \<Rightarrow> AstNode \<Rightarrow> bool" where
  "serves lm0 n0 lm n \<longleftrightarrow> relational (akind n0) \<and> cmp_group (akind n0) = cmp_group (akind n)
     \<and> (\<exists>\<rho>. inj \<rho> \<and> \<rho> 0 = 0 \<and> alikes \<rho> lm0 lm (children n0) (children n))"

lemma cmp_group_relational: "relational k \<longleftrightarrow> cmp_group k \<noteq> 0"
  by (cases k) (simp_all add: relational_def cmp_group_def)

lemma cmp_group_signed: "signed_kind k \<longleftrightarrow> cmp_group k = 2"
  by (cases k) (simp_all add: signed_kind_def cmp_group_def)

lemma shared_computes:
  assumes "follows_langref jit" "serves lm0 n0 lm n"
  shows "computes (jit (fst (addFunction n0 lm0))) n lm"
proof -
  from assms(2) obtain \<rho> where \<rho>: "inj \<rho>" "\<rho> 0 = 0" "alikes \<rho> lm0 lm (children n0) (children n)"
    and g: "relational (akind n0)" "cmp_group (akind n0) = cmp_group (akind n)" unfolding serves_def by blast
  obtain k bo w v ix h cs l where n0: "n0 = AstNode k bo w v ix h cs l" by (cases n0)
  define n1 where "n1 = AstNode k bo w v ix h (children n) (\<rho> l)"
  have rel: "relational k" "relational (akind n)" "signed_kind k \<longleftrightarrow> signed_kind (akind n)"
    using g by (simp_all add: n0 cmp_group_relational cmp_group_signed)
  have "alike \<rho> lm0 lm n0 n1"
    using \<rho> rel(1) by (auto simp: n0 n1_def relational_def)
  from addFunction_alike [OF \<rho>(1,2) this] have f: "fst (addFunction n0 lm0) = fst (addFunction n1 lm)" .
  have "jit_request m lm n \<longleftrightarrow> jit_request m lm n1" for m
    using rel by (simp add: jit_request_def n1_def)
  moreover have "ext64 (akind n) = ext64 (akind n1)" using rel(3) by (simp add: ext64_def n1_def fun_eq_iff)
  moreover have "children n1 = children n" by (simp add: n1_def)
  ultimately show ?thesis
    using jit_computes [OF assms(1), of n1 lm] by (simp add: computes_def f)
qed

section \<open>The cache as a memo table\<close>

text \<open>
  What the parser relies on: a lookup returns an entry with an equivalent key, an insertion adds
  one entry and takes one free cell.
\<close>

locale memo_table =
  fixes look :: "'k \<Rightarrow> 't \<Rightarrow> 'e option option" and put :: "'e \<Rightarrow> 't \<Rightarrow> (bool \<times> 't) option"
    and elems :: "'t \<Rightarrow> 'e set" and key :: "'e \<Rightarrow> 'k" and eqv :: "'k \<Rightarrow> 'k \<Rightarrow> bool" and free :: "'t \<Rightarrow> nat"
  assumes look_ok: "0 < free t \<Longrightarrow> \<exists>r. look k t = Some r \<and> (\<forall>e. r = Some e \<longrightarrow> e \<in> elems t \<and> eqv k (key e))"
    and put_new: "0 < free t \<Longrightarrow> look (key e) t = Some None \<Longrightarrow>
      \<exists>t'. put e t = Some (True, t') \<and> elems t' = insert e (elems t) \<and> free t = Suc (free t')"
begin

lemma memo_cases:
  assumes "0 < free t" "\<forall>e \<in> elems t. eqv k (key e) \<longrightarrow> P e"
  obtains (hit) e where "look k t = Some (Some e)" "e \<in> elems t" "P e"
  | (miss) "look k t = Some None"
proof -
  from look_ok [OF assms(1)] obtain r where r: "look k t = Some r" "\<forall>e. r = Some e \<longrightarrow> e \<in> elems t \<and> eqv k (key e)" by blast
  with assms(2) that show thesis by (cases r) auto
qed

lemma memo_insert:
  assumes "0 < free t" "look (key e) t = Some None"
  obtains t' where "put e t = Some (True, t')" "elems t' = insert e (elems t)" "free t = Suc (free t')"
  using put_new [OF assms] by blast

end

definition cache_entries :: "myKV cells_array \<Rightarrow> myKV set" where
  "cache_entries T = {e. Some e \<in> set T}"

text \<open>The empty cells of a table whose size a 32-bit hash can address.\<close>

definition free_cells :: "myKV cells_array \<Rightarrow> nat" where
  "free_cells T = (if length T < 2 ^ 32 then length (filter Option.is_none T) else 0)"

lemma free_cells_pos: "0 < free_cells T \<longleftrightarrow> table_ok T"
  by (auto simp: free_cells_def table_ok_def filter_empty_conv Option.is_none_def)

lemma fill_entries:
  assumes "j < length T" "T ! j = None"
  shows "cache_entries (T[j := Some e]) = insert e (cache_entries T)"
proof -
  have "Some x \<in> set (T[j := Some e]) \<longleftrightarrow> x = e \<or> Some x \<in> set T" for x
    using assms by (auto simp: in_set_conv_nth nth_list_update) (metis option.distinct(1))+
  then show ?thesis by (auto simp: cache_entries_def)
qed

lemma fill_free:
  assumes "j < length T" "T ! j = None" "table_ok T"
  shows "free_cells T = Suc (free_cells (T[j := Some e]))"
proof -
  have "T = take j T @ None # drop (Suc j) T" using id_take_nth_drop [OF assms(1)] assms(2) by simp
  then have "filter Option.is_none T = filter Option.is_none (take j T) @ None # filter Option.is_none (drop (Suc j) T)"
    by (metis filter.simps(2) filter_append is_none_code(1))
  moreover have "filter Option.is_none (T[j := Some e]) = filter Option.is_none (take j T) @ filter Option.is_none (drop (Suc j) T)"
    using assms(1) by (simp add: upd_conv_take_nth_drop)
  ultimately show ?thesis using assms(3) by (simp add: free_cells_def table_ok_def)
qed

interpretation jc: memo_table "find_entry myHash" "insert_entry myHash" cache_entries req isEqual free_cells
proof
  fix t :: "myKV cells_array" and k assume "0 < free_cells t"
  then have "table_ok t" by (simp only: free_cells_pos)
  from find_entry_returns [OF myHash_unordered this, of k] obtain r where
    "find_entry myHash k t = Some r" "\<And>c. r = Some c \<Longrightarrow> Some c \<in> set t \<and> kcmp myHash k (getKey myHash c) = 0" by blast
  then show "\<exists>r. find_entry myHash k t = Some r \<and> (\<forall>e. r = Some e \<longrightarrow> e \<in> cache_entries t \<and> isEqual k (req e))"
    by (intro exI [of _ r]) (auto simp: cache_entries_def split: if_splits)
next
  fix t :: "myKV cells_array" and e :: myKV assume "0 < free_cells t" and n: "find_entry myHash (req e) t = Some None"
  then have t: "table_ok t" by (simp only: free_cells_pos)
  from myHash_unordered t show "\<exists>t'. insert_entry myHash e t = Some (True, t') \<and> cache_entries t' = insert e (cache_entries t)
    \<and> free_cells t = Suc (free_cells t')"
  proof (cases rule: insert_entry_cases [where v = e])
    case (found c)
    with n show ?thesis by simp
  next
    case (new i p)
    have "probe_at (length t) i p < length t" using new(4) by (intro probe_at_less) linarith
    from fill_entries [OF this new(7)] fill_free [OF this new(7) t] new(1) show ?thesis by blast
  qed
qed

section \<open>Properties\<close>

text \<open>
  The cache fits a request: every entry holds the function compiled for its key, and a key that
  \<open>isEqual\<close> identifies with the request may serve it.
\<close>

definition cache_fits :: "jit_engine \<Rightarrow> AstNode \<Rightarrow> (u32 \<times> u32) list \<Rightarrow> globals \<Rightarrow> bool" where
  "cache_fits jit n lm g \<longleftrightarrow> (\<forall>e \<in> cache_entries (Expr2Func g).
     \<exists>lm0. kfn e = jit (fst (addFunction (req e) lm0)) \<and> (isEqual n (req e) \<longrightarrow> serves lm0 (req e) lm n))"

lemma compile_node_eq:
  "compile_node jit n lm g = Some (jit (fst (addFunction n lm)), snd (addFunction n lm),
     g\<lparr>uuid := uuid g + 1, modules := (modules g)(uuid g \<mapsto> fst (addFunction n lm))\<rparr>)"
  by (simp add: compile_node_def performJit_def Let_def case_prod_beta)

text \<open>What a request does: the function obtained, the entries of the cache and its free cells.\<close>

lemma cached_fn_ok:
  assumes "follows_langref jit" "use \<Longrightarrow> 0 < free_cells (Expr2Func g)" "use \<Longrightarrow> cache_fits jit n lm g"
  obtains t lm' g' where "cached_fn jit use n lm g = Some (t, lm', g')" "computes t n lm"
    "lm' = lm \<or> lm' = snd (addFunction n lm)" "cons_cache g' = cons_cache g"
    "cache_entries (Expr2Func g') \<subseteq> insert \<lparr>req = n, kfn = jit (fst (addFunction n lm))\<rparr> (cache_entries (Expr2Func g))"
    "free_cells (Expr2Func g) \<le> Suc (free_cells (Expr2Func g'))"
proof (cases "use")
  case False
  let ?f = "addFunction n lm"
  show thesis
    by (rule that [of "jit (fst ?f)" "snd ?f" "g\<lparr>uuid := uuid g + 1, modules := (modules g)(uuid g \<mapsto> fst ?f)\<rparr>"])
      (use False jit_computes [OF assms(1)] in \<open>auto simp: cached_fn_def compile_node_eq\<close>)
next
  case True
  let ?P = "\<lambda>e. computes (kfn e) n lm" and ?e = "\<lparr>req = n, kfn = jit (fst (addFunction n lm))\<rparr>"
  note room = assms(2) [OF True]
  have "\<forall>e \<in> cache_entries (Expr2Func g). isEqual n (req e) \<longrightarrow> ?P e"
    using assms(3) [OF True] shared_computes [OF assms(1)] unfolding cache_fits_def by metis
  with room show thesis
  proof (cases rule: jc.memo_cases [where k = n and P = ?P])
    case (hit e)
    show thesis
      by (rule that [of "kfn e" lm "g\<lparr>hit := hit g + 1\<rparr>"]) (use True hit in \<open>auto simp: cached_fn_def\<close>)
  next
    case miss
    obtain T where T: "insert_entry myHash ?e (Expr2Func g) = Some (True, T)"
      "cache_entries T = insert ?e (cache_entries (Expr2Func g))" "free_cells (Expr2Func g) = Suc (free_cells T)"
      by (rule jc.memo_insert [OF room, of ?e]) (use miss in simp_all)
    let ?f = "addFunction n lm"
    show thesis
      by (rule that [of "jit (fst ?f)" "snd ?f" "g\<lparr>miss := globals.miss g + 1, uuid := uuid g + 1,
            modules := (modules g)(uuid g \<mapsto> fst ?f), Expr2Func := T\<rparr>"])
        (use True miss T jit_computes [OF assms(1), of n lm] in \<open>simp_all add: cached_fn_def compile_node_eq\<close>)
  qed
qed

text \<open>
  C11. With or without the code cache the parser obtains a function that computes the operands of
  the requested comparison, as long as the cache has an empty cell and fits the request; the
  cache gains at most the entry for this request.
\<close>

theorem cached_fn_computes:
  assumes "follows_langref jit" "table_ok (Expr2Func g)" "cache_fits jit n lm g"
  shows "\<exists>t lm' g'. cached_fn jit use n lm g = Some (t, lm', g') \<and> computes t n lm
    \<and> cache_entries (Expr2Func g') \<subseteq> insert \<lparr>req = n, kfn = jit (fst (addFunction n lm))\<rparr> (cache_entries (Expr2Func g))"
  by (rule cached_fn_ok [OF assms(1), of "use" g n lm]) (use assms(2,3) in \<open>auto simp: free_cells_pos\<close>)

text \<open>
  A cache with the function of \<open>x < 300\<close> for the field at offset 3, and a request \<open>x \<le> 25\<close> for
  the field at offset 9.
\<close>

definition other_request :: AstNode where
  "other_request = AstNode rgd_Ule False 1 [] 0 5
     [AstNode rgd_Read False 16 [] 9 0 [] 17, AstNode rgd_Constant False 16 ''25'' 2 0 [] 0] 18"

definition warm_cache :: globals where
  "warm_cache = \<lparr>cons_cache = Map.empty,
     Expr2Func = [None, None, Some \<lparr>req = sample_request, kfn = ref_jit (fst (addFunction sample_request [(3, 0)]))\<rparr>],
     uuid = 1, miss = 1, hit = 0, modules = Map.empty\<rparr>"

lemma other_served: "serves [(3, 0)] sample_request [(9, 0)] other_request"
  unfolding serves_def
  by (auto simp: sample_request_def other_request_def sample_read_def sample_const_def relational_def cmp_group_def
      inj_def intro!: exI [of _ "\<lambda>l. if l = 7 then 17 else if l = 17 then 7 else l"] split: if_splits)

theorem cached_fn_computes_witness:
  "\<exists>t lm' g'. cached_fn ref_jit True other_request [(9, 0)] warm_cache = Some (t, lm', g')
     \<and> computes t other_request [(9, 0)]"
proof -
  have "table_ok (Expr2Func warm_cache)" by (simp add: table_ok_def warm_cache_def)
  moreover have "cache_fits ref_jit other_request [(9, 0)] warm_cache"
    using other_served by (auto simp: cache_fits_def cache_entries_def warm_cache_def)
  ultimately show ?thesis
    using cached_fn_computes [OF ref_jit_follows, of warm_cache other_request "[(9, 0)]" True] by blast
qed

text \<open>
  C38. What \<open>isEqual\<close> compares does not decide whether a function may be reused: it ignores the
  bit position of an extraction, and the analyzer gives nodes with one child no hash. Two
  requests for different bytes of one field share the function of the first, which then stores
  the wrong operand for the second.
\<close>

definition byte_request :: "u32 \<Rightarrow> AstNode" where
  "byte_request i = AstNode rgd_Equal False 1 [] 0 5
     [AstNode rgd_Extract False 8 [] i 0 [sample_read] 0, AstNode rgd_Constant False 8 ''2'' 2 2 [] 0] 0"

definition cold_cache :: globals where
  "cold_cache = \<lparr>cons_cache = Map.empty, Expr2Func = Table_new 3, uuid = 0, miss = 0, hit = 0, modules = Map.empty\<rparr>"

theorem code_cache_confuses:
  assumes "follows_langref jit"
  shows "\<exists>t lm1 lm2 g1 g2. cached_fn jit True (byte_request 0) [(3, 0)] cold_cache = Some (t, lm1, g1)
    \<and> cached_fn jit True (byte_request 8) [(3, 0)] g1 = Some (t, lm2, g2)
    \<and> fst (t [0, 0, 44, 2, 2]) ! 0 = 44
    \<and> ast_val jit_corner (cells [0, 0, 44, 2, 2] [(3, 0)]) (children (byte_request 8) ! 0) = Some (8, 2)"
proof -
  let ?m = "[0, 0, 44, 2, 2]" and ?t = "jit (fst (addFunction (byte_request 0) [(3, 0)]))"
  have eq: "isEqual (byte_request 8) (byte_request 0)"
    by (simp add: isEqual_def byte_request_def between_def sample_read_def)
  have rd: "ast_val jit_corner (cells ?m [(3, 0)]) sample_read = Some (16, 556)"
    by (simp add: sample_read_def leaf_val_def cells_def cell_def sum_two)
  have c: "dec_val ''2'' = Some 2" by (simp add: dec_val_def digit_def of_char_def)
  have v: "ast_val jit_corner (cells ?m [(3, 0)]) (children (byte_request i) ! 0) = un_val rgd_Extract 8 (unat i) 16 556"
    "ast_val jit_corner (cells ?m [(3, 0)]) (children (byte_request i) ! 1) = Some (8, 2)" for i
    by (simp_all add: byte_request_def rd leaf_val_def c)
  have req: "jit_request ?m [(3, 0)] (byte_request 0)"
    by (simp add: jit_request_def byte_request_def sample_read_def relational_def jit_node_def slot_ok_def labels_agree_def c)
  have "fst (?t ?m) = ?m[0 := ext64 rgd_Equal 8 44, 1 := ext64 rgd_Equal 8 2]"
    using jit_computes [OF assms, of "byte_request 0" "[(3, 0)]", unfolded computes_def, rule_format, OF req, of 8 44 2]
    by (simp add: v un_val_def) (simp add: byte_request_def leaf_val_def c)
  then have t: "fst (?t ?m) ! 0 = 44" by (simp add: ext64_def signed_kind_def)
  have f: "find_entry myHash (byte_request 0) (Table_new 3) = Some None"
    "insert_entry myHash \<lparr>req = byte_request 0, kfn = ?t\<rparr> (Table_new 3) = Some (True, [None, None, Some \<lparr>req = byte_request 0, kfn = ?t\<rparr>])"
    "find_entry myHash (byte_request 8) [None, None, Some \<lparr>req = byte_request 0, kfn = ?t\<rparr>] = Some (Some \<lparr>req = byte_request 0, kfn = ?t\<rparr>)"
    using eq by (simp_all add: find_entry_def insert_entry_def firstIndex_def hashToRange_def Table_new_def numeral_3_eq_3
        find_probe.simps insert_probe.simps byte_request_def)
  show ?thesis
    using t v(1) [of 8] by (simp add: cached_fn_def compile_node_eq cold_cache_def f un_val_def)
qed

theorem code_cache_confuses_witness:
  "\<exists>t lm1 lm2 g1 g2. cached_fn ref_jit True (byte_request 0) [(3, 0)] cold_cache = Some (t, lm1, g1)
    \<and> cached_fn ref_jit True (byte_request 8) [(3, 0)] g1 = Some (t, lm2, g2) \<and> fst (t [0, 0, 44, 2, 2]) ! 0 = 44"
  using code_cache_confuses [OF ref_jit_follows] by blast

end
