(* ===== verification/Field_Values.thy ===== *)
theory Field_Values
  imports Jit_Props Gd_Result
begin

text \<open>
  From cells to bytes: a read of the constraint language has the same value on the cells of the
  search and on the bytes of the solution, provided it reads a whole field of the task.
\<close>

section \<open>Reads decide the value of a tree\<close>

lemma ast_val_reads_cong:
  assumes "\<forall>x \<in> set (nodes n). akind x = rgd_Read \<longrightarrow>
    rd (index x) (width x div 8) mod 2 ^ width x = rd' (index x) (width x div 8) mod 2 ^ width x"
  shows "ast_val co rd n = ast_val co rd' n"
  using assms
proof (induction n)
  case (AstNode k bo w v ix h cs l)
  have IH: "c \<in> set cs \<Longrightarrow> ast_val co rd c = ast_val co rd' c" for c
    using AstNode.IH [of c] AstNode.prems by auto
  have leaf: "leaf_val rd k bo (unat w) v ix = leaf_val rd' k bo (unat w) v ix"
    using AstNode.prems by (cases k) (simp_all add: leaf_val_def)
  consider "cs = []" | c where "cs = [c]" | c1 c2 where "cs = [c1, c2]" | c1 c2 c3 cs' where "cs = c1 # c2 # c3 # cs'"
    by (metis list.exhaust)
  then show ?case by cases (simp_all add: IH leaf split: option.split)
qed

section \<open>Bytes of a word\<close>

lemma byte_sum:
  "(\<Sum>j < n. unat (ucast (drop_bit (8 * j) x) :: u8) * 256 ^ j) = unat (x :: u64) mod 2 ^ (8 * n)"
proof (induction n)
  case (Suc n)
  have b: "unat (ucast (drop_bit (8 * n) x) :: u8) = unat x div 2 ^ (8 * n) mod 256"
  proof -
    have "unat (drop_bit (8 * n) x) = unat x div 2 ^ (8 * n)"
      by (subst unat_drop_bit_eq) (rule drop_bit_eq_div)
    then show ?thesis by (simp add: unsigned_ucast_eq take_bit_eq_mod)
  qed
  have "unat x mod 2 ^ (8 * Suc n) = unat x mod (2 ^ (8 * n) * 256)"
    by (simp add: power_add mult.commute)
  also have "\<dots> = 2 ^ (8 * n) * (unat x div 2 ^ (8 * n) mod 256) + unat x mod 2 ^ (8 * n)"
    by (simp add: mod_mult2_eq)
  finally have "unat x mod 2 ^ (8 * Suc n) = unat x mod 2 ^ (8 * n) + (unat x div 2 ^ (8 * n) mod 256) * 2 ^ (8 * n)"
    by (simp only: add.commute mult.commute)
  moreover have "(256 :: nat) ^ n = 2 ^ (8 * n)" by (simp add: power_mult)
  ultimately show ?case by (simp only: sum.lessThan_Suc Suc.IH b)
qed simp

text \<open>The bytes of a field of at most eight cells have the value of its cells at the width of the field.\<close>

lemma field_bytes:
  assumes "cl \<noteq> []" "length cl \<le> 8"
  shows "(\<Sum>j < length cl. unat (ucast (drop_bit (8 * j) (field_value cl)) :: u8) * 256 ^ j) mod 2 ^ (8 * length cl) =
    (\<Sum>j < length cl. unat (cl ! j) * 256 ^ j) mod 2 ^ (8 * length cl)"
proof -
  have d: "(2 :: nat) ^ (8 * length cl) dvd 2 ^ 64" using assms(2) by (intro le_imp_power_dvd) simp
  have "unat (field_value cl) = (\<Sum>j < length cl. unat (cl ! j) * 256 ^ j) mod 2 ^ 64"
    unfolding field_value_sum [OF assms(1)] by (simp only: unat_of_nat) simp
  then show ?thesis unfolding byte_sum mod_mod_trivial by (simp only: mod_mod_cancel [OF d])
qed

section \<open>The fields of a task\<close>

text \<open>Where the fields lie does not depend on the values of the cells.\<close>

definition spans :: "(u32 \<times> u64 list) list \<Rightarrow> (u32 \<times> nat) list" where
  "spans fs = map (\<lambda>(s, cl). (s, length cl)) fs"

lemma fields_spans:
  "map fst xs = map fst ys \<Longrightarrow> spans (fields sh xs) = spans (fields sh ys)"
proof (induction sh xs arbitrary: ys rule: fields.induct)
  case (2 sh s v rest)
  then obtain u rest' where ys: "ys = (s, u) # rest'" "map fst rest = map fst rest'" by (cases ys) auto
  have len: "length rest = length rest'" using ys(2) by (metis length_map)
  have "map fst (drop k rest) = map fst (drop k rest')" for k using ys(2) by (metis drop_map)
  with 2 ys len show ?case by (simp add: Let_def spans_def)
qed (simp add: spans_def)

lemma aligned_keys: "map fst xs = map fst ys \<Longrightarrow> aligned sh xs = aligned sh ys"
proof (induction sh xs arbitrary: ys rule: aligned.induct)
  case (2 sh s v rest)
  then obtain u rest' where ys: "ys = (s, u) # rest'" "map fst rest = map fst rest'" by (cases ys) auto
  have len: "length rest = length rest'" using ys(2) by (metis length_map)
  have "map fst (drop k rest) = map fst (drop k rest')" "map fst (take k rest) = map fst (take k rest')" for k
    using ys(2) by (metis drop_map, metis take_map)
  with 2 ys len show ?case by (simp add: Let_def)
qed simp

lemma ordered_keys:
  assumes "distinct (map fst ins)"
  shows "map fst (ordered_inputs ins vals) = map fst (ordered_inputs ins vals')"
proof (rule sorted_distinct_set_unique)
  show "sorted (map fst (ordered_inputs ins vals))" "sorted (map fst (ordered_inputs ins vals'))"
    using ordered_inputs_spec(1) [OF assms] strict_sorted_imp_sorted by blast+
  show "distinct (map fst (ordered_inputs ins vals))" "distinct (map fst (ordered_inputs ins vals'))"
    using ordered_inputs_distinct [OF assms] by blast+
  show "set (map fst (ordered_inputs ins vals)) = set (map fst (ordered_inputs ins vals'))"
    using ordered_inputs_spec(2) [OF assms] by simp
qed

text \<open>The fields of a task, and that its shape cuts the inputs into them.\<close>

definition task_fields :: "'r FUT \<Rightarrow> (u32 \<times> nat) list" where
  "task_fields f = spans (fields (shape f) (ordered_inputs (inputs f) (map (\<lambda>_. 0) (inputs f))))"

definition task_aligned :: "'r FUT \<Rightarrow> bool" where
  "task_aligned f \<longleftrightarrow> aligned (shape f) (ordered_inputs (inputs f) (map (\<lambda>_. 0) (inputs f)))"

text \<open>A field of the task as the solution has it.\<close>

lemma solution_field:
  assumes "distinct (map fst (inputs f))" "task_aligned f" "(off, n) \<in> set (task_fields f)" "n \<le> 8"
    and "\<And>j. j < n \<Longrightarrow> pos j < length (inputs f) \<and> fst (inputs f ! pos j) = off + of_nat j"
  shows "bytes_val (\<lambda>o'. case result_of f vals o' of None \<Rightarrow> seed o' | Some b \<Rightarrow> b) off n mod 2 ^ (8 * n) =
    (\<Sum>j < n. unat (vals ! pos j) * 256 ^ j) mod 2 ^ (8 * n)"
proof (cases "n = 0")
  case False
  let ?o = "ordered_inputs (inputs f) vals"
  have al: "aligned (shape f) ?o"
    using assms(2) aligned_keys [OF ordered_keys [OF assms(1)]] unfolding task_aligned_def by blast
  have "(off, n) \<in> set (spans (fields (shape f) ?o))"
    using assms(3) fields_spans [OF ordered_keys [OF assms(1)]] unfolding task_fields_def by metis
  then obtain cl where cl: "(off, cl) \<in> set (fields (shape f) ?o)" "length cl = n" by (auto simp: spans_def)
  have byte: "result_of f vals (off + of_nat j) = Some (ucast (drop_bit (8 * j) (field_value cl)))"
    and cell: "cl ! j = vals ! pos j" if "j < n" for j
  proof -
    note r = result_of_field [OF assms(1) al cl(1), of j]
    with that cl(2) show "result_of f vals (off + of_nat j) = Some (ucast (drop_bit (8 * j) (field_value cl)))" by simp
    from r that cl(2) obtain i where i: "i < length (inputs f)" "fst (inputs f ! i) = off + of_nat j" "cl ! j = vals ! i" by auto
    then have "map fst (inputs f) ! i = map fst (inputs f) ! pos j" using assms(5) [OF that] by simp
    then have "i = pos j"
      using assms(1) i(1) assms(5) [OF that] nth_eq_iff_index_eq [of "map fst (inputs f)" i "pos j"] by simp
    with i(3) show "cl ! j = vals ! pos j" by simp
  qed
  have "bytes_val (\<lambda>o'. case result_of f vals o' of None \<Rightarrow> seed o' | Some b \<Rightarrow> b) off n =
      (\<Sum>j < length cl. unat (ucast (drop_bit (8 * j) (field_value cl)) :: u8) * 256 ^ j)"
    unfolding bytes_val_def cl(2) by (rule sum.cong) (simp_all add: byte)
  moreover have "(\<Sum>j < n. unat (vals ! pos j) * 256 ^ j) = (\<Sum>j < length cl. unat (cl ! j) * 256 ^ j)"
    unfolding cl(2) by (rule sum.cong) (simp_all add: cell)
  moreover have "cl \<noteq> []" using False cl(2) by auto
  ultimately show ?thesis using field_bytes [of cl] cl(2) assms(4) by simp
qed simp

end
