(* ===== verification/Rgd_Interface.thy ===== *)
theory Rgd_Interface
  imports Code_Cache Gd_Search Pc_Queue "HOL-Library.Multiset"
begin

text \<open>
  The interface between the fuzzer and the solver thread (\<open>interface.cc\<close>, \<open>util.cc\<close>): the tasks
  that come in, the thread that solves them, the solutions that go out and the input files they
  are applied to. An exception, a write outside an array or a loop that does not end is the
  value \<open>None\<close>.
\<close>

section \<open>Files and buffers\<close>

text \<open>
  What the operating system does with a file name: the bytes a successful \<open>open\<close> and \<open>fstat\<close>
  give, and whether a file may be created. \<open>mmap\<close> refuses an empty file.
\<close>

record files =
  contents_of :: "string \<rightharpoonup> u8 list"
  creatable :: "string \<Rightarrow> bool"

definition map_file :: "files \<Rightarrow> string \<Rightarrow> u8 list option" where
  "map_file fs name = (case contents_of fs name of None \<Rightarrow> None | Some bs \<Rightarrow> if bs = [] then None else Some bs)"

text \<open>\<open>std::to_string\<close> of an unsigned number, and the padded file names.\<close>

fun to_string :: "nat \<Rightarrow> string" where
  "to_string n = (if n < 10 then [] else to_string (n div 10)) @ [char_of (48 + n mod 10)]"

declare to_string.simps [simp del]

definition padded :: "nat \<Rightarrow> nat \<Rightarrow> string option" where
  "padded w n =
     (let old_string = to_string n
      in if w < length old_string then None else Some (replicate (w - length old_string) (CHR ''0'') @ old_string))"

definition seed_name :: "u32 \<Rightarrow> string option" where
  "seed_name i = map_option (\<lambda>p. ''corpus/angora/queue/id:'' @ p) (padded 6 (unat i))"

definition output_name :: "string \<Rightarrow> u32 \<Rightarrow> string option" where
  "output_name outputDir i = map_option (\<lambda>p. outputDir @ ''/'' @ ''id-'' @ p) (padded 8 (unat i))"

text \<open>The seed is copied to the start of the buffer; the size comes back as a 32-bit number.\<close>

definition load_input_file :: "files \<Rightarrow> string \<Rightarrow> u8 list \<Rightarrow> (u32 \<times> u8 list) option" where
  "load_input_file fs name input =
     (case map_file fs name of
        None \<Rightarrow> Some (0, input)
      | Some src \<Rightarrow>
          if length input < length src then None
          else Some (of_nat (length src), src @ drop (length src) input))"

text \<open>Writing the bytes of a solution, with and without the check against the size of the seed.\<close>

fun write_all :: "(u32 \<times> u8) list \<Rightarrow> u8 list \<Rightarrow> u8 list option" where
  "write_all [] dst = Some dst"
| "write_all ((off, b) # sol) dst =
     (if unat off < length dst then write_all sol (dst[unat off := b]) else None)"

fun write_below :: "u32 \<Rightarrow> (u32 \<times> u8) list \<Rightarrow> u8 list \<Rightarrow> u8 list option" where
  "write_below sz [] dst = Some dst"
| "write_below sz ((off, b) # sol) dst =
     (if off < sz then
        if unat off < length dst then write_below sz sol (dst[unat off := b]) else None
      else write_below sz sol dst)"

text \<open>A file that cannot be read or created is reported and skipped.\<close>

definition generate_input :: "(u32 \<times> u8) list \<Rightarrow> string \<Rightarrow> string \<Rightarrow> u32 \<Rightarrow> files \<Rightarrow> files option" where
  "generate_input sol taint_file outputDir i fs =
     (case output_name outputDir i of
        None \<Rightarrow> None
      | Some output_file \<Rightarrow>
          (case map_file fs taint_file of
             None \<Rightarrow> Some fs
           | Some src \<Rightarrow>
               if \<not> creatable fs output_file then Some fs
               else (case write_all sol src of
                       None \<Rightarrow> None
                     | Some dst \<Rightarrow> Some (fs\<lparr>contents_of := (contents_of fs)(output_file \<mapsto> dst)\<rparr>))))"

section \<open>The state of the interface\<close>

text \<open>A solution with the bytes in the order in which the map that holds them is traversed.\<close>

record RGDSolution =
  sol :: "(u32 \<times> u8) list"
  sfid :: u32
  saddr :: u64
  sctx :: u64
  sorder :: u32
  sdirection :: u64

record iface =
  solution_queue :: "RGDSolution list"
  higher_solution_queue :: "RGDSolution list"
  incoming_tasks1 :: "(SearchTask \<times> bool) pcq"
  incoming_tasks_higher :: "(SearchTask \<times> bool) pcq"
  SAVING_WHOLE :: bool
  USE_CODECACHE :: bool
  next_fid :: u64
  pars :: parser
  fsys :: files

text \<open>
  What the solver takes from the libraries below it: the execution of compiled functions, the
  traversal order of a map, uninitialised memory and the random numbers.
\<close>

record 'r solver_env =
  e_jit :: jit_engine
  e_iter :: "solution \<Rightarrow> (u32 \<times> u8) list"
  e_cons :: Cons
  e_ctx :: "'r SContext"
  e_heap :: iheap
  e_env :: "'r alloc_env"
  e_env_opt :: "'r alloc_env"
  e_rnd :: "'r \<Rightarrow> 'r \<times> 32 word"

definition mk_solution :: "SearchTask \<Rightarrow> (u32 \<times> u8) list \<Rightarrow> RGDSolution" where
  "mk_solution task s = \<lparr>sol = s, sfid = tfid task, saddr = taddr task, sctx = tctx task,
     sorder = torder task, sdirection = tdirection task\<rparr>"

definition seed_file :: string where
  "seed_file = ''/home/cju/fastgen/test/seed''"

definition out_dir :: string where
  "out_dir = ''/home/cju/test''"

definition save_one :: "(u32 \<times> u8) list \<Rightarrow> iface \<Rightarrow> iface option" where
  "save_one s st =
     (case generate_input s seed_file out_dir (ucast (next_fid st)) (fsys st) of
        None \<Rightarrow> None
      | Some fs \<Rightarrow> Some (st\<lparr>fsys := fs, next_fid := next_fid st + 1\<rparr>))"

fun save_all :: "(u32 \<times> u8) list list \<Rightarrow> iface \<Rightarrow> iface option" where
  "save_all [] st = Some st"
| "save_all (s # ss) st = (case save_one s st of None \<Rightarrow> None | Some st' \<Rightarrow> save_all ss st')"

section \<open>The solver thread\<close>

text \<open>
  The search of one task: first for the constraint that is to be flipped alone, then, if that
  has a solution, for all constraints.
\<close>

definition solve_task :: "'r solver_env \<Rightarrow> bool \<Rightarrow> SearchTask \<Rightarrow> parser \<Rightarrow> ('r FUT \<times> 'r FUT \<times> parser) option" where
  "solve_task e use task p =
     (case lookup_or_construct (e_jit e) use (e_cons e) (e_ctx e) (e_heap e) (e_env e) (e_env_opt e) task p of
        None \<Rightarrow> None
      | Some b \<Rightarrow>
          (let p' = \<lparr>pglob = glob b, pstore = cstore b, pnext = cnext b\<rparr>
           in case gd_search (e_rnd e) (map (cstore b) (constraints (bfut_opt b))) (bfut_opt b) of
                None \<Rightarrow> None
              | Some (_, fut_opt) \<Rightarrow>
                  if rgd_solutions fut_opt \<noteq> [] then
                    (case gd_search (e_rnd e) (map (cstore b) (constraints (bfut b))) (bfut b) of
                       None \<Rightarrow> None
                     | Some (_, fut) \<Rightarrow> Some (fut, fut_opt, p'))
                  else Some (bfut b, fut_opt, p')))"

text \<open>What becomes of the solutions; the solution of the disabled SMT back end is empty.\<close>

definition publish :: "'r solver_env \<Rightarrow> SearchTask \<Rightarrow> 'r FUT \<Rightarrow> 'r FUT \<Rightarrow> iface \<Rightarrow> iface option" where
  "publish e task fut fut_opt st =
     (if \<not> SAVING_WHOLE st then
        Some (st\<lparr>higher_solution_queue := higher_solution_queue st
                   @ map (mk_solution task \<circ> e_iter e) (rgd_solutions fut),
                 solution_queue := solution_queue st
                   @ map (mk_solution task \<circ> e_iter e) (partial_solutions fut)\<rparr>)
      else save_all (map (e_iter e) (rgd_solutions fut @ rgd_solutions fut_opt @ partial_solutions fut)) st)"

text \<open>
  One turn of the loop of \<open>handle_task\<close>; without a task the thread keeps polling. A read that
  fails after the test would leave a null task, which the parser dereferences: \<open>None\<close>.
\<close>

definition handle_task :: "'r solver_env \<Rightarrow> iface \<Rightarrow> iface option" where
  "handle_task e st =
     (if isEmpty (incoming_tasks_higher st) then Some st
      else (case pcq_read (incoming_tasks_higher st) of
              None \<Rightarrow> None
            | Some (None, q) \<Rightarrow> None
            | Some (Some (task, solve), q) \<Rightarrow>
                (case solve_task e (USE_CODECACHE st) task (pars st) of
                   None \<Rightarrow> None
                 | Some (fut, fut_opt, p) \<Rightarrow>
                     publish e task fut fut_opt (st\<lparr>incoming_tasks_higher := q, pars := p\<rparr>))))"

section \<open>The entry points\<close>

definition handle_fmemcmp :: "u8 list \<Rightarrow> u64 \<Rightarrow> u32 \<Rightarrow> u32 \<Rightarrow> u64 \<Rightarrow> iface \<Rightarrow> iface option" where
  "handle_fmemcmp data ix sz tid addr st =
     (if length data < unat sz then None
      else (let s = map (\<lambda>i. (ucast ix + of_nat i, data ! i)) [0..<unat sz]
            in if SAVING_WHOLE st then save_one s st
               else Some (st\<lparr>solution_queue := solution_queue st @
                      [\<lparr>sol = s, sfid = tid, saddr = addr, sctx = 0, sorder = 0, sdirection = 0\<rparr>]\<rparr>)))"

definition submit_fmemcmp :: "u8 list \<Rightarrow> u64 \<Rightarrow> u32 \<Rightarrow> u32 \<Rightarrow> u64 \<Rightarrow> iface \<Rightarrow> iface option" where
  "submit_fmemcmp data ix sz tid addr st = handle_fmemcmp data ix sz tid addr st"

definition get_queue_length :: "iface \<Rightarrow> u32" where
  "get_queue_length st = ucast (sizeGuess (incoming_tasks1 st))"

text \<open>\<open>submit_task\<close>; \<open>parse\<close> is the decoder of the message. A task that does not fit is dropped.\<close>

definition submit_task :: "('m \<Rightarrow> SearchTask) \<Rightarrow> 'm \<Rightarrow> bool \<Rightarrow> iface \<Rightarrow> iface" where
  "submit_task parse input solve st =
     st\<lparr>incoming_tasks_higher := snd (pcq_write (parse input, solve) (incoming_tasks_higher st))\<rparr>"

definition init :: "bool \<Rightarrow> bool \<Rightarrow> iface \<Rightarrow> iface" where
  "init saving_whole use_codecache st = st\<lparr>SAVING_WHOLE := saving_whole, USE_CODECACHE := use_codecache\<rparr>"

text \<open>
  \<open>get_next_input\<close>: the size, the buffer and the branch of the next solution. The parameter
  \<open>dq\<close> takes an element out of a concurrent queue.
\<close>

type_synonym dequeue = "RGDSolution list \<Rightarrow> (RGDSolution \<times> RGDSolution list) option"

definition get_next_input :: "dequeue \<Rightarrow> u8 list \<Rightarrow> iface \<Rightarrow> (u32 \<times> u8 list \<times> RGDSolution option \<times> iface) option" where
  "get_next_input dq input st =
     (case dq (higher_solution_queue st) of
        Some (item, q) \<Rightarrow>
          (case seed_name (sfid item) of
             None \<Rightarrow> None
           | Some input_file \<Rightarrow>
               (case load_input_file (fsys st) input_file input of
                  None \<Rightarrow> None
                | Some (sz, buf) \<Rightarrow>
                    (case write_all (sol item) buf of
                       None \<Rightarrow> None
                     | Some buf' \<Rightarrow> Some (sz, buf', Some item, st\<lparr>higher_solution_queue := q\<rparr>))))
      | None \<Rightarrow>
          (case dq (solution_queue st) of
             Some (item, q) \<Rightarrow>
               (case seed_name (sfid item) of
                  None \<Rightarrow> None
                | Some input_file \<Rightarrow>
                    (case load_input_file (fsys st) input_file input of
                       None \<Rightarrow> None
                     | Some (sz, buf) \<Rightarrow>
                         (case write_below sz (sol item) buf of
                            None \<Rightarrow> None
                          | Some buf' \<Rightarrow> Some (sz, buf', Some item, st\<lparr>solution_queue := q\<rparr>))))
           | None \<Rightarrow> Some (0, input, None, st)))"

section \<open>Applying a solution\<close>

text \<open>The bytes of an input with a solution applied.\<close>

definition patched :: "solution \<Rightarrow> (u32 \<Rightarrow> u8) \<Rightarrow> u32 \<Rightarrow> u8" where
  "patched s seed off = (case s off of None \<Rightarrow> seed off | Some b \<Rightarrow> b)"

text \<open>A traversal visits every entry of a map once.\<close>

definition iterates :: "(solution \<Rightarrow> (u32 \<times> u8) list) \<Rightarrow> bool" where
  "iterates it \<longleftrightarrow> (\<forall>s. map_of (it s) = s \<and> distinct (map fst (it s)))"

text \<open>A queue gives out an element that is in it and keeps the others.\<close>

definition dequeues :: "dequeue \<Rightarrow> bool" where
  "dequeues dq \<longleftrightarrow> (\<forall>q. case dq q of None \<Rightarrow> q = [] | Some (x, r) \<Rightarrow> mset q = add_mset x (mset r))"

lemma write_all_spec:
  assumes "distinct (map fst s)" "\<forall>(off, b) \<in> set s. unat off < length dst"
  shows "\<exists>out. write_all s dst = Some out \<and> length out = length dst
    \<and> (\<forall>i < length dst. i < 2 ^ 32 \<longrightarrow> out ! i = (case map_of s (of_nat i) of None \<Rightarrow> dst ! i | Some b \<Rightarrow> b))"
  using assms
proof (induction s dst rule: write_all.induct)
  case (2 off b s dst)
  have "unat off < length dst" using 2(3) by simp
  moreover have "\<forall>(off', b') \<in> set s. unat off' < length (dst[unat off := b])" using 2(3) by simp
  ultimately obtain out where out: "write_all s (dst[unat off := b]) = Some out" "length out = length dst"
    "\<forall>i < length dst. i < 2 ^ 32 \<longrightarrow> out ! i = (case map_of s (of_nat i) of None \<Rightarrow> dst[unat off := b] ! i | Some b \<Rightarrow> b)"
    using "2.IH" 2(2) by auto
  have none: "map_of s off = None" using 2(2) by (simp add: map_of_eq_None_iff)
  have "out ! i = (case map_of ((off, b) # s) (of_nat i) of None \<Rightarrow> dst ! i | Some b \<Rightarrow> b)"
    if "i < length dst" "i < 2 ^ 32" for i
  proof (cases "of_nat i = off")
    case True
    then have "unat off = i" using that(2) by (auto simp: unat_of_nat)
    with True none out(3) that show ?thesis by simp
  next
    case False
    then have "unat off \<noteq> i" by auto
    with False out(3) that show ?thesis by (simp split: option.split)
  qed
  with out \<open>unat off < length dst\<close> show ?case by simp
qed simp

lemma write_all_fails:
  "(off, b) \<in> set s \<Longrightarrow> length dst \<le> unat off \<Longrightarrow> write_all s dst = None"
  by (induction s dst rule: write_all.induct) auto

lemma length_to_string: "length (to_string n) \<le> k \<longleftrightarrow> 0 < k \<and> n < 10 ^ k"
proof (induction k arbitrary: n)
  case 0
  show ?case by (subst to_string.simps) simp
next
  case (Suc k)
  have "n div 10 < 10 ^ k \<longleftrightarrow> n < 10 ^ Suc k" by (simp add: div_less_iff_less_mult mult.commute)
  moreover have "n < 10 \<Longrightarrow> n < 10 ^ Suc k" by (rule order_less_le_trans [of _ 10]) simp_all
  moreover have "\<not> n < 10 \<Longrightarrow> n < 10 ^ Suc k \<Longrightarrow> 0 < k" by (cases k) simp_all
  ultimately show ?case by (subst to_string.simps) (auto simp: Suc.IH)
qed

lemma seed_name_defined: "(\<exists>name. seed_name i = Some name) \<longleftrightarrow> unat i < 1000000"
  using length_to_string [of "unat i" 6] by (auto simp: seed_name_def padded_def Let_def not_less)

lemma dequeues_cases:
  assumes "dequeues dq"
  obtains "q = []" "dq q = None" | x r where "dq q = Some (x, r)" "mset q = add_mset x (mset r)"
proof -
  from assms have d: "case dq q of None \<Rightarrow> q = [] | Some (x, r) \<Rightarrow> mset q = add_mset x (mset r)" by (simp add: dequeues_def)
  show thesis
  proof (cases "dq q")
    case None
    with d that(1) show thesis by simp
  next
    case (Some p)
    with d that(2) show thesis by (cases p) simp
  qed
qed

section \<open>Properties\<close>

text \<open>A solution that can be delivered: its seed exists, fits the buffer and has all the bytes it names.\<close>

definition deliverable :: "files \<Rightarrow> u8 list \<Rightarrow> RGDSolution \<Rightarrow> u8 list \<Rightarrow> bool" where
  "deliverable fs input item src \<longleftrightarrow>
     (case seed_name (sfid item) of None \<Rightarrow> False | Some name \<Rightarrow> map_file fs name = Some src)
     \<and> length src \<le> length input \<and> length src < 2 ^ 32
     \<and> distinct (map fst (sol item)) \<and> (\<forall>(off, b) \<in> set (sol item). unat off < length src)"

lemma patched_buffer:
  assumes "deliverable fs input item src"
  obtains name buf buf' where "seed_name (sfid item) = Some name"
    "load_input_file fs name input = Some (of_nat (length src), buf)" "write_all (sol item) buf = Some buf'"
    "take (length src) buf' = map (\<lambda>i. patched (map_of (sol item)) (\<lambda>off. src ! unat off) (of_nat i)) [0..<length src]"
    "length buf' = length input"
proof -
  let ?n = "length src"
  from assms obtain name where name: "seed_name (sfid item) = Some name" "map_file fs name = Some src"
    unfolding deliverable_def by (auto split: option.splits)
  from assms have d: "?n \<le> length input" "?n < 2 ^ 32" "distinct (map fst (sol item))"
    "\<forall>(off, b) \<in> set (sol item). unat off < ?n" unfolding deliverable_def by blast+
  let ?buf = "src @ drop ?n input"
  have load: "load_input_file fs name input = Some (of_nat ?n, ?buf)"
    using name(2) d(1) by (simp add: load_input_file_def)
  have "\<forall>(off, b) \<in> set (sol item). unat off < length ?buf" using d(4) by fastforce
  from write_all_spec [OF d(3) this] obtain buf' where buf': "write_all (sol item) ?buf = Some buf'"
    "length buf' = length ?buf" "\<forall>i < length ?buf. i < 2 ^ 32 \<longrightarrow>
      buf' ! i = (case map_of (sol item) (of_nat i) of None \<Rightarrow> ?buf ! i | Some b \<Rightarrow> b)" by blast
  have "take ?n buf' = map (\<lambda>i. patched (map_of (sol item)) (\<lambda>off. src ! unat off) (of_nat i)) [0..<?n]"
  proof (rule nth_equalityI)
    fix i assume "i < length (take ?n buf')"
    then have i: "i < ?n" by simp
    then have "unat (of_nat i :: u32) = i" using d(2) by (simp add: unat_of_nat)
    moreover have "buf' ! i = (case map_of (sol item) (of_nat i) of None \<Rightarrow> src ! i | Some b \<Rightarrow> b)"
      using buf'(3) i d(2) by (simp add: nth_append split: option.split)
    ultimately show "take ?n buf' ! i = map (\<lambda>i. patched (map_of (sol item)) (\<lambda>off. src ! unat off) (of_nat i)) [0..<?n] ! i"
      using i by (simp add: patched_def split: option.split)
  qed (use buf'(2) d(1) in simp)
  with that [OF name(1) load buf'(1)] buf'(2) d(1) show thesis by simp
qed

text \<open>An idle solver whose corpus has the same three bytes in every file, and its queue.\<close>

definition idle_globals :: globals where
  "idle_globals = \<lparr>cons_cache = Map.empty, Expr2Func = Table_new 3, uuid = 0, miss = 0, hit = 0, modules = Map.empty\<rparr>"

definition no_tasks :: "(SearchTask \<times> bool) pcq" where
  "no_tasks = \<lparr>qsize = 3, records = replicate 3 None, readIndex = 0, writeIndex = 0\<rparr>"

definition idle_iface :: iface where
  "idle_iface = \<lparr>solution_queue = [], higher_solution_queue = [], incoming_tasks1 = no_tasks,
     incoming_tasks_higher = no_tasks, SAVING_WHOLE = False, USE_CODECACHE = False, next_fid = 0,
     pars = \<lparr>pglob = idle_globals, pstore = (\<lambda>_. Cons_new (\<lambda>m. (m, 0)) rgd_Bool 0), pnext = 0\<rparr>,
     fsys = \<lparr>contents_of = (\<lambda>_. Some [1, 2, 3]), creatable = (\<lambda>_. True)\<rparr>\<rparr>"

definition fifo_dequeue :: dequeue where
  "fifo_dequeue q = (case q of [] \<Rightarrow> None | x # r \<Rightarrow> Some (x, r))"

lemma fifo_dequeues: "dequeues fifo_dequeue"
  by (simp add: dequeues_def fifo_dequeue_def split: list.split)

definition sample_solution :: "u32 \<Rightarrow> (u32 \<times> u8) list \<Rightarrow> RGDSolution" where
  "sample_solution i s = \<lparr>sol = s, sfid = i, saddr = 0, sctx = 0, sorder = 0, sdirection = 0\<rparr>"

text \<open>
  C13. A solution of the search that can be delivered is handed to the fuzzer before any other
  one: the buffer receives the seed with exactly the bytes of the solution replaced, together
  with the branch it was computed for, and the solution leaves the queue.
\<close>

theorem get_next_input_patches:
  assumes "dequeues dq" "higher_solution_queue st \<noteq> []"
    and "\<forall>item \<in> set (higher_solution_queue st). deliverable (fsys st) input item (seed item)"
  shows "\<exists>item q buf. get_next_input dq input st =
      Some (of_nat (length (seed item)), buf, Some item, st\<lparr>higher_solution_queue := q\<rparr>)
    \<and> mset (higher_solution_queue st) = add_mset item (mset q) \<and> length buf = length input
    \<and> take (length (seed item)) buf =
        map (\<lambda>i. patched (map_of (sol item)) (\<lambda>off. seed item ! unat off) (of_nat i)) [0..<length (seed item)]"
proof -
  obtain item q where q: "dq (higher_solution_queue st) = Some (item, q)"
    "mset (higher_solution_queue st) = add_mset item (mset q)"
    by (rule dequeues_cases [OF assms(1), of "higher_solution_queue st"]) (use assms(2) in auto)
  have "item \<in> set (higher_solution_queue st)" using q(2) by (metis set_mset_mset union_single_eq_member)
  with assms(3) have "deliverable (fsys st) input item (seed item)" by blast
  then obtain name buf buf' where b: "seed_name (sfid item) = Some name"
    "load_input_file (fsys st) name input = Some (of_nat (length (seed item)), buf)" "write_all (sol item) buf = Some buf'"
    "take (length (seed item)) buf' =
       map (\<lambda>i. patched (map_of (sol item)) (\<lambda>off. seed item ! unat off) (of_nat i)) [0..<length (seed item)]"
    "length buf' = length input"
    by (rule patched_buffer)
  have "get_next_input dq input st =
      Some (of_nat (length (seed item)), buf', Some item, st\<lparr>higher_solution_queue := q\<rparr>)"
    by (simp add: get_next_input_def q(1) b(1-3))
  with q(2) b(4,5) show ?thesis by blast
qed

theorem get_next_input_patches_witness:
  "\<exists>st buf. get_next_input fifo_dequeue [0, 0, 0, 0]
      (idle_iface\<lparr>higher_solution_queue := [sample_solution 5 [(1, 9)]]\<rparr>) =
        Some (3, buf, Some (sample_solution 5 [(1, 9)]), st) \<and> take 3 buf = [1, 9, 3]"
proof -
  obtain name where "seed_name 5 = Some name" using seed_name_defined [of 5] by auto
  then have d: "deliverable (fsys idle_iface) [0, 0, 0, 0] (sample_solution 5 [(1, 9)]) [1, 2, 3]"
    by (simp add: deliverable_def sample_solution_def map_file_def idle_iface_def)
  with get_next_input_patches [OF fifo_dequeues, of "idle_iface\<lparr>higher_solution_queue := [sample_solution 5 [(1, 9)]]\<rparr>"
      "[0, 0, 0, 0]" "\<lambda>_. [1, 2, 3]"]
  show ?thesis by (auto simp: sample_solution_def patched_def numeral_3_eq_3)
qed

text \<open>The solution that is delivered next, and whether it comes from the queue of the search.\<close>

definition next_item :: "dequeue \<Rightarrow> iface \<Rightarrow> (RGDSolution \<times> bool) option" where
  "next_item dq st =
     (case dq (higher_solution_queue st) of
        Some (item, _) \<Rightarrow> Some (item, True)
      | None \<Rightarrow> map_option (\<lambda>(item, _). (item, False)) (dq (solution_queue st)))"

lemma next_item_cases:
  assumes "next_item dq st = Some (item, search)"
  obtains (search) q where "search" "dq (higher_solution_queue st) = Some (item, q)"
  | (other) q where "\<not> search" "dq (higher_solution_queue st) = None" "dq (solution_queue st) = Some (item, q)"
  using assms that by (auto simp: next_item_def split: option.splits)

text \<open>
  C39. Where delivery fails, that is an exception or a write out of bounds. From either queue: a
  solution for a seed number of seven digits or more, for which the construction of the padding
  throws, whatever files there are; and a seed file that is longer than the buffer. From the
  queue of the search also a solution that names a byte outside the buffer, whether or not the
  seed exists, since the writes of this queue are not checked against any size.
\<close>

theorem get_next_input_fails:
  assumes "next_item dq st = Some (item, search)"
    and "1000000 \<le> unat (sfid item)
      \<or> (\<exists>name src. seed_name (sfid item) = Some name \<and> map_file (fsys st) name = Some src \<and> length input < length src)
      \<or> search \<and> (\<exists>(off, b) \<in> set (sol item). length input \<le> unat off)"
  shows "get_next_input dq input st = None"
proof (cases "seed_name (sfid item)")
  case None
  from assms(1) show ?thesis by (cases rule: next_item_cases) (simp_all add: get_next_input_def None)
next
  case (Some name)
  then have fid: "unat (sfid item) < 1000000" using seed_name_defined by blast
  show ?thesis
  proof (cases "load_input_file (fsys st) name input")
    case None
    from assms(1) show ?thesis by (cases rule: next_item_cases) (simp_all add: get_next_input_def Some None)
  next
    case loaded: (Some r)
    obtain sz buf where r: "r = (sz, buf)" by (cases r)
    have len: "length buf = length input" "\<forall>src. map_file (fsys st) name = Some src \<longrightarrow> length src \<le> length input"
      using loaded r by (auto simp: load_input_file_def split: option.splits if_splits)
    with assms(2) fid Some have out: "search" "\<exists>(off, b) \<in> set (sol item). length input \<le> unat off" by auto
    then obtain off b where "(off, b) \<in> set (sol item)" "length buf \<le> unat off" using len(1) by auto
    then have "write_all (sol item) buf = None" by (rule write_all_fails)
    with assms(1) out(1) show ?thesis
      by (cases rule: next_item_cases) (simp_all add: get_next_input_def Some loaded r)
  qed
qed

theorem get_next_input_fails_witness:
  "get_next_input fifo_dequeue [0, 0, 0, 0]
      (idle_iface\<lparr>higher_solution_queue := [sample_solution 5 [(4, 9)]]\<rparr>) = None
   \<and> get_next_input fifo_dequeue [0, 0, 0, 0]
      (idle_iface\<lparr>solution_queue := [sample_solution 1000000 []]\<rparr>) = None"
proof
  show "get_next_input fifo_dequeue [0, 0, 0, 0] (idle_iface\<lparr>higher_solution_queue := [sample_solution 5 [(4, 9)]]\<rparr>) = None"
    by (rule get_next_input_fails [where search = True and item = "sample_solution 5 [(4, 9)]"])
      (auto simp: next_item_def fifo_dequeue_def sample_solution_def)
  show "get_next_input fifo_dequeue [0, 0, 0, 0] (idle_iface\<lparr>solution_queue := [sample_solution 1000000 []]\<rparr>) = None"
    by (rule get_next_input_fails [where search = False and item = "sample_solution 1000000 []"])
      (auto simp: next_item_def fifo_dequeue_def sample_solution_def idle_iface_def)
qed

end
