(* ===== verification/Task_Build.thy ===== *)
theory Task_Build
  imports Code_Share Gd_Sound Field_Values Rgd_Interface
begin

text \<open>
  What the parser makes of a task whose constraints carry consistent metadata: constraint objects
  that meet the contract of the search, with functions that compute the operands of the trees.
\<close>

section \<open>Consistent constraints\<close>

text \<open>The slots of a leaf: a constant in the slot of its index, the bytes of a read in consecutive slots.\<close>

definition const_fits :: "(bool \<times> u64) list \<Rightarrow> AstNode \<Rightarrow> bool" where
  "const_fits ia x \<longleftrightarrow> (akind x = rgd_Constant \<longrightarrow>
     unat (index x) < length ia \<and> unat (index x) + 2 < 2 ^ 31 \<and> \<not> fst (ia ! unat (index x))
     \<and> dec_val (avalue x) = Some (unat (snd (ia ! unat (index x)))))"

definition read_fits :: "(u32 \<times> u32) list \<Rightarrow> (bool \<times> u64) list \<Rightarrow> AstNode \<Rightarrow> bool" where
  "read_fits lm ia x \<longleftrightarrow> (akind x = rgd_Read \<longrightarrow>
     (case map_of lm (index x) of
        None \<Rightarrow> False
      | Some start \<Rightarrow> unat start + width x div 8 \<le> length ia \<and> unat start + width x div 8 + 1 < 2 ^ 31
          \<and> 8 dvd width x \<and> width x \<le> 64
          \<and> (\<forall>j < width x div 8. map_of lm (index x + of_nat j) = Some (start + of_nat j))))"

text \<open>
  A constraint as the analyzer is meant to produce it: a comparison of two trees that have a
  value for every input, labels that stand for one value, and metadata that covers the leaves.
\<close>

definition meta_ok :: "Constraint \<Rightarrow> bool" where
  "meta_ok c \<longleftrightarrow>
     (let lm = meta_map (cmeta c); ia = meta_args (cmeta c)
      in distinct (map fst lm) \<and> distinct (map snd lm)
         \<and> (\<forall>(off, a) \<in> set lm. unat a < length ia \<and> fst (ia ! unat a))
         \<and> length ia = length lm + unat (meta_const_num (cmeta c))
         \<and> (\<forall>x \<in> set (concat (map nodes (children (cnode c)))). read_fits lm ia x)
         \<and> (\<forall>x \<in> set (fst (visits [] (children (cnode c)))). const_fits ia x \<and> read_fits lm ia x))"

definition tree_ok :: "AstNode \<Rightarrow> bool" where
  "tree_ok n \<longleftrightarrow> relational (akind n) \<and> length (children n) = 2
     \<and> (\<forall>c \<in> set (children n). width c \<le> 64 \<and> (\<forall>x \<in> set (nodes c). jit_node x))
     \<and> (\<forall>rd. labels_agree rd (concat (map nodes (children n)))
           \<and> (\<exists>w a b. ast_val jit_corner rd (children n ! 0) = Some (w, a)
                \<and> ast_val jit_corner rd (children n ! 1) = Some (w, b)))"

definition constraint_ok :: "Constraint \<Rightarrow> bool" where
  "constraint_ok c \<longleftrightarrow> tree_ok (cnode c) \<and> meta_ok c"

lemma meta_okD:
  assumes "meta_ok c"
  shows "distinct (map fst (meta_map (cmeta c)))" "distinct (map snd (meta_map (cmeta c)))"
    "(off, a) \<in> set (meta_map (cmeta c)) \<Longrightarrow> unat a < length (meta_args (cmeta c)) \<and> fst (meta_args (cmeta c) ! unat a)"
    "length (meta_args (cmeta c)) = length (meta_map (cmeta c)) + unat (meta_const_num (cmeta c))"
    "x \<in> set (concat (map nodes (children (cnode c)))) \<Longrightarrow> read_fits (meta_map (cmeta c)) (meta_args (cmeta c)) x"
    "x \<in> set (fst (visits [] (children (cnode c)))) \<Longrightarrow>
      const_fits (meta_args (cmeta c)) x \<and> read_fits (meta_map (cmeta c)) (meta_args (cmeta c)) x"
  using assms unfolding meta_ok_def Let_def by blast+

text \<open>An array whose slots hold the recorded constants meets the conditions of the compiled function.\<close>

definition args_for :: "(bool \<times> u64) list \<Rightarrow> u64 list \<Rightarrow> bool" where
  "args_for ia m \<longleftrightarrow> 2 + length ia \<le> length m \<and> slots_fit ia (take (length ia) (drop 2 m))"

lemma args_for_slot:
  assumes "args_for ia m" "i < length ia"
  shows "i + 2 < length m" "\<not> fst (ia ! i) \<Longrightarrow> m ! (i + 2) = snd (ia ! i)"
proof -
  show "i + 2 < length m" using assms by (simp add: args_for_def)
  have "take (length ia) (drop 2 m) ! i = m ! (i + 2)"
    using assms by (simp add: args_for_def add.commute)
  then show "\<not> fst (ia ! i) \<Longrightarrow> m ! (i + 2) = snd (ia ! i)"
    using assms unfolding args_for_def slots_fit_def by metis
qed

lemma slot_ok_args:
  assumes "args_for ia m" "const_fits ia x" "read_fits lm ia x"
  shows "slot_ok m lm x"
proof -
  have "2 + length ia \<le> length m" using assms(1) by (simp add: args_for_def)
  moreover have "unat (index x) + 2 < length m \<and> m ! (unat (index x) + 2) = snd (ia ! unat (index x))"
    if "akind x = rgd_Constant"
    using args_for_slot [OF assms(1), of "unat (index x)"] assms(2) that by (simp add: const_fits_def)
  ultimately show ?thesis
    using assms(2,3) unfolding slot_ok_def const_fits_def read_fits_def by (auto split: option.splits)
qed

lemma constraint_request:
  assumes "constraint_ok c" "args_for (meta_args (cmeta c)) m"
  shows "jit_request m (meta_map (cmeta c)) (cnode c)"
proof -
  have t: "tree_ok (cnode c)" "meta_ok c" using assms(1) by (simp_all add: constraint_ok_def)
  have "\<forall>x \<in> set (fst (visits [] (children (cnode c)))). slot_ok m (meta_map (cmeta c)) x"
    using slot_ok_args [OF assms(2)] meta_okD(6) [OF t(2)] by blast
  moreover have "2 \<le> length m" using assms(2) by (simp add: args_for_def)
  ultimately show ?thesis using t(1) by (simp add: jit_request_def tree_ok_def)
qed

lemma constraint_values:
  assumes "constraint_ok c"
  obtains w a b where "ast_val jit_corner rd (children (cnode c) ! 0) = Some (w, a)"
    "ast_val jit_corner rd (children (cnode c) ! 1) = Some (w, b)"
  using assms unfolding constraint_ok_def tree_ok_def by blast

text \<open>The value of the operands depends on the slots alone.\<close>

lemma cells_cong:
  assumes "read_fits lm ia x" "akind x = rgd_Read" "2 + length ia \<le> length m" "2 + length ia \<le> length m'"
    and "take (length ia) (drop 2 m) = take (length ia) (drop 2 m')"
  shows "cells m lm (index x) (width x div 8) = cells m' lm (index x) (width x div 8)"
proof -
  from assms(1,2) obtain start where st: "map_of lm (index x) = Some start" "unat start + width x div 8 \<le> length ia"
    unfolding read_fits_def by (auto split: option.splits)
  have "m ! (i + 2) = m' ! (i + 2)" if "i < length ia" for i
  proof -
    have "take (length ia) (drop 2 m) ! i = m ! (i + 2)" "take (length ia) (drop 2 m') ! i = m' ! (i + 2)"
      using that assms(3,4) by (simp_all add: add.commute)
    with assms(5) show ?thesis by simp
  qed
  then have "(\<Sum>j < width x div 8. cell m start j * 256 ^ j) = (\<Sum>j < width x div 8. cell m' start j * 256 ^ j)"
    using st(2) by (intro sum.cong) (simp_all add: cell_def)
  with st(1) show ?thesis by (simp add: cells_def)
qed

lemma child_nodes:
  "length (children n) = 2 \<Longrightarrow> i < 2 \<Longrightarrow> x \<in> set (nodes (children n ! i)) \<Longrightarrow> x \<in> set (concat (map nodes (children n)))"
  by (auto intro!: bexI [of _ "children n ! i"])

lemma constraint_fn_ok:
  assumes "constraint_ok c" "computes t (cnode c) (meta_map (cmeta c))"
  shows "fn_ok (meta_args (cmeta c)) t"
  unfolding fn_ok_def
proof (intro allI impI)
  fix args args' :: "u64 list"
  let ?ia = "meta_args (cmeta c)" and ?lm = "meta_map (cmeta c)" and ?n = "cnode c"
  assume h: "2 + length ?ia \<le> length args" "2 + length ?ia \<le> length args'" "slots_fit ?ia (take (length ?ia) (drop 2 args))"
    "take (length ?ia) (drop 2 args) = take (length ?ia) (drop 2 args')"
  have f: "args_for ?ia args" "args_for ?ia args'" using h by (simp_all add: args_for_def)
  obtain w a b where v: "ast_val jit_corner (cells args ?lm) (children ?n ! 0) = Some (w, a)"
    "ast_val jit_corner (cells args ?lm) (children ?n ! 1) = Some (w, b)" by (rule constraint_values [OF assms(1)])
  have two: "length (children ?n) = 2" and m: "meta_ok c" using assms(1) by (simp_all add: constraint_ok_def tree_ok_def)
  have "ast_val jit_corner (cells args ?lm) (children ?n ! i) = ast_val jit_corner (cells args' ?lm) (children ?n ! i)"
    if "i < 2" for i
    using cells_cong [OF meta_okD(5) [OF m child_nodes [OF two that]] _ h(1,2,4)]
    by (intro ast_val_reads_cong) simp
  from this [of 0] this [of 1] v have v': "ast_val jit_corner (cells args' ?lm) (children ?n ! 0) = Some (w, a)"
    "ast_val jit_corner (cells args' ?lm) (children ?n ! 1) = Some (w, b)" by simp_all
  note run = assms(2) [unfolded computes_def, rule_format, OF constraint_request [OF assms(1)]]
  have "fst (t args) = args[0 := ext64 (akind ?n) w a, 1 := ext64 (akind ?n) w b]"
    "fst (t args') = args'[0 := ext64 (akind ?n) w a, 1 := ext64 (akind ?n) w b]"
    by (rule run [OF f(1) v], rule run [OF f(2) v'])
  moreover have "0 < length args" "0 < length args'" "1 < length args" "1 < length args'" using h(1,2) by linarith+
  ultimately show "length (fst (t args)) = length args \<and> fst (t args) ! 0 = fst (t args') ! 0 \<and> fst (t args) ! 1 = fst (t args') ! 1"
    by (simp add: nth_list_update)
qed

section \<open>The objects the parser builds\<close>

text \<open>The object of a constraint with the function \<open>t\<close>, and such an object with a function that fits.\<close>

definition made :: "Cons \<Rightarrow> Constraint \<Rightarrow> test_fn \<Rightarrow> Cons" where
  "made junk c t = (append_meta (Cons_new (fn junk) (comparison junk) (const_num junk)) c)\<lparr>fn := t\<rparr>"

definition built :: "Cons \<Rightarrow> Constraint \<Rightarrow> Cons \<Rightarrow> bool" where
  "built junk c C \<longleftrightarrow> (\<exists>t. computes t (cnode c) (meta_map (cmeta c)) \<and> C = made junk c t)"

lemma fold_alist_ins: "distinct (map fst (xs @ ys)) \<Longrightarrow> fold alist_ins ys xs = xs @ ys"
proof (induction ys arbitrary: xs)
  case (Cons p ys)
  then have "alist_ins p xs = xs @ [p]" by (auto simp: alist_ins_def)
  with Cons.IH [of "xs @ [p]"] Cons.prems show ?case by simp
qed simp

lemma constraint_addFunction:
  assumes "constraint_ok c"
  shows "snd (addFunction (cnode c) (meta_map (cmeta c))) = meta_map (cmeta c)"
proof -
  let ?m = "0 # 0 # map snd (meta_args (cmeta c))"
  have "args_for (meta_args (cmeta c)) ?m" by (simp add: args_for_def slots_fit_def)
  note r = constraint_request [OF assms this]
  obtain w a b where "ast_val jit_corner (cells ?m (meta_map (cmeta c))) (children (cnode c) ! 0) = Some (w, a)"
    "ast_val jit_corner (cells ?m (meta_map (cmeta c))) (children (cnode c) ! 1) = Some (w, b)"
    by (rule constraint_values [OF assms])
  from jit_request_run [OF r this] show ?thesis by (metis snd_conv)
qed

lemma made_fields:
  assumes "constraint_ok c"
  shows "local_map (made junk c t) = meta_map (cmeta c)" "input_args (made junk c t) = meta_args (cmeta c)"
    "comparison (made junk c t) = akind (cnode c)" "const_num (made junk c t) = meta_const_num (cmeta c)"
    "fn (made junk c t) = t"
    "cinputs (made junk c t) = fold map_ins (map (\<lambda>(off, iv). (off, ucast iv)) (meta_inputs (cmeta c))) Map.empty"
    "cshape (made junk c t) = fold map_ins (meta_shape (cmeta c)) Map.empty"
proof -
  have "meta_ok c" using assms by (simp add: constraint_ok_def)
  then have "fold alist_ins (meta_map (cmeta c)) [] = meta_map (cmeta c)"
    using fold_alist_ins [of "[]" "meta_map (cmeta c)"] by (simp add: meta_okD(1))
  then show "local_map (made junk c t) = meta_map (cmeta c)" "input_args (made junk c t) = meta_args (cmeta c)"
    "comparison (made junk c t) = akind (cnode c)" "const_num (made junk c t) = meta_const_num (cmeta c)"
    "fn (made junk c t) = t"
    "cinputs (made junk c t) = fold map_ins (map (\<lambda>(off, iv). (off, ucast iv)) (meta_inputs (cmeta c))) Map.empty"
    "cshape (made junk c t) = fold map_ins (meta_shape (cmeta c)) Map.empty"
    by (simp_all add: made_def append_meta_def Cons_new_def Let_def)
qed

lemma built_compiled:
  assumes "constraint_ok c" "built junk c C"
  shows "compiled_ok C"
proof -
  from assms(2) obtain t where t: "computes t (cnode c) (meta_map (cmeta c))" "C = made junk c t" unfolding built_def by blast
  have "meta_ok c" "relational (akind (cnode c))" using assms(1) by (simp_all add: constraint_ok_def tree_ok_def)
  moreover have "fn_ok (meta_args (cmeta c)) t" by (rule constraint_fn_ok [OF assms(1) t(1)])
  ultimately show ?thesis
    using meta_okD [of c] by (auto simp: t(2) compiled_ok_def cons_wf_def made_fields [OF assms(1)])
qed

section \<open>The loop over the constraints\<close>

text \<open>The constraints that end up in a task: the first one, and those of the others that are cached.\<close>

definition cached_constraints :: "SearchTask \<Rightarrow> (u32 \<times> u32 \<rightharpoonup> Constraint) \<Rightarrow> nat list \<Rightarrow> Constraint list" where
  "cached_constraints task cc is = List.map_filter (\<lambda>i. cc (tfid task, clabel (tconstraints task ! i))) is"

definition task_constraints :: "SearchTask \<Rightarrow> (u32 \<times> u32 \<rightharpoonup> Constraint) \<Rightarrow> Constraint list" where
  "task_constraints task cc =
     (case tconstraints task of
        [] \<Rightarrow> []
      | c # ds \<Rightarrow> c # cached_constraints task (map_ins ((tfid task, clabel c), c) cc) [1..<Suc (length ds)])"

text \<open>
  The code cache is ready for a list of constraints: it has a free cell for each, and every entry
  that it holds or that these constraints may add fits each of them. An entry fits a constraint
  if it holds the function compiled for its key and, should \<open>isEqual\<close> identify the two, that
  function may serve the constraint.
\<close>

definition new_entry :: "jit_engine \<Rightarrow> Constraint \<Rightarrow> myKV" where
  "new_entry jit c = \<lparr>req = cnode c, kfn = jit (fst (addFunction (cnode c) (meta_map (cmeta c))))\<rparr>"

definition entry_fits :: "jit_engine \<Rightarrow> Constraint \<Rightarrow> myKV \<Rightarrow> bool" where
  "entry_fits jit c e \<longleftrightarrow> (\<exists>lm0. kfn e = jit (fst (addFunction (req e) lm0))
     \<and> (isEqual (cnode c) (req e) \<longrightarrow> serves lm0 (req e) (meta_map (cmeta c)) (cnode c)))"

definition cache_ready :: "jit_engine \<Rightarrow> Constraint list \<Rightarrow> myKV cells_array \<Rightarrow> bool" where
  "cache_ready jit cs T \<longleftrightarrow> length cs \<le> free_cells T
     \<and> (\<forall>c \<in> set cs. \<forall>e \<in> cache_entries T \<union> new_entry jit ` set cs. entry_fits jit c e)"

lemma cache_ready_step:
  assumes "cache_ready jit (c # cs) T" "cache_entries T' \<subseteq> insert (new_entry jit c) (cache_entries T)"
    and "free_cells T \<le> Suc (free_cells T')"
  shows "cache_ready jit cs T'"
proof -
  have "cache_entries T' \<union> new_entry jit ` set cs \<subseteq> cache_entries T \<union> new_entry jit ` set (c # cs)" using assms(2) by auto
  moreover have "\<forall>d \<in> set cs. \<forall>e \<in> cache_entries T \<union> new_entry jit ` set (c # cs). entry_fits jit d e"
    using assms(1) unfolding cache_ready_def by simp
  ultimately have "\<forall>d \<in> set cs. \<forall>e \<in> cache_entries T' \<union> new_entry jit ` set cs. entry_fits jit d e" by (meson subsetD)
  with assms(1,3) show ?thesis by (simp add: cache_ready_def)
qed

lemma add_constraint_built:
  assumes "follows_langref jit" "constraint_ok c" "use \<longrightarrow> cache_ready jit (c # cs) (Expr2Func (glob b))"
  obtains C g where "built junk c C" "cons_cache g = cons_cache (glob b)"
    "use \<longrightarrow> cache_ready jit cs (Expr2Func g)"
    "add_constraint jit use junk i c b = Some (b\<lparr>glob := g, cstore := (cstore b)(cnext b := C),
       cnext := cnext b + 1, bfut := push_constraint (cnext b) (bfut b),
       bfut_opt := (if i = 0 then push_constraint (cnext b) (bfut_opt b) else bfut_opt b)\<rparr>)"
proof -
  let ?n = "cnode c" and ?lm = "meta_map (cmeta c)"
  have nc: "akind ?n \<noteq> rgd_Constant" using assms(2) by (auto simp: constraint_ok_def tree_ok_def relational_def)
  have lm: "local_map (append_meta (Cons_new (fn junk) (comparison junk) (const_num junk)) c) = ?lm"
    using made_fields(1) [OF assms(2), of junk] by (simp add: made_def)
  have room: "0 < free_cells (Expr2Func (glob b))" and fits: "cache_fits jit ?n ?lm (glob b)" if "use"
    using assms(3) that by (auto simp: cache_ready_def cache_fits_def entry_fits_def)
  obtain t lm' g where g: "cached_fn jit use ?n ?lm (glob b) = Some (t, lm', g)" "computes t ?n ?lm"
    "lm' = ?lm \<or> lm' = snd (addFunction ?n ?lm)" "cons_cache g = cons_cache (glob b)"
    "cache_entries (Expr2Func g) \<subseteq> insert (new_entry jit c) (cache_entries (Expr2Func (glob b)))"
    "free_cells (Expr2Func (glob b)) \<le> Suc (free_cells (Expr2Func g))"
    unfolding new_entry_def by (rule cached_fn_ok [OF assms(1) room fits])
  have lm': "lm' = ?lm" using g(3) constraint_addFunction [OF assms(2)] by auto
  show thesis
  proof (rule that [of "made junk c t" g])
    show "built junk c (made junk c t)" using g(2) by (auto simp: built_def)
    show "use \<longrightarrow> cache_ready jit cs (Expr2Func g)" using cache_ready_step [OF _ g(5,6)] assms(3) by blast
    have "(append_meta (Cons_new (fn junk) (comparison junk) (const_num junk)) c)\<lparr>local_map := ?lm, fn := t\<rparr> = made junk c t"
      unfolding made_def lm [symmetric] by simp
    then show "add_constraint jit use junk i c b = Some (b\<lparr>glob := g, cstore := (cstore b)(cnext b := made junk c t),
       cnext := cnext b + 1, bfut := push_constraint (cnext b) (bfut b),
       bfut_opt := (if i = 0 then push_constraint (cnext b) (bfut_opt b) else bfut_opt b)\<rparr>)"
      using nc g(1) by (simp add: add_constraint_def lm lm' Let_def)
  qed (rule g(4))
qed

text \<open>What the loop leaves behind: the new objects, in order, at the end of the task.\<close>

definition extends :: "Cons \<Rightarrow> Constraint list \<Rightarrow> 'r builder \<Rightarrow> 'r builder \<Rightarrow> bool" where
  "extends junk cs b b' \<longleftrightarrow> cnext b' = cnext b + length cs \<and> bfut_opt b' = bfut_opt b
     \<and> bfut b' = (bfut b)\<lparr>constraints := constraints (bfut b) @ [cnext b..<cnext b + length cs]\<rparr>
     \<and> (\<forall>r < cnext b. cstore b' r = cstore b r)
     \<and> (\<forall>j < length cs. built junk (cs ! j) (cstore b' (cnext b + j)))"

lemma extends_Cons:
  assumes "extends junk cs b1 b'" "cnext b1 = cnext b + 1" "bfut_opt b1 = bfut_opt b"
    and "bfut b1 = push_constraint (cnext b) (bfut b)" "cstore b1 = (cstore b)(cnext b := C)" "built junk c C"
  shows "extends junk (c # cs) b b'"
proof -
  have "built junk ((c # cs) ! j) (cstore b' (cnext b + j))" if "j < length (c # cs)" for j
    using assms(1,2,5,6) that by (cases j) (auto simp: extends_def)
  moreover have "constraints (bfut b1) @ [cnext b1..<cnext b1 + length cs] =
      constraints (bfut b) @ [cnext b..<cnext b + length (c # cs)]"
    using assms(2,4) by (simp add: push_constraint_def upt_conv_Cons del: upt_Suc)
  ultimately show ?thesis
    using assms by (auto simp: extends_def push_constraint_def)
qed

lemma construct_rest:
  assumes "follows_langref jit" "0 \<notin> set is"
    and "\<forall>c \<in> set (cached_constraints task (cons_cache (glob b)) is). constraint_ok c"
    and "use \<longrightarrow> cache_ready jit (cached_constraints task (cons_cache (glob b)) is) (Expr2Func (glob b))"
  shows "\<exists>b'. construct_loop jit use junk task is b = Some b'
    \<and> extends junk (cached_constraints task (cons_cache (glob b)) is) b b'"
  using assms(2-)
proof (induction "is" arbitrary: b)
  case Nil
  show ?case by (simp add: extends_def cached_constraints_def map_filter_simps)
next
  case (Cons i "is")
  let ?x = "cons_cache (glob b) (tfid task, clabel (tconstraints task ! i))"
  have p: "pick_constraint task i (glob b) = (?x, glob b)" using Cons.prems(1) by (simp add: pick_constraint_def)
  show ?case
  proof (cases ?x)
    case None
    then have "cached_constraints task (cons_cache (glob b)) (i # is) = cached_constraints task (cons_cache (glob b)) is"
      by (simp add: cached_constraints_def map_filter_simps)
    with Cons None p show ?thesis by simp
  next
    case (Some c)
    let ?cs = "cached_constraints task (cons_cache (glob b)) is"
    have cs: "cached_constraints task (cons_cache (glob b)) (i # is) = c # ?cs"
      using Some by (simp add: cached_constraints_def map_filter_simps)
    have c: "constraint_ok c" using Cons.prems(2) cs by simp
    obtain C g where g: "built junk c C" "cons_cache g = cons_cache (glob b)" "use \<longrightarrow> cache_ready jit ?cs (Expr2Func g)"
      "add_constraint jit use junk i c b = Some (b\<lparr>glob := g, cstore := (cstore b)(cnext b := C),
         cnext := cnext b + 1, bfut := push_constraint (cnext b) (bfut b),
         bfut_opt := (if i = 0 then push_constraint (cnext b) (bfut_opt b) else bfut_opt b)\<rparr>)"
      (is "_ = Some ?b1")
      by (rule add_constraint_built [OF assms(1) c Cons.prems(3) [unfolded cs], where junk = junk and i = i])
    have "\<exists>b'. construct_loop jit use junk task is ?b1 = Some b'
      \<and> extends junk (cached_constraints task (cons_cache (glob ?b1)) is) ?b1 b'"
      by (rule Cons.IH) (use Cons.prems cs g(2,3) in simp_all)
    then obtain b' where b': "construct_loop jit use junk task is ?b1 = Some b'" "extends junk ?cs ?b1 b'" using g(2) by auto
    have "extends junk (c # ?cs) b b'"
      by (rule extends_Cons [OF b'(2) _ _ _ _ g(1)]) (use Cons.prems(1) in auto)
    with b'(1) g(4) p Some cs show ?thesis by simp
  qed
qed

text \<open>The two tasks before they are finalised.\<close>

lemma construct_loop_built:
  assumes "follows_langref jit" "tconstraints task \<noteq> []" "cs = task_constraints task (cons_cache (glob b))"
    and "\<forall>c \<in> set cs. constraint_ok c" "use \<longrightarrow> cache_ready jit cs (Expr2Func (glob b))"
    and "bfut_opt b = bfut b" "constraints (bfut b) = []"
  obtains b' where "construct_loop jit use junk task [0..<length (tconstraints task)] b = Some b'"
    "bfut b' = (bfut b)\<lparr>constraints := [cnext b..<cnext b + length cs]\<rparr>"
    "bfut_opt b' = (bfut b)\<lparr>constraints := [cnext b]\<rparr>"
    "\<forall>j < length cs. built junk (cs ! j) (cstore b' (cnext b + j))" "cs \<noteq> []"
proof -
  obtain c ds where t: "tconstraints task = c # ds" using assms(2) by (cases "tconstraints task") auto
  define cc where "cc = map_ins ((tfid task, clabel c), c) (cons_cache (glob b))"
  let ?cs = "cached_constraints task cc [1..<Suc (length ds)]"
  have cs: "cs = c # ?cs" by (simp add: assms(3) task_constraints_def t cc_def)
  define b0 where "b0 = b\<lparr>glob := (glob b)\<lparr>cons_cache := cc\<rparr>\<rparr>"
  have pick: "pick_constraint task 0 (glob b) = (Some c, glob b0)"
    by (simp add: pick_constraint_def t cc_def b0_def Let_def)
  have c: "constraint_ok c" using assms(4) cs by simp
  have ready: "use \<longrightarrow> cache_ready jit (c # ?cs) (Expr2Func (glob b0))" using assms(5) unfolding cs by (simp add: b0_def)
  obtain C g where g: "built junk c C" "cons_cache g = cons_cache (glob b0)" "use \<longrightarrow> cache_ready jit ?cs (Expr2Func g)"
    "add_constraint jit use junk 0 c b0 = Some (b0\<lparr>glob := g, cstore := (cstore b0)(cnext b0 := C),
       cnext := cnext b0 + 1, bfut := push_constraint (cnext b0) (bfut b0),
       bfut_opt := (if 0 = (0 :: nat) then push_constraint (cnext b0) (bfut_opt b0) else bfut_opt b0)\<rparr>)"
    (is "_ = Some ?b1") by (rule add_constraint_built [OF assms(1) c ready, where junk = junk and i = 0])
  have cc: "cons_cache (glob ?b1) = cc" "Expr2Func (glob ?b1) = Expr2Func g" using g(2) by (simp_all add: b0_def)
  obtain b' where b': "construct_loop jit use junk task [1..<Suc (length ds)] ?b1 = Some b'" "extends junk ?cs ?b1 b'"
  proof -
    have "0 \<notin> set [1..<Suc (length ds)]" by (simp del: upt_Suc)
    moreover have "\<forall>d \<in> set ?cs. constraint_ok d" using assms(4) unfolding cs by (simp del: upt_Suc)
    ultimately show thesis
      using construct_rest [OF assms(1), of "[1..<Suc (length ds)]" task ?b1 "use" junk] g(3) that unfolding cc by blast
  qed
  have "extends junk (c # ?cs) (b\<lparr>bfut_opt := push_constraint (cnext b) (bfut_opt b)\<rparr>) b'"
    by (rule extends_Cons [OF b'(2) _ _ _ _ g(1)]) (simp_all add: b0_def)
  then have e: "extends junk cs (b\<lparr>bfut_opt := push_constraint (cnext b) (bfut_opt b)\<rparr>) b'" unfolding cs .
  have run: "construct_loop jit use junk task [0..<length (tconstraints task)] b = Some b'"
    using pick g(4) b'(1) by (simp add: t upt_conv_Cons b0_def del: upt_Suc)
  show thesis
    by (rule that [OF run]) (use e assms(6,7) cs in \<open>simp_all add: extends_def push_constraint_def del: upt_Suc\<close>)
qed

end
