(* ===== verification/Rgd_Solve.thy ===== *)
theory Rgd_Solve
  imports Task_Build
begin

text \<open>
  The solver as a whole: from a task in the queue to a solution that makes the constraints of the
  task true on the bytes of the input.
\<close>

section \<open>The finalised tasks\<close>




section \<open>What a satisfied constraint means\<close>








section \<open>From the task to the solutions\<close>




section \<open>A sample run\<close>

















section \<open>Properties\<close>



end
