(* ===== verification/Spec2Isabelle.thy ===== *)
theory Spec2Isabelle
  imports Gd_Sound Gd_Result Taint_Roundtrip Pc_Threads Qsym_Filter Z3_Sound Rgd_Solve
begin

text \<open>
  A verification library for the concolic fuzzer under \<open>src/\<close>. Paths below are relative to it.

  \<^bold>\<open>The program.\<close> A program instrumented by the passes of \<open>llvm_mode/pass\<close> runs with the taint
  runtime of \<open>llvm_mode/dfsan_rt/dfsan\<close>. The runtime gives every byte of the input file a label,
  builds a new label for every operation on labelled data, keeps the labels of memory in a shadow
  memory and reports the labels of branches, indices and sizes. The fuzzer (\<open>fuzzer/src\<close>) turns
  the reported labels into constraint trees (\<open>fuzzer/protos/rgd.proto\<close>) and submits them as tasks
  to the solver library \<open>fuzzer/cpp_core\<close>. A task travels through a queue to the solver thread,
  which compiles each comparison to machine code, searches for an input by gradient descent on
  the distances that the code computes, and queues the bytes of a solution; the fuzzer fetches
  the seed with these bytes replaced. A second back end gives the constraints to Z3.

  \<^bold>\<open>Conventions.\<close> Machine integers are words of their width, classes and structs are records,
  enumerations are data types with the names of the source. Undefined behaviour, failed
  assertions and exceptions are the value \<open>None\<close>. Memory that is shared by pointers is an
  explicit store: the disable arrays of the search inputs, the constraint objects of two tasks,
  the sessions of the filter, the shadow memory. Collections of C++ that are iterated without a
  defined order are association lists or parameters. \<open>Fg_Prelude\<close> has the names of the integer
  types and shared lemmas, \<open>Fp64\<close> the arithmetic of \<open>double\<close>: exact rationals rounded to 53 bits.

  \<^bold>\<open>The taint runtime.\<close>
  \<^item> \<open>Taint_Table\<close>: \<open>taint_allocator.cc\<close>, \<open>union_util.cc\<close>, \<open>union_hashtable.cc\<close>; the allocator, the
    label descriptors and the hash table of descriptors. The locale \<open>label_table\<close> is what the
    runtime relies on (a lookup after an insertion), and \<open>ht\<close> interprets it on the table.
  \<^item> \<open>Taint_Rt\<close>: \<open>dfsan.cc\<close>, \<open>dfsan.h\<close>, \<open>dfsan_platform.h\<close>; the state \<open>rt\<close>, creation and union of
    labels, \<open>__taint_union_load\<close> and \<open>__taint_union_store\<close>, the address mapping of x86-64.
  \<^item> \<open>Taint_Trace\<close>: the callbacks of \<open>dfsan.cc\<close> for branches, indices, offsets and sizes, the tainted
    file and the start. Files and the memory mapping of the host are parameters.
  \<^item> \<open>Taint_Inv\<close>, \<open>Taint_Mem\<close>: the invariant \<open>rt_inv\<close> of the label space and of the shadow memory, and
    that every operation keeps it. \<open>Taint_Props\<close>: the runtime as a step relation \<open>rt_step\<close>; in every
    reachable state operands are older than the label, descriptors are unique and no label is
    reported twice; unions are hash-consed. \<open>Taint_Roundtrip\<close>: a store followed by a load gives
    the label back, copies of input bytes keep their labels, the labels after the start are the
    bytes of the file, the address mapping is injective and has an inverse, the search for a
    label ends; and two errors, of \<open>dfsan_has_label\<close> and of the test for consecutive bytes.

  \<^bold>\<open>The queue, the hashes and the filter.\<close>
  \<^item> \<open>Pc_Queue\<close>: \<open>pcqueue.h\<close> as functions on the ring buffer; the locale \<open>bounded_fifo\<close>, interpreted
    as \<open>pq\<close>, is the contract of a bounded queue. \<open>Pc_Threads\<close>: \<open>write\<close> and \<open>read\<close> access by access
    as the step relations of two threads. For every sequentially consistent interleaving the
    records are consumed in order, raw storage is not read and live records are not overwritten;
    without interference the steps are exactly the functions.
  \<^item> \<open>Xxh\<close>: XXH32 and XXH64 of \<open>xxhash.h\<close> and \<open>xxhash.cc\<close>, in one call and as streams; the locale
    \<open>hash_stream\<close> is interpreted for both (\<open>x32\<close>, \<open>x64\<close>): a stream gives the hash of the
    concatenated chunks.
  \<^item> \<open>Qsym_Filter\<close>: \<open>filter.cc\<close>; when the filter says yes, and a bound on how often it does.

  \<^bold>\<open>Constraints and the two back ends.\<close>
  \<^item> \<open>Rgd_Op\<close>: \<open>rgd_op.h\<close> and, of \<open>gd.cc\<close>, \<open>flip\<close>, \<open>sat_inc\<close> and \<open>getDistance\<close>. \<open>Ast\<close>: the messages of
    \<open>rgd.proto\<close> and the value \<open>ast_val\<close> of a tree, a bit-vector semantics that is the common
    specification of the back ends; the cases that LLVM leaves undefined are a parameter.
  \<^item> \<open>Jit_Codegen\<close>: \<open>jit.cc\<close>; \<open>codegen\<close> and \<open>addFunction\<close> produce the list of calls on the builder of
    LLVM. LLVM is a parameter \<open>jit\<close> with the hypothesis \<open>follows_langref\<close>: it runs the calls as its
    language reference says where that defines a result. \<open>Jit_Correct\<close>, \<open>Jit_Props\<close>: a compiled
    comparison stores its operands, with their signed or unsigned values, in the first two slots;
    what it returns is the distance of the operands, but for a wrap-around at \<open>2^64\<close>.
  \<^item> \<open>Z3_Solver\<close>: \<open>z3solver.cc\<close>. The decision procedure and the simplifier are parameters, with the
    hypotheses \<open>z3_sound\<close> and \<open>simplify_sound\<close>. \<open>Z3_Props\<close>, \<open>Z3_Sound\<close>: well-typed trees serialise to
    terms of their sort with the same value, solutions give every comparison the truth value
    asked for, and the two back ends agree.
  \<^item> \<open>Probe_Table\<close>: \<open>lprobe/hash_table.h\<close>, insertion and search by linear probing. \<open>Code_Cache\<close>:
    \<open>parser.cc\<close>, with the cache of compiled functions. \<open>Code_Share\<close>: when a cached function computes
    the operands of another request, and an example where the cache of the source confuses two.
    The locale \<open>memo_table\<close>, interpreted as \<open>jc\<close>, is what the parser relies on.

  \<^bold>\<open>The search.\<close>
  \<^item> \<open>Grad_Vec\<close>: \<open>grad.h\<close>, \<open>grad.cc\<close>. \<open>Mut_Input\<close>: \<open>input.h\<close>, \<open>input.cc\<close>; the generator of random numbers
    is a parameter. \<open>Search_Task\<close>: \<open>task.h\<close>; \<open>finalize\<close> and the indices it assigns.
  \<^item> \<open>Gd_Search\<close>: \<open>gd.cc\<close>, every phase of the search and its driver. \<open>Gd_Distance\<close>: the distance is the
    saturated sum of the gaps and zero just for the inputs that meet all constraints. \<open>Gd_Result\<close>:
    the bytes of a solution are those of the values of its fields. \<open>Gd_Sound\<close>: the search returns,
    what it records meets the constraints, no phase between two starts increases the distance;
    and a double free after \<open>MutInput::copy\<close>.

  \<^bold>\<open>The solver as a whole.\<close>
  \<^item> \<open>Rgd_Interface\<close>: \<open>interface.cc\<close>, \<open>util.cc\<close>; the queues, one turn of the solver thread and the
    delivery of inputs. The concurrent queue of solutions is a parameter with the hypothesis
    \<open>dequeues\<close>, the iteration over an unordered map one with \<open>iterates\<close>.
  \<^item> \<open>Field_Values\<close>, \<open>Task_Build\<close>, \<open>Rgd_Solve\<close>: reads of a tree on the cells of the search and on the
    bytes of a solution, the objects that the parser builds, and the end-to-end theorem about a
    turn of the solver thread. Its hypotheses on the task are \<open>constraint_ok\<close> (a comparison whose
    metadata covers its leaves), \<open>reads_fields\<close> and \<open>task_aligned\<close> (reads are whole fields) and, with
    the code cache on, \<open>cache_ready\<close>.

  \<^bold>\<open>Loops.\<close> Loops are recursive functions with a termination measure. Those that may run for ever
  are partial functions, where not returning is \<open>None\<close>: the driver of the search (it is proved to
  return: each turn of its loop spends one of \<open>MAX_EXEC_TIMES\<close> evaluations or moves on to the next
  phase), the probing of the hash table (it returns as long as a cell is empty), the search for
  a label (it returns for every label handed out) and the slow path of the load, for which a
  result is only claimed under the conditions of the round trips. The destructor of the queue
  runs with the size of the ring as fuel, which is enough for every queue that satisfies the
  invariant.

  \<^bold>\<open>Not modelled.\<close> The Rust programs under \<open>fuzzer/src\<close>, \<open>common\<close> and \<open>runtime_fast\<close>: most of them drive
  processes, pipes and files; the construction of the trees (\<open>union_to_ast.rs\<close>, \<open>analyzer.rs\<close>) and
  the union-find of dependent bytes are not covered, so what the solver needs of them is a
  hypothesis. The compiler passes and \<open>ko_clang.c\<close>, which work on LLVM modules and command lines;
  the wrappers of libc functions (\<open>dfsan_custom.cc\<close>, \<open>external_lib\<close>); \<open>z3backend.cc\<close>, a stand-alone
  solver on the label table; third-party code (\<open>queue.h\<close>, \<open>ctpl.h\<close>, the rest of \<open>lprobe\<close>, compiler-rt
  and its sanitizer libraries, the XXH3 family in \<open>xxhash.h\<close>); debug output, flag parsing, and
  the address mappings of other processors than x86-64. The memory orders of \<open>pcqueue.h\<close> are taken
  as sequentially consistent. A conversion of a \<open>double\<close> of \<open>2^64\<close> or more to an integer, a shift of a
  field by 64 bits or more, and fields that run past the inputs are undefined in the source; the
  model gives them a value and the theorems about values exclude fields of these kinds.
\<close>

end
